(* ===== verification/SS_Prelude.thy ===== *)
theory SS_Prelude
  imports Main "HOL-Library.Word" "HOL-Library.Multiset"
begin

unbundle bit_operations_syntax

text \<open>
  Shared vocabulary of the development: bytes and byte slices, Go error values, the result of
  code that may fail or panic, the big-endian accessors of \<^verbatim>\<open>encoding/binary\<close>, and the generic
  lemmas on lists, slices and words that the component theories use.

  Conventions. A Go slice that is only read is a byte list. A Go slice that is written in place is
  a range of a byte list, named by its offset; \<open>subslice\<close> reads such a range and \<open>blit\<close> overwrites
  it. A Go function with results \<^verbatim>\<open>(T, error)\<close> returns a \<open>result\<close>, whose
  constructors are the value, the error and a panic.
\<close>

section \<open>Types\<close>

type_synonym byte = "8 word"

type_synonym bytes = "byte list"

text \<open>
  Go error values, as far as the code tells them apart: the sentinels of package \<^verbatim>\<open>io\<close>,
  the repository's own \<open>ErrShortPacket\<close>, a \<^verbatim>\<open>net.Error\<close> with its \<open>Timeout\<close> flag, and errors made
  by \<^verbatim>\<open>errors.New\<close> or \<^verbatim>\<open>fmt.Errorf\<close> (which are equal to no sentinel), with the cause
  they wrap or mention where there is one.
\<close>

datatype goerror =
    EOF
  | ErrUnexpectedEOF
  | ErrShortBuffer
  | ErrShortPacket
  | NetError bool
  | ErrorNew string
  | ErrorWrap string goerror

text \<open>The result of a Go function that returns a value and an error, and may panic.\<close>

datatype 'a result = Ok 'a | Fail goerror | Panic string

fun bind_result :: "'a result \<Rightarrow> ('a \<Rightarrow> 'b result) \<Rightarrow> 'b result" where
  "bind_result (Ok a) f = f a"
| "bind_result (Fail e) f = Fail e"
| "bind_result (Panic m) f = Panic m"

section \<open>Collections of facts\<close>

named_theorems slice_simps \<open>reading and overwriting ranges of a buffer\<close>
named_theorems size_simps \<open>lengths of what the operations produce\<close>

section \<open>Slices\<close>

definition subslice :: "'a list \<Rightarrow> nat \<Rightarrow> nat \<Rightarrow> 'a list" where
  "subslice b lo hi = take (hi - lo) (drop lo b)"

definition blit :: "'a list \<Rightarrow> nat \<Rightarrow> 'a list \<Rightarrow> 'a list" where
  "blit b off src = take off b @ src @ drop (off + length src) b"

text \<open>Go's \<^verbatim>\<open>make([]byte, n)\<close>.\<close>

abbreviation make_bytes :: "nat \<Rightarrow> bytes" where
  "make_bytes n \<equiv> replicate n 0"

text \<open>\<^verbatim>\<open>binary.BigEndian.PutUint16\<close> and \<^verbatim>\<open>binary.BigEndian.Uint16\<close> on two bytes.\<close>

definition PutUint16 :: "16 word \<Rightarrow> bytes" where
  "PutUint16 v = [ucast (drop_bit 8 v), ucast v]"

fun Uint16 :: "bytes \<Rightarrow> 16 word" where
  "Uint16 (a # b # _) = (push_bit 8 (ucast a)) OR (ucast b)"
| "Uint16 _ = 0"

text \<open>The bytes of a string, and the bytes of a fixed-size digest, most significant first.\<close>

definition bytes_of_string :: "string \<Rightarrow> bytes" where
  "bytes_of_string s = map (\<lambda>c. word_of_nat (of_char c)) s"

definition digest_bytes :: "nat \<Rightarrow> 'w::len word \<Rightarrow> bytes" where
  "digest_bytes n w = map (\<lambda>i. ucast (drop_bit (8 * (n - 1 - i)) w)) [0..<n]"

text \<open>\<^verbatim>\<open>crypto/rand.Read\<close>: it fills the buffer with random bytes or fails.\<close>

type_synonym entropy = "goerror + (nat \<Rightarrow> byte)"

fun rand_Read :: "entropy \<Rightarrow> nat \<Rightarrow> bytes result" where
  "rand_Read (Inl e) n = Fail e"
| "rand_Read (Inr f) n = Ok (map f [0..<n])"

section \<open>Lemmas\<close>

lemma length_subslice [size_simps]: "hi \<le> length b \<Longrightarrow> length (subslice b lo hi) = hi - lo"
  by (simp add: subslice_def)

lemma length_blit [size_simps, simp]:
  "off + length src \<le> length b \<Longrightarrow> length (blit b off src) = length b"
  by (simp add: blit_def)

lemma subslice_blit_same [slice_simps]:
  "off + length src \<le> length b \<Longrightarrow> subslice (blit b off src) off (off + length src) = src"
  by (simp add: blit_def subslice_def)

lemma take_blit [slice_simps]:
  "n \<le> off \<Longrightarrow> off + length src \<le> length b \<Longrightarrow> take n (blit b off src) = take n b"
  by (simp add: blit_def)

lemma subslice_blit_before [slice_simps]:
  "hi \<le> off \<Longrightarrow> off + length src \<le> length b \<Longrightarrow> subslice (blit b off src) lo hi = subslice b lo hi"
  by (simp add: subslice_def flip: drop_take) (simp add: drop_take [symmetric] take_blit)

lemma drop_blit_after:
  "off + length src \<le> lo \<Longrightarrow> off + length src \<le> length b \<Longrightarrow> drop lo (blit b off src) = drop lo b"
  by (simp add: blit_def drop_append min_def)

lemma subslice_blit_after [slice_simps]:
  "off + length src \<le> lo \<Longrightarrow> off + length src \<le> length b \<Longrightarrow>
     subslice (blit b off src) lo hi = subslice b lo hi"
  by (simp add: subslice_def drop_blit_after)

lemma subslice_append [slice_simps]:
  "lo \<le> mid \<Longrightarrow> mid \<le> hi \<Longrightarrow> subslice b lo mid @ subslice b mid hi = subslice b lo hi"
proof -
  assume "lo \<le> mid" "mid \<le> hi"
  then have "hi - lo = (mid - lo) + (hi - mid)" "drop mid b = drop (mid - lo) (drop lo b)"
    by simp_all
  then show ?thesis
    by (simp only: subslice_def take_add)
qed

lemma subslice_zero [slice_simps]: "subslice b 0 n = take n b"
  by (simp add: subslice_def)

lemma subslice_refl [slice_simps, simp]: "subslice b n n = []"
  by (simp add: subslice_def)

lemma Uint16_PutUint16 [simp]: "Uint16 (PutUint16 v @ rest) = v"
  by (simp add: PutUint16_def) (rule bit_word_eqI, auto simp: bit_simps)

lemma length_PutUint16 [simp]: "length (PutUint16 v) = 2"
  by (simp add: PutUint16_def)

lemma unat_byte_less: "unat (x :: byte) < 256"
  by (rule unsigned_less [THEN less_le_trans]) simp

text \<open>A property of every byte, checked on all of them.\<close>

lemma all_bytes:
  assumes "list_all (\<lambda>n. P (word_of_nat n :: byte)) [0..<256]"
  shows "P x"
proof -
  have "unat x \<in> set [0..<256]" using unat_byte_less [of x] by simp
  with assms have "P (word_of_nat (unat x))" unfolding list_all_iff by blast
  then show ?thesis by simp
qed

lemma bind_result_Ok_iff:
  "bind_result m f = Ok b \<longleftrightarrow> (\<exists>a. m = Ok a \<and> f a = Ok b)"
  by (cases m) auto

lemma bind_result_Fail_iff:
  "bind_result m f = Fail e \<longleftrightarrow> m = Fail e \<or> (\<exists>a. m = Ok a \<and> f a = Fail e)"
  by (cases m) auto

lemma bind_result_Panic_iff:
  "bind_result m f = Panic s \<longleftrightarrow> m = Panic s \<or> (\<exists>a. m = Ok a \<and> f a = Panic s)"
  by (cases m) auto

lemmas bind_result_iffs = bind_result_Ok_iff bind_result_Fail_iff bind_result_Panic_iff

lemma length_digest_bytes [simp]: "length (digest_bytes n w) = n"
  by (simp add: digest_bytes_def)

end
