(* ===== verification/SS_Cipher.thy ===== *)
theory SS_Cipher
  imports SS_Prelude
begin

text \<open>
  Model of \<^verbatim>\<open>shadowsocks/cipher.go\<close>: the table of AEAD ciphers, the derivation of keys, and
  one-shot decryption.

  The primitives themselves are a parameter of the model, the record \<open>crypto\<close>:
  ChaCha20-Poly1305 and HKDF (\<^verbatim>\<open>golang.org/x/crypto\<close>), AES-GCM, MD5 and HMAC-SHA1 (Go's
  standard library, used through their interfaces only). Digests have the size of Go's array
  types (\<^verbatim>\<open>[16]byte\<close>, \<^verbatim>\<open>[20]byte\<close>). \<open>crypto_ok\<close> states what their documentation promises:
  sizes, and that opening a sealed message with the same nonce gives the message back.
\<close>

section \<open>Primitives\<close>

text \<open>\<^verbatim>\<open>cipher.AEAD\<close>. The additional data is \<^verbatim>\<open>nil\<close> in every call of the code, so it is left
  out; \<open>Seal\<close> is the ciphertext with its tag.\<close>

record aead =
  NonceSize :: nat
  Overhead :: nat
  Seal :: "bytes \<Rightarrow> bytes \<Rightarrow> bytes"
  Open :: "bytes \<Rightarrow> bytes \<Rightarrow> bytes option"

record crypto =
  chacha20poly1305_New :: "bytes \<Rightarrow> aead result"
  gcm_Seal :: "bytes \<Rightarrow> bytes \<Rightarrow> bytes \<Rightarrow> bytes"
  gcm_Open :: "bytes \<Rightarrow> bytes \<Rightarrow> bytes \<Rightarrow> bytes option"
  hkdf_SHA1 :: "bytes \<Rightarrow> bytes \<Rightarrow> bytes \<Rightarrow> nat \<Rightarrow> bytes result"
  md5_Sum :: "bytes \<Rightarrow> 128 word"
  hmac_SHA1 :: "bytes \<Rightarrow> bytes \<Rightarrow> 160 word"

definition aead_ok :: "aead \<Rightarrow> bool" where
  "aead_ok A \<longleftrightarrow>
     (\<forall>nonce p. length nonce = NonceSize A \<longrightarrow>
        length (Seal A nonce p) = length p + Overhead A \<and> Open A nonce (Seal A nonce p) = Some p) \<and>
     (\<forall>nonce c p. Open A nonce c = Some p \<longrightarrow> length c = length p + Overhead A)"

definition crypto_ok :: "crypto \<Rightarrow> bool" where
  "crypto_ok cr \<longleftrightarrow>
     (\<forall>key. length key = 32 \<longrightarrow>
        (\<exists>A. chacha20poly1305_New cr key = Ok A \<and> aead_ok A \<and> NonceSize A = 12 \<and> Overhead A = 16)) \<and>
     (\<forall>key. aead_ok \<lparr>NonceSize = 12, Overhead = 16, Seal = gcm_Seal cr key, Open = gcm_Open cr key\<rparr>) \<and>
     (\<forall>secret salt info n. n \<le> 255 * 20 \<longrightarrow>
        (\<exists>key. hkdf_SHA1 cr secret salt info n = Ok key \<and> length key = n))"

section \<open>The cipher table\<close>

record aeadSpec =
  name :: string
  newInstance :: "bytes \<Rightarrow> aead result"
  keySize :: nat
  saltSize :: nat
  tagSize :: nat

text \<open>AES takes keys of 16, 24 or 32 bytes; Go's GCM has 12-byte nonces and 16-byte tags.\<close>

definition newAesGCM :: "crypto \<Rightarrow> bytes \<Rightarrow> aead result" where
  "newAesGCM cr key =
     (if length key \<in> {16, 24, 32} then
        Ok \<lparr>NonceSize = 12, Overhead = 16, Seal = gcm_Seal cr key, Open = gcm_Open cr key\<rparr>
      else Fail (ErrorNew ''crypto/aes: invalid key size''))"

definition newAEADSpec :: "string \<Rightarrow> (bytes \<Rightarrow> aead result) \<Rightarrow> nat \<Rightarrow> nat \<Rightarrow> aeadSpec result" where
  "newAEADSpec nm mk ksize ssize =
     (case mk (make_bytes ksize) of
        Ok dummyAead \<Rightarrow>
          Ok \<lparr>name = nm, newInstance = mk, keySize = ksize, saltSize = ssize,
              tagSize = Overhead dummyAead\<rparr>
      | Fail _ \<Rightarrow> Panic (''Failed to initialize AEAD '' @ nm)
      | Panic m \<Rightarrow> Panic m)"

text \<open>The package variable \<open>supportedAEADs\<close>: the result of the package's initialisation.\<close>

definition supportedAEADs :: "crypto \<Rightarrow> aeadSpec list result" where
  "supportedAEADs cr =
     bind_result (newAEADSpec ''chacha20-ietf-poly1305'' (chacha20poly1305_New cr) 32 32) (\<lambda>s1.
     bind_result (newAEADSpec ''aes-256-gcm'' (newAesGCM cr) 32 32) (\<lambda>s2.
     bind_result (newAEADSpec ''aes-192-gcm'' (newAesGCM cr) 24 24) (\<lambda>s3.
     bind_result (newAEADSpec ''aes-128-gcm'' (newAesGCM cr) 16 16) (\<lambda>s4.
     Ok [s1, s2, s3, s4]))))"

text \<open>The functions that read the table take it as the argument \<open>specs\<close>.\<close>

definition SupportedCipherNames :: "aeadSpec list \<Rightarrow> string list" where
  "SupportedCipherNames specs = map name specs"

text \<open>\<^verbatim>\<open>strings.ToLower\<close> on ASCII strings.\<close>

definition ToLower :: "string \<Rightarrow> string" where
  "ToLower s = map (\<lambda>c. if 65 \<le> (of_char c :: nat) \<and> (of_char c :: nat) \<le> 90
                         then char_of ((of_char c :: nat) + 32) else c) s"

fun find_spec :: "aeadSpec list \<Rightarrow> string \<Rightarrow> aeadSpec result" where
  "find_spec [] nm = Fail (ErrorNew (''Unknown cipher '' @ nm))"
| "find_spec (s # ss) nm = (if name s = nm then Ok s else find_spec ss nm)"

definition getAEADSpec :: "aeadSpec list \<Rightarrow> string \<Rightarrow> aeadSpec result" where
  "getAEADSpec specs nm = find_spec specs (ToLower nm)"

fun max_tag_loop :: "aeadSpec list \<Rightarrow> nat \<Rightarrow> nat" where
  "max_tag_loop [] mx = mx"
| "max_tag_loop (s # ss) mx = max_tag_loop ss (if mx < tagSize s then tagSize s else mx)"

definition maxTagSize :: "aeadSpec list \<Rightarrow> nat" where
  "maxTagSize specs = max_tag_loop specs 0"

section \<open>Ciphers\<close>

record Cipher =
  cipher_aead :: aeadSpec
  cipher_secret :: bytes

definition SaltSize :: "Cipher \<Rightarrow> nat" where
  "SaltSize c = saltSize (cipher_aead c)"

definition TagSize :: "Cipher \<Rightarrow> nat" where
  "TagSize c = tagSize (cipher_aead c)"

definition subkeyInfo :: bytes where
  "subkeyInfo = bytes_of_string ''ss-subkey''"

definition NewAEAD :: "crypto \<Rightarrow> Cipher \<Rightarrow> bytes \<Rightarrow> aead result" where
  "NewAEAD cr c salt =
     bind_result (hkdf_SHA1 cr (cipher_secret c) salt subkeyInfo (keySize (cipher_aead c)))
       (newInstance (cipher_aead c))"

text \<open>The loop of \<open>simpleEVPBytesToKey\<close>: each round appends the digest of the previous digest and
  the data.\<close>

function evp_loop :: "(bytes \<Rightarrow> 128 word) \<Rightarrow> bytes \<Rightarrow> nat \<Rightarrow> bytes \<Rightarrow> bytes \<Rightarrow> bytes" where
  "evp_loop md5 data keyLen derived di =
     (if length derived < keyLen then
        let derived' = derived @ digest_bytes 16 (md5 (di @ data))
        in evp_loop md5 data keyLen derived' (drop (length derived' - 16) derived')
      else derived)"
  by pat_completeness auto
termination
  by (relation "measure (\<lambda>(md5, data, keyLen, derived, di). keyLen - length derived)") auto

declare evp_loop.simps [simp del]

definition simpleEVPBytesToKey :: "crypto \<Rightarrow> bytes \<Rightarrow> nat \<Rightarrow> bytes" where
  "simpleEVPBytesToKey cr data keyLen = take keyLen (evp_loop (md5_Sum cr) data keyLen [] [])"

definition NewCipher :: "crypto \<Rightarrow> aeadSpec list \<Rightarrow> string \<Rightarrow> string \<Rightarrow> Cipher result" where
  "NewCipher cr specs cipherName secretText =
     bind_result (getAEADSpec specs cipherName) (\<lambda>spec.
       Ok \<lparr>cipher_aead = spec,
           cipher_secret = simpleEVPBytesToKey cr (bytes_of_string secretText) (keySize spec)\<rparr>)"

section \<open>One-shot decryption\<close>

definition zeroNonce :: bytes where
  "zeroNonce = make_bytes 12"

text \<open>\<open>DecryptOnce cr c salt plainText cap cipherText\<close>, where \<open>cap\<close> is the capacity of the slice
  \<open>plainText\<close>. Slicing \<open>zeroNonce\<close> panics beyond its 12 bytes.\<close>

definition DecryptOnce ::
  "crypto \<Rightarrow> Cipher \<Rightarrow> bytes \<Rightarrow> bytes \<Rightarrow> nat \<Rightarrow> bytes \<Rightarrow> bytes result" where
  "DecryptOnce cr c salt plainText cap cipherText =
     bind_result (NewAEAD cr c salt) (\<lambda>A.
       if length cipherText < Overhead A then Fail ErrUnexpectedEOF
       else if cap - length plainText < length cipherText - Overhead A then Fail ErrShortBuffer
       else if length zeroNonce < NonceSize A then Panic ''slice bounds out of range''
       else case Open A (take (NonceSize A) zeroNonce) cipherText of
              None \<Rightarrow> Fail (ErrorNew ''cipher: message authentication failed'')
            | Some p \<Rightarrow> Ok (plainText @ p))"

section \<open>Lemmas\<close>

lemma aead_ok_seal:
  assumes "aead_ok A" and "length nonce = NonceSize A"
  shows length_Seal: "length (Seal A nonce p) = length p + Overhead A"
    and Open_Seal: "Open A nonce (Seal A nonce p) = Some p"
  using assms by (auto simp: aead_ok_def)

lemma aead_ok_open: "aead_ok A \<Longrightarrow> Open A nonce c = Some p \<Longrightarrow> length c = length p + Overhead A"
  by (auto simp: aead_ok_def)

text \<open>What the rest of the development needs of a cipher: every salt gives a lawful AEAD with
  12-byte nonces and 16-byte tags, and the salt has at least 16 bytes.\<close>

definition cipher_ok :: "crypto \<Rightarrow> Cipher \<Rightarrow> bool" where
  "cipher_ok cr c \<longleftrightarrow>
     SaltSize c \<in> {16, 24, 32} \<and> TagSize c = 16 \<and>
     (\<forall>salt. \<exists>A. NewAEAD cr c salt = Ok A \<and> aead_ok A \<and> NonceSize A = 12 \<and> Overhead A = 16)"

lemma cipher_okE:
  assumes "cipher_ok cr c"
  obtains A where "NewAEAD cr c salt = Ok A" "aead_ok A" "NonceSize A = 12" "Overhead A = 16"
  using assms by (auto simp: cipher_ok_def)

lemma supportedAEADs_eq:
  assumes "crypto_ok cr"
  shows "supportedAEADs cr = Ok
    [\<lparr>name = ''chacha20-ietf-poly1305'', newInstance = chacha20poly1305_New cr,
      keySize = 32, saltSize = 32, tagSize = 16\<rparr>,
     \<lparr>name = ''aes-256-gcm'', newInstance = newAesGCM cr, keySize = 32, saltSize = 32, tagSize = 16\<rparr>,
     \<lparr>name = ''aes-192-gcm'', newInstance = newAesGCM cr, keySize = 24, saltSize = 24, tagSize = 16\<rparr>,
     \<lparr>name = ''aes-128-gcm'', newInstance = newAesGCM cr, keySize = 16, saltSize = 16, tagSize = 16\<rparr>]"
proof -
  from assms have "\<forall>key. length key = 32 \<longrightarrow> (\<exists>A. chacha20poly1305_New cr key = Ok A \<and> aead_ok A \<and>
      NonceSize A = 12 \<and> Overhead A = 16)"
    by (simp add: crypto_ok_def)
  then obtain A where "chacha20poly1305_New cr (make_bytes 32) = Ok A" "Overhead A = 16"
    by (metis length_replicate)
  then show ?thesis
    by (simp add: supportedAEADs_def newAEADSpec_def newAesGCM_def)
qed

lemma find_spec_mem: "find_spec specs nm = Ok s \<Longrightarrow> s \<in> set specs \<and> name s = nm"
  by (induction specs) (auto split: if_splits)

lemma find_spec_unknown: "nm \<notin> name ` set specs \<Longrightarrow> find_spec specs nm = Fail (ErrorNew (''Unknown cipher '' @ nm))"
  by (induction specs) auto

lemma find_spec_known: "nm \<in> name ` set specs \<Longrightarrow> \<exists>s. find_spec specs nm = Ok s"
  by (induction specs) auto

lemma spec_cipher_ok:
  assumes cr: "crypto_ok cr" and specs: "supportedAEADs cr = Ok specs" and "spec \<in> set specs"
  shows "cipher_ok cr \<lparr>cipher_aead = spec, cipher_secret = sec\<rparr>"
proof -
  have chacha: "\<exists>A. chacha20poly1305_New cr key = Ok A \<and> aead_ok A \<and> NonceSize A = 12 \<and> Overhead A = 16"
    if "length key = 32" for key
    using cr that by (simp add: crypto_ok_def)
  have gcm: "\<exists>A. newAesGCM cr key = Ok A \<and> aead_ok A \<and> NonceSize A = 12 \<and> Overhead A = 16"
    if "length key \<in> {16, 24, 32}" for key
    using cr that by (simp add: crypto_ok_def newAesGCM_def)
  have kdf: "\<exists>key. hkdf_SHA1 cr sec salt subkeyInfo n = Ok key \<and> length key = n"
    if "n \<le> 32" for salt n
    using cr that by (simp add: crypto_ok_def)
  have inst: "\<exists>A. newInstance spec key = Ok A \<and> aead_ok A \<and> NonceSize A = 12 \<and> Overhead A = 16"
    if "length key = keySize spec" for key
    using assms that chacha gcm by (auto simp: supportedAEADs_eq)
  have sizes: "keySize spec \<le> 32 \<and> saltSize spec \<in> {16, 24, 32} \<and> tagSize spec = 16"
    using assms by (auto simp: supportedAEADs_eq)
  have "\<exists>A. NewAEAD cr \<lparr>cipher_aead = spec, cipher_secret = sec\<rparr> salt = Ok A \<and> aead_ok A \<and>
      NonceSize A = 12 \<and> Overhead A = 16" for salt
    using kdf [of "keySize spec" salt] sizes inst by (auto simp: NewAEAD_def)
  with sizes show ?thesis
    by (simp add: cipher_ok_def SaltSize_def TagSize_def)
qed

lemma NewCipher_cipher_ok:
  assumes "crypto_ok cr" and "supportedAEADs cr = Ok specs" and "NewCipher cr specs nm sec = Ok c"
  shows "cipher_ok cr c"
  using assms spec_cipher_ok find_spec_mem
  by (fastforce simp: NewCipher_def getAEADSpec_def bind_result_Ok_iff)

subsection \<open>Key derivation against its reference\<close>

text \<open>\<^verbatim>\<open>EVP_BytesToKey\<close> with one iteration and no salt, as OpenSSL documents it:
  \<open>D\<^sub>0 = MD5(data)\<close>, \<open>D\<^sub>i\<^sub>+\<^sub>1 = MD5(D\<^sub>i || data)\<close>, and the key is a prefix of their concatenation.\<close>

primrec evp_D :: "(bytes \<Rightarrow> 128 word) \<Rightarrow> bytes \<Rightarrow> nat \<Rightarrow> bytes" where
  "evp_D md5 data 0 = digest_bytes 16 (md5 data)"
| "evp_D md5 data (Suc i) = digest_bytes 16 (md5 (evp_D md5 data i @ data))"

lemma length_evp_D [simp]: "length (evp_D md5 data i) = 16"
  by (cases i) simp_all

lemma length_evp_blocks [simp]: "length (concat (map (evp_D md5 data) [0..<k])) = 16 * k"
  by (induction k) simp_all

lemma evp_loop_blocks:
  assumes "derived = concat (map (evp_D md5 data) [0..<k])"
    and "di = (if k = 0 then [] else evp_D md5 data (k - 1))"
  shows "\<exists>m \<ge> k. keyLen \<le> 16 * m \<and>
    evp_loop md5 data keyLen derived di = concat (map (evp_D md5 data) [0..<m])"
  using assms
proof (induction md5 data keyLen derived di arbitrary: k rule: evp_loop.induct)
  case (1 md5 data keyLen derived di)
  let ?next = "derived @ digest_bytes 16 (md5 (di @ data))"
  show ?case
  proof (cases "length derived < keyLen")
    case True
    have blocks: "?next = concat (map (evp_D md5 data) [0..<Suc k])"
      using "1.prems" by (cases k) auto
    then have "drop (length ?next - 16) ?next = evp_D md5 data k"
      by simp
    with "1.IH" [OF True refl, of "Suc k"] blocks obtain m where "m \<ge> Suc k" "keyLen \<le> 16 * m"
      "evp_loop md5 data keyLen ?next (drop (length ?next - 16) ?next)
        = concat (map (evp_D md5 data) [0..<m])"
      by auto
    with True show ?thesis
      by (intro exI [of _ m]) (simp add: evp_loop.simps [of md5 data keyLen derived di] Let_def)
  next
    case False
    then have "evp_loop md5 data keyLen derived di = derived"
      by (simp add: evp_loop.simps [of md5 data keyLen derived di])
    with False "1.prems"(1) show ?thesis
      by (intro exI [of _ k]) simp
  qed
qed

lemma evp_blocks_prefix:
  "k \<le> m \<Longrightarrow> n \<le> 16 * k \<Longrightarrow>
     take n (concat (map (evp_D md5 data) [0..<m])) = take n (concat (map (evp_D md5 data) [0..<k]))"
proof -
  assume "k \<le> m" "n \<le> 16 * k"
  then have "[0..<m] = [0..<k] @ [k..<m]"
    by (metis le_add_diff_inverse upt_add_eq_append zero_le)
  with \<open>n \<le> 16 * k\<close> show ?thesis by simp
qed

lemma simpleEVPBytesToKey_blocks:
  assumes "keyLen \<le> 16 * k"
  shows "simpleEVPBytesToKey cr data keyLen = take keyLen (concat (map (evp_D (md5_Sum cr) data) [0..<k]))"
proof -
  obtain m where m: "keyLen \<le> 16 * m"
    "evp_loop (md5_Sum cr) data keyLen [] [] = concat (map (evp_D (md5_Sum cr) data) [0..<m])"
    using evp_loop_blocks [of "[]" "md5_Sum cr" data 0 "[]" keyLen] by auto
  show ?thesis
    unfolding simpleEVPBytesToKey_def m(2)
    using evp_blocks_prefix [of k m keyLen] evp_blocks_prefix [of m k keyLen] assms m(1)
    by (cases "k \<le> m") simp_all
qed

lemma length_simpleEVPBytesToKey: "length (simpleEVPBytesToKey cr data keyLen) = keyLen"
  using simpleEVPBytesToKey_blocks [of keyLen keyLen cr data] by simp

lemma max_tag_loop_bounds:
  "(s \<in> set specs \<longrightarrow> tagSize s \<le> max_tag_loop specs mx) \<and> mx \<le> max_tag_loop specs mx \<and>
     max_tag_loop specs mx \<in> tagSize ` set specs \<union> {mx}"
proof (induction specs arbitrary: mx)
  case (Cons a specs)
  from Cons [of "if mx < tagSize a then tagSize a else mx"] show ?case
    by (auto split: if_splits)
qed simp

subsection \<open>A model of the hypotheses\<close>

text \<open>A toy instance of the primitives, used by the witnesses only: the tag binds key and nonce, the
  derived key binds salt and secret.\<close>

definition toy_tag :: "bytes \<Rightarrow> bytes \<Rightarrow> bytes" where
  "toy_tag key nonce = take 16 (take 8 nonce @ take 8 key @ make_bytes 16)"

definition toy_Seal :: "bytes \<Rightarrow> bytes \<Rightarrow> bytes \<Rightarrow> bytes" where
  "toy_Seal key nonce p = p @ toy_tag key nonce"

definition toy_Open :: "bytes \<Rightarrow> bytes \<Rightarrow> bytes \<Rightarrow> bytes option" where
  "toy_Open key nonce c =
     (if 16 \<le> length c \<and> drop (length c - 16) c = toy_tag key nonce
      then Some (take (length c - 16) c) else None)"

definition toy_crypto :: crypto where
  "toy_crypto = \<lparr>
     chacha20poly1305_New = (\<lambda>key. if length key = 32
        then Ok \<lparr>NonceSize = 12, Overhead = 16, Seal = toy_Seal key, Open = toy_Open key\<rparr>
        else Fail (ErrorNew ''chacha20poly1305: bad key length'')),
     gcm_Seal = toy_Seal,
     gcm_Open = toy_Open,
     hkdf_SHA1 = (\<lambda>secret salt info n. Ok (take n (take 4 salt @ secret @ make_bytes n))),
     md5_Sum = (\<lambda>b. word_of_nat (sum_list (map unat b))),
     hmac_SHA1 = (\<lambda>key b. word_of_nat (sum_list (map unat b) + sum_list (map unat key)))\<rparr>"

lemma toy_aead_ok:
  "aead_ok \<lparr>NonceSize = 12, Overhead = 16, Seal = toy_Seal key, Open = toy_Open key\<rparr>"
proof -
  have "length (toy_tag key nonce) = 16" for nonce
    by (simp add: toy_tag_def)
  then show ?thesis
    by (auto simp: aead_ok_def toy_Seal_def toy_Open_def split: if_splits)
qed

lemma toy_crypto_ok: "crypto_ok toy_crypto"
  using toy_aead_ok by (auto simp: crypto_ok_def toy_crypto_def)

text \<open>Its cipher table and one cipher of it.\<close>

definition toy_specs :: "aeadSpec list" where
  "toy_specs =
    [\<lparr>name = ''chacha20-ietf-poly1305'', newInstance = chacha20poly1305_New toy_crypto,
      keySize = 32, saltSize = 32, tagSize = 16\<rparr>,
     \<lparr>name = ''aes-256-gcm'', newInstance = newAesGCM toy_crypto, keySize = 32, saltSize = 32, tagSize = 16\<rparr>,
     \<lparr>name = ''aes-192-gcm'', newInstance = newAesGCM toy_crypto, keySize = 24, saltSize = 24, tagSize = 16\<rparr>,
     \<lparr>name = ''aes-128-gcm'', newInstance = newAesGCM toy_crypto, keySize = 16, saltSize = 16, tagSize = 16\<rparr>]"

lemma toy_specs: "supportedAEADs toy_crypto = Ok toy_specs"
  unfolding toy_specs_def by (rule supportedAEADs_eq [OF toy_crypto_ok])

definition toy_cipher :: Cipher where
  "toy_cipher = \<lparr>cipher_aead = toy_specs ! 3,
     cipher_secret = simpleEVPBytesToKey toy_crypto (bytes_of_string ''pw'') 16\<rparr>"

lemma toy_NewCipher: "NewCipher toy_crypto toy_specs ''AES-128-gcm'' ''pw'' = Ok toy_cipher"
proof -
  have "ToLower ''AES-128-gcm'' = ''aes-128-gcm''" by code_simp
  then show ?thesis by (simp add: NewCipher_def getAEADSpec_def toy_specs_def toy_cipher_def)
qed

lemma toy_cipher_ok: "cipher_ok toy_crypto toy_cipher"
  by (rule NewCipher_cipher_ok [OF toy_crypto_ok toy_specs toy_NewCipher])

lemma SaltSize_toy [simp]: "SaltSize toy_cipher = 16"
  by (simp add: SaltSize_def toy_cipher_def toy_specs_def)

section \<open>Properties\<close>

text \<open>\<open>NewCipher\<close> accepts exactly the four supported names, in any letter case, and gives a usable cipher:
  its salt has 16, 24 or 32 bytes, its tag 16, its secret the key size, and every salt yields an AEAD. Any
  other name is the error that names it in lower case.\<close>

lemma NewCipher_names:
  assumes "crypto_ok cr" and "supportedAEADs cr = Ok specs"
  shows "if ToLower nm \<in> {''chacha20-ietf-poly1305'', ''aes-256-gcm'', ''aes-192-gcm'', ''aes-128-gcm''}
     then \<exists>c. NewCipher cr specs nm secret = Ok c \<and> SaltSize c \<in> {16, 24, 32} \<and> TagSize c = 16 \<and>
            length (cipher_secret c) = keySize (cipher_aead c) \<and>
            (\<forall>salt. \<exists>A. NewAEAD cr c salt = Ok A \<and> NonceSize A = 12 \<and> Overhead A = 16)
     else NewCipher cr specs nm secret = Fail (ErrorNew (''Unknown cipher '' @ ToLower nm))"
proof (cases "ToLower nm \<in> name ` set specs")
  case True
  then obtain spec where "find_spec specs (ToLower nm) = Ok spec"
    using find_spec_known by blast
  then obtain c where c: "NewCipher cr specs nm secret = Ok c"
    "cipher_secret c = simpleEVPBytesToKey cr (bytes_of_string secret) (keySize (cipher_aead c))"
    by (simp add: NewCipher_def getAEADSpec_def)
  moreover have "cipher_ok cr c" using assms c(1) by (rule NewCipher_cipher_ok)
  ultimately show ?thesis
    using True assms length_simpleEVPBytesToKey by (auto simp: supportedAEADs_eq cipher_ok_def)
next
  case False
  with assms find_spec_unknown [OF False] show ?thesis
    by (auto simp: supportedAEADs_eq NewCipher_def getAEADSpec_def)
qed

lemma NewCipher_names_witness:
  "NewCipher toy_crypto toy_specs ''RC4'' ''pw'' = Fail (ErrorNew ''Unknown cipher rc4'')"
proof -
  have "ToLower ''RC4'' = ''rc4''" by code_simp
  with NewCipher_names [OF toy_crypto_ok toy_specs, of "''RC4''" "''pw''"] show ?thesis by simp
qed

text \<open>C35: \<open>simpleEVPBytesToKey\<close> computes \<^verbatim>\<open>EVP_BytesToKey\<close>: the first \<open>keyLen\<close> bytes of the concatenated
  digests \<open>evp_D\<close>, for any number \<open>k\<close> of digests that covers the key.\<close>

theorem simpleEVPBytesToKey_EVP:
  assumes "keyLen \<le> 16 * k"
  shows "simpleEVPBytesToKey cr data keyLen = take keyLen (concat (map (evp_D (md5_Sum cr) data) [0..<k]))"
  using assms by (rule simpleEVPBytesToKey_blocks)

theorem simpleEVPBytesToKey_EVP_witness:
  "simpleEVPBytesToKey toy_crypto [1, 2] 20 =
     take 20 (evp_D (md5_Sum toy_crypto) [1, 2] 0 @ evp_D (md5_Sum toy_crypto) [1, 2] 1)"
  using simpleEVPBytesToKey_EVP [of 20 2 toy_crypto "[1, 2]"] by (simp add: numeral_2_eq_2)

text \<open>\<open>maxTagSize\<close> is the largest tag of the table: no cipher's tag exceeds it and one reaches it, so that
  the pooled buffers of the stream reader fit every chunk of every cipher.\<close>

lemma maxTagSize_max:
  assumes "specs \<noteq> []"
  shows "(\<forall>s. s \<in> set specs \<longrightarrow> tagSize s \<le> maxTagSize specs) \<and> maxTagSize specs \<in> tagSize ` set specs \<union> {0}"
  unfolding maxTagSize_def using max_tag_loop_bounds [of _ specs 0] by auto

lemma maxTagSize_max_witness: "tagSize (toy_specs ! 3) \<le> maxTagSize toy_specs"
  using maxTagSize_max [of toy_specs] by (auto simp: toy_specs_def)

end
