(* ===== verification/SS_Salt.thy ===== *)
theory SS_Salt
  imports SS_Cipher
begin

text \<open>
  Model of the salt generators: \<^verbatim>\<open>shadowsocks/salt.go\<close> (random salts),
  \<^verbatim>\<open>service/server_salt.go\<close> (salts marked by the server) and
  \<^verbatim>\<open>shadowsocks/client/salt.go\<close> (salts with a chosen prefix).

  The Go interface \<^verbatim>\<open>SaltGenerator\<close> is a datatype of its implementations, and \<open>GetSalt\<close>
  dispatches on it. \<open>GetSalt\<close> takes the buffer to fill and returns its new contents; the random
  bytes of the call are the argument \<open>ent\<close>.
\<close>

section \<open>Generators\<close>

datatype SaltGenerator =
    RandomSaltGenerator
  | RandomServerSaltGenerator
  | ServerSaltGenerator bytes
  | PrefixSaltGenerator bytes

definition randomSaltGenerator_GetSalt :: "entropy \<Rightarrow> bytes \<Rightarrow> bytes result" where
  "randomSaltGenerator_GetSalt ent salt = rand_Read ent (length salt)"

definition randomServerSaltGenerator_GetSalt :: "entropy \<Rightarrow> bytes \<Rightarrow> bytes result" where
  "randomServerSaltGenerator_GetSalt ent salt = rand_Read ent (length salt)"

definition randomServerSaltGenerator_IsServerSalt :: "bytes \<Rightarrow> bool" where
  "randomServerSaltGenerator_IsServerSalt salt = False"

definition serverSaltMarkLen :: nat where
  "serverSaltMarkLen = 4"

definition serverSaltLabel :: bytes where
  "serverSaltLabel = bytes_of_string ''outline-server-salt''"

text \<open>The error of \<^verbatim>\<open>io.ReadFull\<close> is ignored: the key then keeps its zero bytes.\<close>

definition NewServerSaltGenerator :: "crypto \<Rightarrow> string \<Rightarrow> SaltGenerator" where
  "NewServerSaltGenerator cr secret =
     ServerSaltGenerator
       (case hkdf_SHA1 cr (bytes_of_string secret) [] serverSaltLabel 20 of
          Ok key \<Rightarrow> key
        | _ \<Rightarrow> make_bytes 20)"

definition splitSalt :: "bytes \<Rightarrow> (bytes \<times> bytes) result" where
  "splitSalt salt =
     (let prefixLen = int (length salt) - int serverSaltMarkLen
      in if prefixLen < 0 then Fail (ErrorNew ''Salt is too short'')
         else Ok (take (nat prefixLen) salt, drop (nat prefixLen) salt))"

definition getTag :: "crypto \<Rightarrow> bytes \<Rightarrow> bytes \<Rightarrow> bytes" where
  "getTag cr key prefix = digest_bytes 20 (hmac_SHA1 cr key prefix)"

definition serverSaltGenerator_GetSalt :: "crypto \<Rightarrow> bytes \<Rightarrow> entropy \<Rightarrow> bytes \<Rightarrow> bytes result" where
  "serverSaltGenerator_GetSalt cr key ent salt =
     bind_result (splitSalt salt) (\<lambda>(prefix, mark).
     bind_result (rand_Read ent (length prefix)) (\<lambda>prefix'.
       let tag = getTag cr key prefix'
       in Ok (prefix' @ take (length mark) tag @ drop (length tag) mark)))"

definition serverSaltGenerator_IsServerSalt :: "crypto \<Rightarrow> bytes \<Rightarrow> bytes \<Rightarrow> bool" where
  "serverSaltGenerator_IsServerSalt cr key salt =
     (case splitSalt salt of
        Ok (prefix, mark) \<Rightarrow> take serverSaltMarkLen (getTag cr key prefix) = mark
      | _ \<Rightarrow> False)"

definition prefixSaltGenerator_GetSalt :: "bytes \<Rightarrow> entropy \<Rightarrow> bytes \<Rightarrow> bytes result" where
  "prefixSaltGenerator_GetSalt prefix ent salt =
     (let n = min (length salt) (length prefix)
      in if n \<noteq> length prefix then Fail (ErrorNew ''prefix is too long'')
         else bind_result (rand_Read ent (length salt - n)) (\<lambda>rest. Ok (prefix @ rest)))"

definition NewPrefixSaltGenerator :: "bytes \<Rightarrow> SaltGenerator" where
  "NewPrefixSaltGenerator prefix = PrefixSaltGenerator prefix"

fun GetSalt :: "crypto \<Rightarrow> SaltGenerator \<Rightarrow> entropy \<Rightarrow> bytes \<Rightarrow> bytes result" where
  "GetSalt cr RandomSaltGenerator ent salt = randomSaltGenerator_GetSalt ent salt"
| "GetSalt cr RandomServerSaltGenerator ent salt = randomServerSaltGenerator_GetSalt ent salt"
| "GetSalt cr (ServerSaltGenerator key) ent salt = serverSaltGenerator_GetSalt cr key ent salt"
| "GetSalt cr (PrefixSaltGenerator prefix) ent salt = prefixSaltGenerator_GetSalt prefix ent salt"

text \<open>\<open>IsServerSalt\<close> exists on the two implementations of \<^verbatim>\<open>ServerSaltGenerator\<close> only; the others are
  never stored where it is called.\<close>

fun IsServerSalt :: "crypto \<Rightarrow> SaltGenerator \<Rightarrow> bytes \<Rightarrow> bool" where
  "IsServerSalt cr RandomServerSaltGenerator salt = randomServerSaltGenerator_IsServerSalt salt"
| "IsServerSalt cr (ServerSaltGenerator key) salt = serverSaltGenerator_IsServerSalt cr key salt"
| "IsServerSalt cr _ salt = False"

section \<open>The contract of a salt generator\<close>

text \<open>What the writers rely on: a salt has the size of the buffer, and generating one never
  panics.\<close>

locale salt_generator =
  fixes get_salt :: "entropy \<Rightarrow> bytes \<Rightarrow> bytes result"
  assumes salt_length: "get_salt ent buf = Ok salt \<Longrightarrow> length salt = length buf"
    and salt_no_panic: "get_salt ent buf \<noteq> Panic m"
begin

lemma get_salt_cases:
  obtains (ok) salt where "get_salt ent buf = Ok salt" "length salt = length buf"
    | (failed) e where "get_salt ent buf = Fail e"
  using salt_length salt_no_panic by (metis result.exhaust)

end

text \<open>A generator of server salts recognises, by \<open>is_server_salt\<close>, every salt it made (of a length
  that leaves room for the mark).\<close>

locale marking_salt_generator = salt_generator +
  fixes is_server_salt :: "bytes \<Rightarrow> bool"
    and min_length :: nat
  assumes marked: "get_salt ent buf = Ok salt \<Longrightarrow> is_server_salt salt"
    and succeeds: "min_length \<le> length buf \<Longrightarrow> \<exists>salt. get_salt (Inr f) buf = Ok salt"
begin

lemma own_salt_recognised:
  assumes "min_length \<le> length buf"
  shows "\<exists>salt. get_salt (Inr f) buf = Ok salt \<and> length salt = length buf \<and> is_server_salt salt"
  using succeeds [OF assms, of f] salt_length marked by blast

end

section \<open>Lemmas\<close>

lemma rand_Read_simps [simp]:
  "rand_Read ent n = Ok b \<Longrightarrow> length b = n"
  "rand_Read ent n \<noteq> Panic m"
  by (cases ent; auto)+

lemma splitSalt_Ok_iff:
  "splitSalt salt = Ok (p, m) \<longleftrightarrow> 4 \<le> length salt \<and> salt = p @ m \<and> length m = 4"
  by (auto simp: splitSalt_def serverSaltMarkLen_def Let_def nat_diff_distrib')

lemma splitSalt_append [simp]: "length m = 4 \<Longrightarrow> splitSalt (p @ m) = Ok (p, m)"
  by (simp add: splitSalt_Ok_iff)

lemma splitSalt_no_panic [simp]: "splitSalt salt \<noteq> Panic m"
  by (simp add: splitSalt_def Let_def)

lemma length_getTag [simp]: "length (getTag cr key p) = 20"
  by (simp add: getTag_def)

lemma serverSalt_shape:
  assumes "serverSaltGenerator_GetSalt cr key ent buf = Ok salt"
  obtains p where "length p + 4 = length buf" "salt = p @ take 4 (getTag cr key p)"
  using assms by (auto simp: serverSaltGenerator_GetSalt_def bind_result_Ok_iff splitSalt_Ok_iff Let_def)

interpretation random_salts: salt_generator randomSaltGenerator_GetSalt
  by unfold_locales (simp_all add: randomSaltGenerator_GetSalt_def)

interpretation random_server_salts: salt_generator randomServerSaltGenerator_GetSalt
  by unfold_locales (simp_all add: randomServerSaltGenerator_GetSalt_def)

interpretation prefix_salts: salt_generator "prefixSaltGenerator_GetSalt prefix" for prefix
proof
  fix ent buf salt
  assume "prefixSaltGenerator_GetSalt prefix ent buf = Ok salt"
  then show "length salt = length buf"
    by (auto simp: prefixSaltGenerator_GetSalt_def bind_result_Ok_iff Let_def min_def split: if_splits)
qed (auto simp: prefixSaltGenerator_GetSalt_def Let_def bind_result_iffs)

interpretation server_salts: marking_salt_generator
  "serverSaltGenerator_GetSalt cr key" "serverSaltGenerator_IsServerSalt cr key" 4 for cr key
proof
  fix ent buf salt
  assume "serverSaltGenerator_GetSalt cr key ent buf = Ok salt"
  then obtain p where "length p + 4 = length buf" "salt = p @ take 4 (getTag cr key p)"
    by (rule serverSalt_shape)
  then show "length salt = length buf" and "serverSaltGenerator_IsServerSalt cr key salt"
    by (simp_all add: serverSaltGenerator_IsServerSalt_def serverSaltMarkLen_def)
next
  fix buf :: bytes and f
  assume "4 \<le> length buf"
  then have "splitSalt buf = Ok (take (length buf - 4) buf, drop (length buf - 4) buf)"
    by (simp add: splitSalt_Ok_iff)
  then show "\<exists>salt. serverSaltGenerator_GetSalt cr key (Inr f) buf = Ok salt"
    by (simp add: serverSaltGenerator_GetSalt_def Let_def)
next
  fix ent buf m
  show "serverSaltGenerator_GetSalt cr key ent buf \<noteq> Panic m"
    by (auto simp: serverSaltGenerator_GetSalt_def Let_def bind_result_iffs)
qed

text \<open>Hence every implementation of the interface, through the dispatching \<open>GetSalt\<close>.\<close>

interpretation any_salts: salt_generator "GetSalt cr g" for cr g
proof (cases g)
  case RandomSaltGenerator
  have "GetSalt cr RandomSaltGenerator = randomSaltGenerator_GetSalt" by (simp add: fun_eq_iff)
  with RandomSaltGenerator show "salt_generator (GetSalt cr g)"
    using random_salts.salt_generator_axioms by simp
next
  case RandomServerSaltGenerator
  have "GetSalt cr RandomServerSaltGenerator = randomServerSaltGenerator_GetSalt"
    by (simp add: fun_eq_iff)
  with RandomServerSaltGenerator show "salt_generator (GetSalt cr g)"
    using random_server_salts.salt_generator_axioms by simp
next
  case (ServerSaltGenerator key)
  have "GetSalt cr (ServerSaltGenerator key) = serverSaltGenerator_GetSalt cr key"
    by (simp add: fun_eq_iff)
  with ServerSaltGenerator show "salt_generator (GetSalt cr g)"
    using server_salts.salt_generator_axioms by simp
next
  case (PrefixSaltGenerator prefix)
  have "GetSalt cr (PrefixSaltGenerator prefix) = prefixSaltGenerator_GetSalt prefix"
    by (simp add: fun_eq_iff)
  with PrefixSaltGenerator show "salt_generator (GetSalt cr g)"
    using prefix_salts.salt_generator_axioms by simp
qed

section \<open>Properties\<close>

text \<open>C32: Server salts are recognised. A generator made from any secret fills a buffer of at least four bytes with
  a salt of the same length that its \<open>IsServerSalt\<close> accepts; a shorter buffer is an error, and no salt shorter
  than four bytes is accepted.\<close>

theorem server_salt_recognised:
  "if 4 \<le> length buf
   then \<exists>salt. GetSalt cr (NewServerSaltGenerator cr secret) (Inr f) buf = Ok salt \<and>
          length salt = length buf \<and> IsServerSalt cr (NewServerSaltGenerator cr secret) salt
   else GetSalt cr (NewServerSaltGenerator cr secret) (Inr f) buf = Fail (ErrorNew ''Salt is too short'') \<and>
        \<not> IsServerSalt cr (NewServerSaltGenerator cr secret) buf"
proof (cases "4 \<le> length buf")
  case True
  then show ?thesis
    using server_salts.own_salt_recognised [OF True] by (simp add: NewServerSaltGenerator_def)
next
  case False
  then have "splitSalt buf = Fail (ErrorNew ''Salt is too short'')"
    by (simp add: splitSalt_def serverSaltMarkLen_def)
  with False show ?thesis
    by (simp add: NewServerSaltGenerator_def serverSaltGenerator_GetSalt_def
        serverSaltGenerator_IsServerSalt_def)
qed

text \<open>A prefix salt generator puts its prefix at the start of every salt it makes and fills the rest with
  random bytes; it fails, without drawing any, exactly when the prefix does not fit.\<close>

lemma prefix_salt_shape:
  "GetSalt cr (NewPrefixSaltGenerator prefix) (Inr f) buf =
     (if length buf < length prefix then Fail (ErrorNew ''prefix is too long'')
      else Ok (prefix @ map f [0..<length buf - length prefix]))"
  by (auto simp: NewPrefixSaltGenerator_def prefixSaltGenerator_GetSalt_def Let_def min_def)

end
