(* ===== verification/SS_Packet.thy ===== *)
theory SS_Packet
  imports SS_Salt
begin

text \<open>
  Model of \<^verbatim>\<open>shadowsocks/packet.go\<close>: encrypting and decrypting a Shadowsocks UDP packet, which
  is the salt followed by one sealed message under the zero nonce.
\<close>

section \<open>Definitions\<close>

text \<open>\<open>Pack\<close> writes the packet into \<open>dst\<close> and returns the slice it used. The plaintext may lie inside
  \<open>dst\<close>, right after the salt; writing the salt does not touch it there.\<close>

definition Pack :: "crypto \<Rightarrow> entropy \<Rightarrow> bytes \<Rightarrow> bytes \<Rightarrow> Cipher \<Rightarrow> bytes result" where
  "Pack cr ent dst plaintext c =
     (let saltSize = SaltSize c in
      if length dst < saltSize then Fail ErrShortBuffer
      else bind_result (GetSalt cr RandomSaltGenerator ent (take saltSize dst)) (\<lambda>salt.
           bind_result (NewAEAD cr c salt) (\<lambda>A.
             if length dst < saltSize + length plaintext + Overhead A then Fail ErrShortBuffer
             else if length zeroNonce < NonceSize A then Panic ''slice bounds out of range''
             else Ok (salt @ Seal A (take (NonceSize A) zeroNonce) plaintext))))"

text \<open>The argument \<open>dst\<close> of \<open>Unpack\<close> is \<open>None\<close> for a nil slice (decryption in place) and otherwise
  the capacity of the slice.\<close>

definition Unpack :: "crypto \<Rightarrow> nat option \<Rightarrow> bytes \<Rightarrow> Cipher \<Rightarrow> bytes result" where
  "Unpack cr dst pkt c =
     (let saltSize = SaltSize c in
      if length pkt < saltSize then Fail ErrShortPacket
      else let salt = take saltSize pkt; msg = drop saltSize pkt;
               cap = (case dst of None \<Rightarrow> length msg | Some n \<Rightarrow> n)
           in DecryptOnce cr c salt [] cap msg)"

section \<open>Lemmas\<close>

lemma length_zeroNonce [simp]: "length zeroNonce = 12"
  by (simp add: zeroNonce_def)

text \<open>The packet of a plaintext under a salt.\<close>

definition packet_of :: "crypto \<Rightarrow> Cipher \<Rightarrow> bytes \<Rightarrow> bytes \<Rightarrow> bytes" where
  "packet_of cr c salt p =
     (case NewAEAD cr c salt of Ok A \<Rightarrow> salt @ Seal A (take (NonceSize A) zeroNonce) p | _ \<Rightarrow> [])"

lemma length_packet_of:
  "cipher_ok cr c \<Longrightarrow> length (packet_of cr c salt p) = length salt + length p + 16"
  by (erule cipher_okE [where salt = salt]) (simp add: packet_of_def length_Seal)

lemma Pack_cases:
  assumes ok: "cipher_ok cr c"
  shows "Pack cr ent dst p c =
    (if length dst < SaltSize c then Fail ErrShortBuffer
     else case rand_Read ent (SaltSize c) of
       Ok salt \<Rightarrow>
         if length dst < SaltSize c + length p + 16 then Fail ErrShortBuffer
         else Ok (packet_of cr c salt p)
     | Fail e \<Rightarrow> Fail e | Panic m \<Rightarrow> Panic m)"
proof (cases "rand_Read ent (SaltSize c)")
  case (Ok salt)
  obtain A where A: "NewAEAD cr c salt = Ok A" "NonceSize A = 12" "Overhead A = 16"
    using cipher_okE [OF ok, where salt = salt] by metis
  show ?thesis
    using Ok A by (auto simp: Pack_def Let_def randomSaltGenerator_GetSalt_def packet_of_def min_def)
qed (auto simp: Pack_def Let_def randomSaltGenerator_GetSalt_def min_def)

lemma DecryptOnce_cases:
  assumes "NewAEAD cr c salt = Ok A" and "NonceSize A = 12"
  shows "DecryptOnce cr c salt pt cap ct =
    (if length ct < Overhead A then Fail ErrUnexpectedEOF
     else if cap - length pt < length ct - Overhead A then Fail ErrShortBuffer
     else case Open A zeroNonce ct of
            None \<Rightarrow> Fail (ErrorNew ''cipher: message authentication failed'')
          | Some p \<Rightarrow> Ok (pt @ p))"
  using assms by (simp add: DecryptOnce_def)

lemma Unpack_packet_of:
  assumes ok: "cipher_ok cr c" and salt: "length salt = SaltSize c"
    and cap: "case dst of None \<Rightarrow> True | Some n \<Rightarrow> length p \<le> n"
  shows "Unpack cr dst (packet_of cr c salt p) c = Ok p"
proof -
  obtain A where A: "NewAEAD cr c salt = Ok A" "aead_ok A" "NonceSize A = 12" "Overhead A = 16"
    using cipher_okE [OF ok, where salt = salt] by metis
  then show ?thesis
    using salt cap
    by (auto simp: Unpack_def Let_def packet_of_def DecryptOnce_cases length_Seal Open_Seal
        split: option.splits)
qed

lemma Unpack_no_panic:
  assumes "cipher_ok cr c"
  shows "Unpack cr dst pkt c \<noteq> Panic m"
proof -
  obtain A where "NewAEAD cr c (take (SaltSize c) pkt) = Ok A" "NonceSize A = 12"
    using cipher_okE [OF assms, where salt = "take (SaltSize c) pkt"] by metis
  then show ?thesis
    by (auto simp: Unpack_def Let_def DecryptOnce_cases split: option.splits)
qed

lemma Unpack_length:
  assumes ok: "cipher_ok cr c" and up: "Unpack cr dst pkt c = Ok p"
  shows "length pkt = SaltSize c + length p + 16"
proof -
  obtain A where A: "NewAEAD cr c (take (SaltSize c) pkt) = Ok A" "aead_ok A" "NonceSize A = 12" "Overhead A = 16"
    using ok by (rule cipher_okE)
  with up show ?thesis
    by (auto simp: Unpack_def Let_def DecryptOnce_cases dest: aead_ok_open split: if_splits option.splits)
qed

section \<open>Properties\<close>

text \<open>C23: Round trip of a UDP packet. With a buffer of at least salt size, plaintext length and 16 bytes, \<open>Pack\<close>
  gives a packet of exactly that length, which \<open>Unpack\<close> with the same cipher turns back into the plaintext, in
  place or into any buffer that fits it; with a smaller buffer \<open>Pack\<close> returns \<open>ErrShortBuffer\<close>.\<close>

theorem packet_roundtrip:
  assumes "crypto_ok cr" and "supportedAEADs cr = Ok specs" and "NewCipher cr specs nm secret = Ok c"
  shows "if length dst < SaltSize c + length p + 16
     then Pack cr (Inr f) dst p c = Fail ErrShortBuffer
     else \<exists>pkt. Pack cr (Inr f) dst p c = Ok pkt \<and> length pkt = SaltSize c + length p + 16 \<and>
            Unpack cr None pkt c = Ok p \<and> Unpack cr (Some (length p + n)) pkt c = Ok p"
proof -
  have ok: "cipher_ok cr c" using assms by (rule NewCipher_cipher_ok)
  show ?thesis
    using length_packet_of [OF ok] Unpack_packet_of [OF ok, where dst = None]
      Unpack_packet_of [OF ok, where dst = "Some (length p + n)"]
    by (auto simp: Pack_cases [OF ok])
qed

theorem packet_roundtrip_witness:
  "\<exists>pkt. Pack toy_crypto (Inr (\<lambda>i. 3)) (make_bytes 64) [10, 20] toy_cipher = Ok pkt \<and> length pkt = 34 \<and>
     Unpack toy_crypto None pkt toy_cipher = Ok [10, 20]"
  using packet_roundtrip [OF toy_crypto_ok toy_specs toy_NewCipher, of "make_bytes 64" "[10, 20]" "\<lambda>i. 3" 0]
  by auto

text \<open>\<open>Unpack\<close> never panics, whatever the packet: a packet shorter than the salt is \<open>ErrShortPacket\<close>, one too
  short for a tag \<open>ErrUnexpectedEOF\<close>, a buffer that is too small for the plaintext \<open>ErrShortBuffer\<close>, and a
  packet that does not authenticate under the key its salt gives is an error; otherwise the result is the
  authenticated plaintext.\<close>

lemma Unpack_errors:
  assumes "crypto_ok cr" and "supportedAEADs cr = Ok specs" and "NewCipher cr specs nm secret = Ok c"
    and "NewAEAD cr c (take (SaltSize c) pkt) = Ok A"
  shows "Unpack cr dst pkt c =
     (if length pkt < SaltSize c then Fail ErrShortPacket
      else if length pkt < SaltSize c + 16 then Fail ErrUnexpectedEOF
      else if (case dst of Some n \<Rightarrow> n < length pkt - SaltSize c - 16 | None \<Rightarrow> False) then Fail ErrShortBuffer
      else case Open A (make_bytes 12) (drop (SaltSize c) pkt) of
             None \<Rightarrow> Fail (ErrorNew ''cipher: message authentication failed'')
           | Some p \<Rightarrow> Ok p)"
proof -
  have ok: "cipher_ok cr c" using assms(1-3) by (rule NewCipher_cipher_ok)
  obtain A' where "NewAEAD cr c (take (SaltSize c) pkt) = Ok A'" "NonceSize A' = 12" "Overhead A' = 16"
    using ok by (rule cipher_okE)
  with assms(4) have "NonceSize A = 12" "Overhead A = 16" by simp_all
  with assms(4) show ?thesis
    by (auto simp: Unpack_def Let_def DecryptOnce_cases zeroNonce_def split: option.splits)
qed

lemma Unpack_errors_witness: "Unpack toy_crypto None [1, 2, 3] toy_cipher = Fail ErrShortPacket"
proof -
  obtain A where "NewAEAD toy_crypto toy_cipher (take (SaltSize toy_cipher) [1, 2, 3]) = Ok A"
    using toy_cipher_ok by (rule cipher_okE)
  from Unpack_errors [OF toy_crypto_ok toy_specs toy_NewCipher this] show ?thesis by simp
qed

end
