(* ===== verification/Go_IO.thy ===== *)
theory Go_IO
  imports SS_Prelude
begin

text \<open>
  What the code uses of Go's \<^verbatim>\<open>io\<close>, \<^verbatim>\<open>bytes\<close> and \<^verbatim>\<open>net\<close> packages.

  A \<open>reader\<close> is what a \<^verbatim>\<open>Read\<close> method is called on: the bytes left in a \<^verbatim>\<open>bytes.Reader\<close>;
  the rest of what a connection will receive, cut into the segments in which it arrives and
  followed by the error every later read returns (\<open>EOF\<close> after a FIN, a timeout after a deadline,
  a reset); or an \<^verbatim>\<open>io.MultiReader\<close> of two readers. An empty segment is a read that returns
  \<^verbatim>\<open>(0, nil)\<close>, as the interface allows.

  A \<open>writer\<close> records the bytes each \<^verbatim>\<open>Write\<close> call accepted. Its plan says how the next calls go: an
  entry \<open>Some (k, e)\<close> is a short write of \<open>k\<close> bytes with error \<open>e\<close>, every other call accepts
  the whole buffer.
\<close>

section \<open>Readers and writers\<close>

datatype reader =
    BytesReader bytes
  | ConnReader "bytes list" goerror
  | MultiReader reader reader

text \<open>\<open>Read r n\<close> is a call with a buffer of length \<open>n\<close>: the bytes read, the error and the reader
  afterwards.\<close>

fun Read :: "reader \<Rightarrow> nat \<Rightarrow> bytes \<times> goerror option \<times> reader" where
  "Read (BytesReader b) n =
     (if b = [] then ([], Some EOF, BytesReader b)
      else (take n b, None, BytesReader (drop n b)))"
| "Read (ConnReader segs e) n =
     (if n = 0 then ([], None, ConnReader segs e)
      else case segs of
        [] \<Rightarrow> ([], Some e, ConnReader [] e)
      | s # ss \<Rightarrow>
          (take n s, None, ConnReader (if length s \<le> n then ss else drop n s # ss) e))"
| "Read (MultiReader r1 r2) n =
     (case Read r1 n of
        (d, err, r1') \<Rightarrow>
          if err = Some EOF then
            (if d \<noteq> [] then (d, None, r2) else Read r2 n)
          else (d, err, MultiReader r1' r2))"

record writer =
  wout :: "bytes list"
  wplan :: "(nat \<times> goerror) option list"

definition Write :: "writer \<Rightarrow> bytes \<Rightarrow> nat \<times> goerror option \<times> writer" where
  "Write w p =
     (case wplan w of
        Some (k, e) # pl \<Rightarrow>
          (min k (length p), Some e, w\<lparr>wout := wout w @ [take k p], wplan := pl\<rparr>)
      | None # pl \<Rightarrow> (length p, None, w\<lparr>wout := wout w @ [p], wplan := pl\<rparr>)
      | [] \<Rightarrow> (length p, None, w\<lparr>wout := wout w @ [p]\<rparr>))"

text \<open>What a reader still holds, the error it ends with, and a bound on the reads it answers
  without error.\<close>

fun contents :: "reader \<Rightarrow> bytes" where
  "contents (BytesReader b) = b"
| "contents (ConnReader segs e) = concat segs"
| "contents (MultiReader r1 r2) = contents r1 @ contents r2"

fun final_error :: "reader \<Rightarrow> goerror" where
  "final_error (BytesReader b) = EOF"
| "final_error (ConnReader segs e) = e"
| "final_error (MultiReader r1 r2) = (if final_error r1 = EOF then final_error r2 else final_error r1)"

text \<open>A reader in which every inner reader of a \<open>MultiReader\<close> but the last ends with \<open>EOF\<close>.\<close>

fun eof_chained :: "reader \<Rightarrow> bool" where
  "eof_chained (MultiReader r1 r2) = (eof_chained r1 \<and> eof_chained r2 \<and> final_error r1 = EOF)"
| "eof_chained _ = True"

fun reads_left :: "reader \<Rightarrow> nat" where
  "reads_left (BytesReader b) = length b"
| "reads_left (ConnReader segs e) = length segs + length (concat segs)"
| "reads_left (MultiReader r1 r2) = Suc (reads_left r1 + reads_left r2)"

lemma Read_progress:
  "Read r n = (d, None, r') \<Longrightarrow> 0 < n \<Longrightarrow> reads_left r' < reads_left r"
proof (induction r n arbitrary: d r' rule: Read.induct)
  case (3 r1 r2 n)
  obtain d1 e1 s1 where r1: "Read r1 n = (d1, e1, s1)"
    by (cases "Read r1 n")
  consider "e1 = Some EOF" "d1 \<noteq> []" | "e1 = Some EOF" "d1 = []" | "e1 \<noteq> Some EOF"
    by blast
  then show ?case
  proof cases
    case 1
    with 3 r1 show ?thesis by auto
  next
    case 2
    with 3 r1 have "reads_left r' < reads_left r2" by auto
    then show ?thesis by simp
  next
    case 3
    with "3.prems" r1 have "Read r1 n = (d1, None, s1)" "r' = MultiReader s1 r2" by auto
    with "3.IH"(1) "3.prems"(2) show ?thesis by auto
  qed
qed (auto split: list.splits if_splits)

section \<open>io.ReadFull\<close>

text \<open>\<^verbatim>\<open>io.ReadFull(r, buf)\<close> with \<open>n\<close> bytes of \<open>buf\<close> still to fill and \<open>acc\<close> read so far. The
  loop reads until the buffer is full or a read fails; an \<open>EOF\<close> after some bytes becomes
  \<open>ErrUnexpectedEOF\<close>.\<close>

function read_full :: "reader \<Rightarrow> nat \<Rightarrow> bytes \<Rightarrow> bytes \<times> goerror option \<times> reader" where
  "read_full r n acc =
     (if n = 0 then (acc, None, r)
      else case Read r n of
        (d, None, r') \<Rightarrow> read_full r' (n - length d) (acc @ d)
      | (d, Some e, r') \<Rightarrow>
          (acc @ d,
           (if n \<le> length d then None
            else if acc @ d \<noteq> [] \<and> e = EOF then Some ErrUnexpectedEOF else Some e),
           r'))"
  by pat_completeness auto
termination
  by (relation "measure (\<lambda>(r, n, acc). reads_left r)") (auto dest: Read_progress [OF sym])

declare read_full.simps [simp del]

definition ReadFull :: "reader \<Rightarrow> nat \<Rightarrow> bytes \<times> goerror option \<times> reader" where
  "ReadFull r n = read_full r n []"

text \<open>\<^verbatim>\<open>io.Copy(io.Discard, r)\<close>: reads into an 8192-byte buffer until a read fails, counts the
  bytes, and turns \<open>EOF\<close> into no error.\<close>

function copy_discard :: "reader \<Rightarrow> nat \<Rightarrow> nat \<times> goerror option \<times> reader" where
  "copy_discard r m =
     (case Read r 8192 of
        (d, None, r') \<Rightarrow> copy_discard r' (m + length d)
      | (d, Some e, r') \<Rightarrow> (m + length d, (if e = EOF then None else Some e), r'))"
  by pat_completeness auto
termination
  by (relation "measure (\<lambda>(r, m). reads_left r)") (auto dest: Read_progress [OF sym])

declare copy_discard.simps [simp del]

section \<open>Lemmas\<close>

text \<open>The contract of \<open>Read\<close>: it hands over a prefix of what the reader holds, and it fails only
  when nothing is left, with the reader's final error.\<close>

lemma Read_spec:
  assumes "eof_chained r" and "Read r n = (d, e, r')"
  shows "contents r = d @ contents r'" and "length d \<le> n" and "final_error r' = final_error r"
    and "eof_chained r'" and "e = None \<or> e = Some (final_error r) \<and> d = [] \<and> contents r = []"
proof -
  have "contents r = d @ contents r' \<and> length d \<le> n \<and> final_error r' = final_error r \<and>
      eof_chained r' \<and> (e = None \<or> e = Some (final_error r) \<and> d = [] \<and> contents r = [])"
    using assms
  proof (induction r n arbitrary: d e r' rule: Read.induct)
    case (3 r1 r2 n)
    obtain d1 e1 s1 where r1: "Read r1 n = (d1, e1, s1)"
      by (cases "Read r1 n")
    from "3.prems"(1) have ch: "eof_chained r1" "eof_chained r2" "final_error r1 = EOF"
      by simp_all
    note IH1 = "3.IH"(1) [OF ch(1) r1]
    show ?case
    proof (cases "e1 = Some EOF")
      case True
      with IH1 have "d1 = []" "contents r1 = []" by auto
      with True "3.prems"(2) r1 have "Read r2 n = (d, e, r')" by simp
      with "3.IH"(2) [OF r1 [symmetric] refl] True \<open>d1 = []\<close> ch(2)
      have "contents r2 = d @ contents r' \<and> length d \<le> n \<and> final_error r' = final_error r2 \<and>
          eof_chained r' \<and> (e = None \<or> e = Some (final_error r2) \<and> d = [] \<and> contents r2 = [])"
        by blast
      with ch(3) \<open>contents r1 = []\<close> show ?thesis by auto
    next
      case False
      with "3.prems"(2) r1 IH1 ch show ?thesis by auto
    qed
  qed (auto split: list.splits if_splits)
  then show "contents r = d @ contents r'" and "length d \<le> n" and "final_error r' = final_error r"
    and "eof_chained r'" and "e = None \<or> e = Some (final_error r) \<and> d = [] \<and> contents r = []"
    by blast+
qed

text \<open>\<open>ReadFull\<close> is the obvious function of the reader's contents: how they are cut into segments does
  not matter.\<close>

lemma read_full_spec:
  assumes "eof_chained r"
  shows "\<exists>r'. read_full r n acc =
      (acc @ take n (contents r),
       (if n \<le> length (contents r) then None
        else if acc @ contents r \<noteq> [] \<and> final_error r = EOF then Some ErrUnexpectedEOF
        else Some (final_error r)), r') \<and>
      contents r' = drop n (contents r) \<and> final_error r' = final_error r \<and> eof_chained r'"
  using assms
proof (induction r n acc rule: read_full.induct)
  case (1 r n acc)
  show ?case
  proof (cases "n = 0")
    case True
    with 1 show ?thesis by (simp add: read_full.simps [of r 0 acc])
  next
    case False
    obtain d e r' where rd: "Read r n = (d, e, r')"
      by (cases "Read r n")
    note spec = Read_spec [OF "1.prems" rd]
    show ?thesis
    proof (cases e)
      case None
      from "1.IH" [OF False, of d "(None, r')" None r'] rd None spec obtain r'' where
        "read_full r' (n - length d) (acc @ d) =
          (acc @ d @ take (n - length d) (contents r'),
           (if n - length d \<le> length (contents r') then None
            else if acc @ d @ contents r' \<noteq> [] \<and> final_error r' = EOF then Some ErrUnexpectedEOF
            else Some (final_error r')), r'') \<and>
          contents r'' = drop (n - length d) (contents r') \<and> final_error r'' = final_error r' \<and>
          eof_chained r''"
        by auto
      with spec(1-3) False rd None show ?thesis
        by (auto simp: read_full.simps [of r n acc])
    next
      case (Some x)
      with spec False rd show ?thesis
        by (auto simp: read_full.simps [of r n acc])
    qed
  qed
qed

lemma ReadFull_enough:
  assumes "eof_chained r" and "contents r = p @ q" and "length p = n"
  obtains r' where "ReadFull r n = (p, None, r')" "contents r' = q"
    "final_error r' = final_error r" "eof_chained r'"
  using read_full_spec [OF assms(1), of n "[]"] assms(2,3) unfolding ReadFull_def by auto

lemma ReadFull_short:
  assumes "eof_chained r" and "length (contents r) < n"
  obtains r' where "ReadFull r n =
      (contents r,
       Some (if contents r \<noteq> [] \<and> final_error r = EOF then ErrUnexpectedEOF else final_error r), r')"
    "contents r' = []" "final_error r' = final_error r" "eof_chained r'"
  using read_full_spec [OF assms(1), of n "[]"] assms(2) unfolding ReadFull_def
  by (auto split: if_splits)

lemma copy_discard_spec:
  assumes "eof_chained r"
  shows "\<exists>r'. copy_discard r m =
      (m + length (contents r), (if final_error r = EOF then None else Some (final_error r)), r') \<and>
      contents r' = [] \<and> final_error r' = final_error r \<and> eof_chained r'"
  using assms
proof (induction r m rule: copy_discard.induct)
  case (1 r m)
  obtain d e r' where rd: "Read r 8192 = (d, e, r')"
    by (cases "Read r 8192")
  note spec = Read_spec [OF "1.prems" rd]
  show ?case
  proof (cases e)
    case None
    with "1.IH" [of d "(None, r')" None r'] rd spec show ?thesis
      by (auto simp: copy_discard.simps [of r m])
  next
    case (Some x)
    with spec rd show ?thesis
      by (auto simp: copy_discard.simps [of r m])
  qed
qed

text \<open>A writer that never fails: its plan holds no short write.\<close>

definition writes_all :: "writer \<Rightarrow> bool" where
  "writes_all w \<longleftrightarrow> (\<forall>x \<in> set (wplan w). x = None)"

lemma Write_all:
  assumes "writes_all w"
  obtains w' where "Write w p = (length p, None, w')" "wout w' = wout w @ [p]" "writes_all w'"
  using assms by (cases "wplan w") (auto simp: Write_def writes_all_def)

lemma Write_bound: "Write w p = (n, e, w') \<Longrightarrow> n \<le> length p \<and> wout w' = wout w @ [take n p]"
  by (auto simp: Write_def min_def split: list.splits option.splits if_splits)

end
