(* ===== verification/SS_Stream.thy ===== *)
theory SS_Stream
  imports SS_Salt Go_IO
begin

text \<open>
  The wire format of \<^verbatim>\<open>shadowsocks/stream.go\<close>, shared by its writer and its reader: the nonce
  counter with \<open>increment\<close> and \<open>isZero\<close>, and the abstract specification \<open>frames\<close> of the bytes a
  list of chunks is sent as: for each chunk its sealed 16-bit length and its sealed payload, under
  consecutive nonces.
\<close>

section \<open>The nonce counter\<close>

definition payloadSizeMask :: nat where
  "payloadSizeMask = 0x3FFF"

fun increment :: "bytes \<Rightarrow> bytes" where
  "increment [] = []"
| "increment (b # bs) = (let b' = b + 1 in if b' \<noteq> 0 then b' # bs else b' # increment bs)"

fun isZero :: "bytes \<Rightarrow> bool" where
  "isZero [] = True"
| "isZero (v # vs) = (if v \<noteq> 0 then False else isZero vs)"

text \<open>The counter as a number, least significant byte first, and the counter after \<open>k\<close> steps.\<close>

fun le_value :: "bytes \<Rightarrow> nat" where
  "le_value [] = 0"
| "le_value (b # bs) = unat b + 256 * le_value bs"

definition nonce :: "nat \<Rightarrow> nat \<Rightarrow> bytes" where
  "nonce n k = (increment ^^ k) (make_bytes n)"

section \<open>Specification of the encoding\<close>

fun frames :: "aead \<Rightarrow> nat \<Rightarrow> bytes list \<Rightarrow> bytes" where
  "frames A k [] = []"
| "frames A k (p # ps) =
     Seal A (nonce (NonceSize A) k) (PutUint16 (word_of_nat (length p))) @
     Seal A (nonce (NonceSize A) (Suc k)) p @ frames A (Suc (Suc k)) ps"

definition wire :: "aead \<Rightarrow> bytes \<Rightarrow> bytes list \<Rightarrow> bytes" where
  "wire A salt ps = (if ps = [] then [] else salt @ frames A 0 ps)"

text \<open>A chunk as the protocol allows it.\<close>

definition chunk_ok :: "bytes \<Rightarrow> bool" where
  "chunk_ok p \<longleftrightarrow> p \<noteq> [] \<and> length p \<le> payloadSizeMask"

section \<open>Lemmas\<close>

lemma length_increment [simp]: "length (increment b) = length b"
  by (induction b rule: increment.induct) (simp_all add: Let_def)

lemma length_nonce [simp]: "length (nonce n k) = n"
  by (induction k) (simp_all add: nonce_def)

lemma nonce_0 [simp]: "nonce n 0 = make_bytes n"
  by (simp add: nonce_def)

lemma increment_nonce [simp]: "increment (nonce n k) = nonce n (Suc k)"
  by (simp add: nonce_def)

lemma le_value_bound: "le_value b < 256 ^ length b"
proof (induction b)
  case (Cons x xs)
  then show ?case using unat_byte_less [of x] by simp
qed simp

lemma unat_byte_succ: "unat (x + 1 :: byte) = (unat x + 1) mod 256"
  by (simp add: unat_word_ariths)

lemma le_value_increment: "le_value (increment b) = (le_value b + 1) mod 256 ^ length b"
proof (induction b)
  case (Cons x xs)
  note x = unat_byte_less [of x]
  show ?case
  proof (cases "x + 1 = 0")
    case True
    then have "unat x = 255"
      using x unat_byte_succ [of x] by (simp add: mod_Suc split: if_splits)
    with True Cons show ?thesis
      by (simp add: Let_def) (metis Suc_eq_plus1 mult.commute mult_Suc_right mult_mod_right)
  next
    case False
    then have "unat (x + 1) \<noteq> 0" by (simp add: unat_eq_0)
    with x have "unat (x + 1) = unat x + 1" "unat x < 255"
      unfolding unat_byte_succ by (simp_all add: mod_Suc split: if_splits)
    moreover have "le_value xs + 1 \<le> 256 ^ length xs"
      using le_value_bound [of xs] by simp
    ultimately show ?thesis
      using False by (simp add: Let_def)
  qed
qed simp

lemma le_value_zeros [simp]: "le_value (make_bytes n) = 0"
  by (induction n) simp_all

lemma le_value_nonce: "le_value (nonce n k) = k mod 256 ^ n"
proof (induction k)
  case (Suc k)
  have "le_value (nonce n (Suc k)) = (le_value (nonce n k) + 1) mod 256 ^ n"
    using le_value_increment [of "nonce n k"] by simp
  with Suc show ?case by (simp add: mod_Suc_eq)
qed simp

lemma isZero_iff: "isZero b \<longleftrightarrow> le_value b = 0"
  by (induction b) (auto simp: unat_eq_0)

lemma isZero_nonce: "k < 256 ^ n \<Longrightarrow> isZero (nonce n k) \<longleftrightarrow> k = 0"
  by (simp add: isZero_iff le_value_nonce)

lemma nonce_inj: "j < 256 ^ n \<Longrightarrow> k < 256 ^ n \<Longrightarrow> nonce n j = nonce n k \<Longrightarrow> j = k"
  by (metis le_value_nonce mod_less)

lemma frames_snoc:
  "frames A k (ps @ [p]) =
     frames A k ps @ frames A (k + 2 * length ps) [p]"
  by (induction ps arbitrary: k) simp_all

lemma frames_append:
  "frames A k (ps @ qs) = frames A k ps @ frames A (k + 2 * length ps) qs"
  by (induction ps arbitrary: k) simp_all

lemma wire_snoc:
  "wire A salt (ps @ [p]) = wire A salt ps @ (if ps = [] then salt else []) @ frames A (2 * length ps) [p]"
  by (simp add: wire_def frames_snoc del: frames.simps) (auto simp: frames_snoc)

lemma length_frames:
  "aead_ok A \<Longrightarrow> length (frames A k ps) = (\<Sum>p\<leftarrow>ps. 2 + 2 * Overhead A + length p)"
  by (induction ps arbitrary: k) (simp_all add: length_Seal)

lemma chunk_ok_length_concat: "list_all chunk_ok ps \<Longrightarrow> length ps \<le> length (concat ps)"
proof (induction ps)
  case (Cons p ps)
  then have "p \<noteq> []" by (simp add: chunk_ok_def)
  then have "1 \<le> length p" by (cases p) simp_all
  with Cons show ?case by simp
qed simp

section \<open>Properties\<close>

text \<open>\<open>increment\<close> adds one to the counter read as a little-endian number, wrapping around at its width, and
  keeps its length; hence the counter after \<open>k\<close> increments of a new counter is \<open>k\<close> modulo \<open>256 ^ n\<close>.\<close>

lemma increment_adds_one:
  "le_value (increment b) = (le_value b + 1) mod 256 ^ length b \<and> length (increment b) = length b \<and>
   le_value ((increment ^^ k) (make_bytes n)) = k mod 256 ^ n"
  using le_value_increment [of b] le_value_nonce [of n k] by (simp add: nonce_def)

text \<open>C31: Nonces are not reused. As long as fewer than \<open>256 ^ n\<close> blocks are sealed, all counter values are
  different, and only the first of them is the zero counter at which \<open>flush\<close> sends the salt.\<close>

theorem nonces_distinct:
  assumes "m \<le> 256 ^ n"
  shows "distinct (map (\<lambda>k. (increment ^^ k) (make_bytes n)) [0..<m]) \<and>
    (\<forall>k. 0 < k \<and> k < m \<longrightarrow> \<not> isZero ((increment ^^ k) (make_bytes n)))"
  using assms nonce_inj [of _ n] isZero_nonce [of _ n]
  by (auto simp: distinct_map inj_on_def simp flip: nonce_def)

theorem nonces_distinct_witness:
  "distinct (map (\<lambda>k. (increment ^^ k) (make_bytes 12)) [0..<1000]) \<and>
   \<not> isZero ((increment ^^ 256) (make_bytes 12))"
proof -
  have "(1000 :: nat) \<le> 256 ^ 12" by simp
  note nd = nonces_distinct [OF this]
  have "(0 :: nat) < 256 \<and> (256 :: nat) < 1000" by simp
  with nd show ?thesis by blast
qed

end
