(* ===== verification/SS_Stream_Writer.thy ===== *)
theory SS_Stream_Writer
  imports SS_Stream
begin

text \<open>
  Model of the writing half of \<^verbatim>\<open>shadowsocks/stream.go\<close>. The record \<open>Writer\<close> has the fields of
  the Go struct; \<open>buf\<close> is one byte list laid out as the code lays it out,
  \<^verbatim>\<open>[salt][size block][size tag][payload][payload tag]\<close>, and every operation reads and
  overwrites ranges of it in place. The mutex is not modelled; its purpose, a \<open>Flush\<close> on a timer
  while \<open>ReadFrom\<close> waits for its first read, is the argument \<open>race\<close> of \<open>ReadFrom\<close>.

  \<open>writer_inv\<close> relates a writer to the chunks it has sent (\<open>frames\<close> in \<open>SS_Stream\<close>) and \<open>queued\<close> is the
  plaintext it holds back.
\<close>

section \<open>Definitions\<close>

record Writer =
  needFlush :: bool
  sw_writer :: writer
  ssCipher :: Cipher
  saltGenerator :: "SaltGenerator option"
  pending :: nat
  buf :: bytes
  sw_aead :: "aead option"
  counter :: bytes

definition NewShadowsocksWriter :: "writer \<Rightarrow> Cipher \<Rightarrow> Writer" where
  "NewShadowsocksWriter w c =
     \<lparr>needFlush = False, sw_writer = w, ssCipher = c, saltGenerator = Some RandomSaltGenerator,
      pending = 0, buf = [], sw_aead = None, counter = []\<rparr>"

definition SetSaltGenerator :: "Writer \<Rightarrow> SaltGenerator option \<Rightarrow> Writer" where
  "SetSaltGenerator sw g = sw\<lparr>saltGenerator := g\<rparr>"

text \<open>\<open>init\<close>: the error, if any, and the writer; calling \<open>GetSalt\<close> on a nil generator panics.\<close>

definition writer_init :: "crypto \<Rightarrow> entropy \<Rightarrow> Writer \<Rightarrow> (goerror option \<times> Writer) result" where
  "writer_init cr ent sw =
     (case sw_aead sw of
        Some A \<Rightarrow> Ok (None, sw)
      | None \<Rightarrow>
          (case saltGenerator sw of
             None \<Rightarrow> Panic ''invalid memory address or nil pointer dereference''
           | Some g \<Rightarrow>
               (case GetSalt cr g ent (make_bytes (SaltSize (ssCipher sw))) of
                  Panic m \<Rightarrow> Panic m
                | Fail e \<Rightarrow> Ok (Some (ErrorWrap ''failed to generate salt'' e), sw)
                | Ok salt \<Rightarrow>
                    (case NewAEAD cr (ssCipher sw) salt of
                       Panic m \<Rightarrow> Panic m
                     | Fail e \<Rightarrow> Ok (Some (ErrorWrap ''failed to create AEAD'' e), sw)
                     | Ok A \<Rightarrow>
                         let sizeBufSize = 2 + Overhead A;
                             maxPayloadBufSize = payloadSizeMask + Overhead A
                         in Ok (None, sw\<lparr>sw_aead := Some A, saltGenerator := None,
                              counter := make_bytes (NonceSize A),
                              buf := blit (make_bytes (length salt + sizeBufSize + maxPayloadBufSize)) 0 salt\<rparr>)))))"

text \<open>Offset of the payload in \<open>buf\<close>, the start of the second slice of \<open>buffers\<close>; the first starts at
  the salt size.\<close>

definition payloadStart :: "aead \<Rightarrow> Writer \<Rightarrow> nat" where
  "payloadStart A sw = SaltSize (ssCipher sw) + 2 + Overhead A"

text \<open>\<open>encryptBlock\<close> on the range of \<open>buf\<close> that starts at \<open>off\<close> and has length \<open>len\<close>. If the sealed
  block does not fit, \<open>Seal\<close> allocates and \<open>buf\<close> keeps its bytes.\<close>

definition encryptBlock :: "aead \<Rightarrow> Writer \<Rightarrow> nat \<Rightarrow> nat \<Rightarrow> nat \<times> Writer" where
  "encryptBlock A sw off len =
     (let out = Seal A (counter sw) (subslice (buf sw) off (off + len))
      in (length out,
          sw\<lparr>buf := (if off + length out \<le> length (buf sw) then blit (buf sw) off out else buf sw),
             counter := increment (counter sw)\<rparr>))"

definition enqueue :: "aead \<Rightarrow> Writer \<Rightarrow> bytes \<Rightarrow> nat \<times> Writer" where
  "enqueue A sw plaintext =
     (let n = min (payloadSizeMask - pending sw) (length plaintext)
      in (n, sw\<lparr>buf := blit (buf sw) (payloadStart A sw + pending sw) (take n plaintext),
                pending := pending sw + n\<rparr>))"

definition flush :: "aead \<Rightarrow> Writer \<Rightarrow> goerror option \<times> Writer" where
  "flush A sw =
     (if pending sw = 0 then (None, sw)
      else
        let saltSize = SaltSize (ssCipher sw);
            start = (if isZero (counter sw) then 0 else saltSize);
            sw1 = sw\<lparr>buf := blit (buf sw) saltSize (PutUint16 (word_of_nat (pending sw)))\<rparr>
        in case encryptBlock A sw1 saltSize 2 of (sizeBlockSize, sw2) \<Rightarrow>
           case encryptBlock A sw2 (payloadStart A sw) (pending sw) of (payloadSize, sw3) \<Rightarrow>
           case Write (sw_writer sw3)
                  (subslice (buf sw3) start (saltSize + sizeBlockSize + payloadSize)) of
             (n, err, w') \<Rightarrow> (err, sw3\<lparr>sw_writer := w', pending := 0\<rparr>))"

definition Flush :: "Writer \<Rightarrow> (goerror option \<times> Writer) result" where
  "Flush sw =
     (if \<not> needFlush sw then Ok (None, sw)
      else case sw_aead sw of
        None \<Rightarrow> Panic ''invalid memory address or nil pointer dereference''
      | Some A \<Rightarrow> Ok (flush A sw))"

lemma pending_flush [simp]: "pending (snd (flush A sw)) = 0"
  by (simp add: flush_def encryptBlock_def Let_def split: prod.splits)

text \<open>The loop of \<open>LazyWrite\<close>: bytes queued, error, writer.\<close>

function lazy_loop :: "aead \<Rightarrow> Writer \<Rightarrow> bytes \<Rightarrow> nat \<Rightarrow> nat \<times> goerror option \<times> Writer" where
  "lazy_loop A sw p queued =
     (case enqueue A sw p of (n, sw1) \<Rightarrow>
        let p' = drop n p in
        if p' = [] then (queued + n, None, sw1\<lparr>needFlush := True\<rparr>)
        else case flush A sw1 of
               (Some e, sw2) \<Rightarrow> (queued + n, Some e, sw2)
             | (None, sw2) \<Rightarrow> lazy_loop A sw2 p' (queued + n))"
  by pat_completeness auto
termination
proof (relation "measures [\<lambda>(A, sw, p, q). length p, \<lambda>(A, sw, p, q). pending sw]")
  fix A sw p queued n sw1 p' fl sw2 and err :: "goerror option"
  assume enq: "(n, sw1) = enqueue A sw p" and p': "p' = drop n p" "p' \<noteq> []"
    and fl: "(err, sw2) = flush A sw1"
  have "pending sw2 = 0"
    using pending_flush [of A sw1] fl by (metis snd_conv)
  moreover have "n = min (payloadSizeMask - pending sw) (length p)"
    using enq by (simp add: enqueue_def Let_def)
  ultimately show "((A, sw2, p', queued + n), A, sw, p, queued)
      \<in> measures [\<lambda>(A, sw, p, q). length p, \<lambda>(A, sw, p, q). pending sw]"
    using p' by (auto simp: payloadSizeMask_def)
qed simp

declare lazy_loop.simps [simp del]

definition LazyWrite ::
  "crypto \<Rightarrow> entropy \<Rightarrow> Writer \<Rightarrow> bytes \<Rightarrow> (nat \<times> goerror option \<times> Writer) result" where
  "LazyWrite cr ent sw p =
     bind_result (writer_init cr ent sw) (\<lambda>(err, sw1).
       case err of
         Some e \<Rightarrow> Ok (0, Some e, sw1)
       | None \<Rightarrow>
           (case sw_aead sw1 of
              None \<Rightarrow> Panic ''invalid memory address or nil pointer dereference''
            | Some A \<Rightarrow> Ok (lazy_loop A sw1 p 0)))"

text \<open>The main transfer loop of \<open>ReadFrom\<close>, entered with no error so far: the bytes written, the
  error that ended it (\<open>EOF\<close> included), writer and reader.\<close>

function read_from_loop ::
  "aead \<Rightarrow> Writer \<Rightarrow> reader \<Rightarrow> nat \<Rightarrow> nat \<times> goerror \<times> Writer \<times> reader" where
  "read_from_loop A sw r written =
     (case Read r payloadSizeMask of (d, err, r') \<Rightarrow>
        case flush A (sw\<lparr>buf := blit (buf sw) (payloadStart A sw) d, pending := length d\<rparr>) of
          (flushErr, sw') \<Rightarrow>
            (case (case flushErr of Some fe \<Rightarrow> Some fe | None \<Rightarrow> err) of
               Some e \<Rightarrow> (written + length d, e, sw', r')
             | None \<Rightarrow> read_from_loop A sw' r' (written + length d)))"
  by pat_completeness auto
termination
  by (relation "measure (\<lambda>(A, sw, r, w). reads_left r)")
    (auto simp: payloadSizeMask_def split: option.splits dest!: Read_progress [OF sym])

declare read_from_loop.simps [simp del]

text \<open>The special case of \<open>ReadFrom\<close> while a flush is due: one read into the part of \<open>buf\<close> a
  concurrent \<open>Flush\<close> does not touch, then both are sent. \<open>race\<close> says whether the timer's \<open>Flush\<close> ran
  while the lock was free. Its own error is dropped by the timer.\<close>

definition read_from_first ::
  "aead \<Rightarrow> bool \<Rightarrow> Writer \<Rightarrow> reader \<Rightarrow> nat \<times> goerror option \<times> Writer \<times> reader" where
  "read_from_first A race sw r =
     (let readOff = payloadStart A sw + pending sw + Overhead A
      in case Read r (length (buf sw) - readOff) of (d, err, r') \<Rightarrow>
         let sw1 = sw\<lparr>buf := blit (buf sw) readOff d\<rparr>;
             sw2 = (if race then snd (flush A sw1) else sw1);
             sw3 = snd (enqueue A sw2 (subslice (buf sw2) readOff (readOff + length d)))
         in case flush A sw3 of
              (flushErr, sw4) \<Rightarrow>
                (length d, (case flushErr of Some fe \<Rightarrow> Some fe | None \<Rightarrow> err),
                 sw4\<lparr>needFlush := False\<rparr>, r'))"

definition ReadFrom ::
  "crypto \<Rightarrow> entropy \<Rightarrow> bool \<Rightarrow> Writer \<Rightarrow> reader \<Rightarrow> (nat \<times> goerror option \<times> Writer \<times> reader) result" where
  "ReadFrom cr ent race sw r =
     bind_result (writer_init cr ent sw) (\<lambda>(ierr, sw1).
       case ierr of
         Some e \<Rightarrow> Ok (0, Some e, sw1, r)
       | None \<Rightarrow>
         (case sw_aead sw1 of
            None \<Rightarrow> Panic ''invalid memory address or nil pointer dereference''
          | Some A \<Rightarrow>
            (case (if needFlush sw1 then read_from_first A race sw1 r else (0, None, sw1, r)) of
               (written, err, sw2, r2) \<Rightarrow>
                 (case (case err of Some e \<Rightarrow> (written, e, sw2, r2)
                                  | None \<Rightarrow> read_from_loop A sw2 r2 written) of
                    (written', e, sw3, r3) \<Rightarrow>
                      Ok (written',
                          (if e = EOF then None else Some (ErrorWrap ''Failed to read payload'' e)),
                          sw3, r3)))))"

definition Writer_Write ::
  "crypto \<Rightarrow> entropy \<Rightarrow> bool \<Rightarrow> Writer \<Rightarrow> bytes \<Rightarrow> (nat \<times> goerror option \<times> Writer) result" where
  "Writer_Write cr ent race sw p =
     bind_result (ReadFrom cr ent race sw (BytesReader p)) (\<lambda>(n, err, sw', r'). Ok (n, err, sw'))"

section \<open>The invariant of the writer\<close>

text \<open>A writer with AEAD \<open>A\<close> and salt \<open>salt\<close> that has sent exactly the chunks \<open>ps\<close>, over a writer that
  does not fail.\<close>

definition writer_inv :: "aead \<Rightarrow> bytes \<Rightarrow> bytes list \<Rightarrow> Writer \<Rightarrow> bool" where
  "writer_inv A salt ps sw \<longleftrightarrow>
     sw_aead sw = Some A \<and> aead_ok A \<and> SaltSize (ssCipher sw) = length salt \<and>
     length (buf sw) = length salt + (2 + Overhead A) + (payloadSizeMask + Overhead A) \<and>
     take (length salt) (buf sw) = salt \<and> pending sw \<le> payloadSizeMask \<and>
     counter sw = nonce (NonceSize A) (2 * length ps) \<and> writes_all (sw_writer sw) \<and>
     list_all chunk_ok ps \<and> concat (wout (sw_writer sw)) = wire A salt ps"

definition queued :: "aead \<Rightarrow> Writer \<Rightarrow> bytes" where
  "queued A sw = subslice (buf sw) (payloadStart A sw) (payloadStart A sw + pending sw)"

lemma length_queued: "writer_inv A salt ps sw \<Longrightarrow> length (queued A sw) = pending sw"
  by (simp add: queued_def writer_inv_def payloadStart_def length_subslice)

lemma queued_empty: "pending sw = 0 \<Longrightarrow> queued A sw = []"
  by (simp add: queued_def)

text \<open>The buffer after both blocks are sealed in place: size block, then payload block right behind
  it.\<close>

definition sealed_buf :: "bytes \<Rightarrow> nat \<Rightarrow> bytes \<Rightarrow> bytes \<Rightarrow> bytes \<Rightarrow> bytes" where
  "sealed_buf b ss sz out1 out2 = blit (blit (blit b ss sz) ss out1) (ss + length out1) out2"

lemma sealed_buf_layout:
  assumes "ss + length out1 + length out2 \<le> length b" and "length sz \<le> length out1"
  shows length_sealed_buf: "length (sealed_buf b ss sz out1 out2) = length b"
    and sealed_buf_salt: "take ss (sealed_buf b ss sz out1 out2) = take ss b"
    and sealed_buf_blocks:
      "subslice (sealed_buf b ss sz out1 out2) ss (ss + length out1 + length out2) = out1 @ out2"
    and sealed_buf_tail: "drop (ss + length out1 + length out2) (sealed_buf b ss sz out1 out2) =
      drop (ss + length out1 + length out2) b"
    and sealed_buf_size: "subslice (blit b ss sz) ss (ss + length sz) = sz"
    and sealed_buf_payload:
      "subslice (blit (blit b ss sz) ss out1) (ss + length out1) hi = subslice b (ss + length out1) hi"
proof -
  let ?b1 = "blit b ss sz" and ?b2 = "blit (blit b ss sz) ss out1"
  have l1: "length ?b1 = length b" and l2: "length ?b2 = length b"
    using assms by simp_all
  then show "length (sealed_buf b ss sz out1 out2) = length b"
    using assms by (simp add: sealed_buf_def)
  show "take ss (sealed_buf b ss sz out1 out2) = take ss b"
    using assms l1 l2 by (simp add: sealed_buf_def take_blit)
  have "subslice (sealed_buf b ss sz out1 out2) ss (ss + length out1) = out1"
    using assms l1 l2 by (simp add: sealed_buf_def subslice_blit_before subslice_blit_same)
  moreover have "subslice (sealed_buf b ss sz out1 out2) (ss + length out1)
      (ss + length out1 + length out2) = out2"
    using assms l2 by (simp add: sealed_buf_def subslice_blit_same)
  ultimately show "subslice (sealed_buf b ss sz out1 out2) ss (ss + length out1 + length out2) = out1 @ out2"
    by (metis le_add1 subslice_append)
  show "drop (ss + length out1 + length out2) (sealed_buf b ss sz out1 out2) =
      drop (ss + length out1 + length out2) b"
    using assms l1 l2 by (simp add: sealed_buf_def drop_blit_after)
  show "subslice ?b1 ss (ss + length sz) = sz"
    using assms by (simp add: subslice_blit_same)
  show "subslice ?b2 (ss + length out1) hi = subslice b (ss + length out1) hi"
    using assms l1 by (simp add: subslice_blit_after)
qed

text \<open>What one flush does to a writer that satisfies the invariant.\<close>

lemma flush_eq:
  assumes inv: "writer_inv A salt ps sw" and bound: "2 * length ps < 256 ^ NonceSize A"
    and pend: "pending sw \<noteq> 0"
  defines "k \<equiv> 2 * length ps" and "sz \<equiv> PutUint16 (word_of_nat (pending sw))"
  defines "out1 \<equiv> Seal A (nonce (NonceSize A) k) sz"
    and "out2 \<equiv> Seal A (nonce (NonceSize A) (Suc k)) (queued A sw)"
  shows "\<exists>w'. flush A sw = (None, sw\<lparr>sw_writer := w', pending := 0,
      buf := sealed_buf (buf sw) (length salt) sz out1 out2,
      counter := nonce (NonceSize A) (Suc (Suc k))\<rparr>) \<and>
    wout w' = wout (sw_writer sw) @ [(if ps = [] then salt else []) @ out1 @ out2] \<and> writes_all w'"
proof -
  let ?b3 = "sealed_buf (buf sw) (length salt) sz out1 out2"
  have ss: "SaltSize (ssCipher sw) = length salt" and cnt: "counter sw = nonce (NonceSize A) k"
    and l1: "length out1 = 2 + Overhead A" and lsz: "length sz = 2"
    and l2: "length out2 = pending sw + Overhead A"
    using inv length_queued [OF inv] unfolding k_def sz_def out1_def out2_def
    by (simp_all add: writer_inv_def length_Seal)
  have fits: "length salt + length out1 + length out2 \<le> length (buf sw)"
    using inv l1 l2 by (simp add: writer_inv_def)
  have "length sz \<le> length out1" using l1 lsz by simp
  note lay = sealed_buf_layout [OF fits this]
  have po: "payloadStart A sw = length salt + (2 + Overhead A)"
    using ss by (simp add: payloadStart_def)
  have z: "isZero (counter sw) \<longleftrightarrow> ps = []"
    using bound cnt isZero_nonce [of k "NonceSize A"] by (simp add: k_def)
  let ?sent = "subslice ?b3 (if ps = [] then 0 else length salt) (length salt + length out1 + length out2)"
  have sent: "?sent = (if ps = [] then salt else []) @ out1 @ out2"
  proof -
    have "take (length salt) ?b3 = salt"
      using inv lay(2) by (auto simp: writer_inv_def)
    then show ?thesis
      using lay(3) subslice_append [of 0 "length salt" "length salt + length out1 + length out2" ?b3]
      by (auto simp: subslice_zero)
  qed
  obtain w' where w': "Write (sw_writer sw) ?sent = (length ?sent, None, w')"
    "wout w' = wout (sw_writer sw) @ [?sent]" "writes_all w'"
    using inv by (auto simp: writer_inv_def elim: Write_all)
  have e1: "encryptBlock A (sw\<lparr>buf := blit (buf sw) (length salt) sz\<rparr>) (length salt) 2 =
      (length out1, sw\<lparr>buf := blit (blit (buf sw) (length salt) sz) (length salt) out1,
        counter := nonce (NonceSize A) (Suc k)\<rparr>)"
    using fits l1 lsz cnt lay(5) [unfolded lsz] by (simp add: encryptBlock_def Let_def out1_def)
  have e2: "encryptBlock A (sw\<lparr>buf := blit (blit (buf sw) (length salt) sz) (length salt) out1,
        counter := nonce (NonceSize A) (Suc k)\<rparr>) (payloadStart A sw) (pending sw) =
      (length out2, sw\<lparr>buf := ?b3, counter := nonce (NonceSize A) (Suc (Suc k))\<rparr>)"
    using fits l1 l2 lsz lay(6) [unfolded l1] po
    by (simp add: encryptBlock_def Let_def out2_def sealed_buf_def queued_def)
  have "flush A sw = (None, sw\<lparr>sw_writer := w', pending := 0, buf := ?b3,
      counter := nonce (NonceSize A) (Suc (Suc k))\<rparr>)"
    using pend z w'(1) by (simp add: flush_def Let_def ss e1 e2 flip: sz_def)
  with w' sent show ?thesis by auto
qed

text \<open>One flush sends the queued bytes as one more chunk, and touches nothing of the buffer behind the
  payload's tag.\<close>

lemma flush_inv:
  assumes inv: "writer_inv A salt ps sw" and bound: "2 * length ps < 256 ^ NonceSize A"
    and fl: "flush A sw = (err, sw')"
  shows "err = None" and "pending sw' = 0" and "needFlush sw' = needFlush sw"
    and "ssCipher sw' = ssCipher sw"
    and "writer_inv A salt (if pending sw = 0 then ps else ps @ [queued A sw]) sw'"
    and "drop (payloadStart A sw + pending sw + Overhead A) (buf sw') =
         drop (payloadStart A sw + pending sw + Overhead A) (buf sw)"
proof -
  let ?off = "payloadStart A sw + pending sw + Overhead A"
  have "err = None \<and> pending sw' = 0 \<and> needFlush sw' = needFlush sw \<and> ssCipher sw' = ssCipher sw \<and>
      writer_inv A salt (if pending sw = 0 then ps else ps @ [queued A sw]) sw' \<and>
      drop ?off (buf sw') = drop ?off (buf sw)"
  proof (cases "pending sw = 0")
    case True
    with inv fl show ?thesis by (auto simp: flush_def)
  next
    case False
    let ?sz = "PutUint16 (word_of_nat (pending sw))" and ?q = "queued A sw"
    let ?out1 = "Seal A (nonce (NonceSize A) (2 * length ps)) ?sz"
      and ?out2 = "Seal A (nonce (NonceSize A) (Suc (2 * length ps))) ?q"
    from flush_eq [OF inv bound False] fl obtain w' where err: "err = None"
      and sw': "sw' = sw\<lparr>sw_writer := w', pending := 0,
        buf := sealed_buf (buf sw) (length salt) ?sz ?out1 ?out2,
        counter := nonce (NonceSize A) (Suc (Suc (2 * length ps)))\<rparr>"
      and out: "wout w' = wout (sw_writer sw) @ [(if ps = [] then salt else []) @ ?out1 @ ?out2]"
      and all: "writes_all w'"
      by auto
    note lq = length_queued [OF inv]
    have l: "length ?out1 = 2 + Overhead A" "length ?out2 = pending sw + Overhead A"
      using inv lq by (simp_all add: writer_inv_def length_Seal)
    have fits: "length salt + length ?out1 + length ?out2 \<le> length (buf sw)"
      using inv unfolding l by (simp add: writer_inv_def)
    have "length ?sz \<le> length ?out1" using l(1) by simp
    note lay = sealed_buf_layout [OF fits this]
    have chunk: "chunk_ok ?q" using lq False inv by (auto simp: chunk_ok_def writer_inv_def)
    have off: "?off = length salt + length ?out1 + length ?out2"
      using inv unfolding l by (simp add: writer_inv_def payloadStart_def)
    have "drop ?off (buf sw') = drop ?off (buf sw)"
      unfolding off sw' using lay(4) by simp
    moreover have "writer_inv A salt (ps @ [?q]) sw'"
      using inv sw' out all chunk lay(1,2) lq by (auto simp: writer_inv_def wire_snoc)
    ultimately show ?thesis using err sw' False by simp
  qed
  then show "err = None" and "pending sw' = 0" and "needFlush sw' = needFlush sw"
    and "ssCipher sw' = ssCipher sw"
    and "writer_inv A salt (if pending sw = 0 then ps else ps @ [queued A sw]) sw'"
    and "drop ?off (buf sw') = drop ?off (buf sw)"
    by blast+
qed

text \<open>Placing plaintext behind what is queued.\<close>

lemma place_inv:
  assumes inv: "writer_inv A salt ps sw" and fit: "m + length d \<le> payloadSizeMask"
    and m: "m \<le> pending sw"
  defines "sw' \<equiv> sw\<lparr>buf := blit (buf sw) (payloadStart A sw + m) d, pending := m + length d\<rparr>"
  shows "writer_inv A salt ps sw'" and "queued A sw' = take m (queued A sw) @ d"
proof -
  have len: "payloadStart A sw + m + length d \<le> length (buf sw)"
    using inv fit by (simp add: writer_inv_def payloadStart_def)
  have "length salt \<le> payloadStart A sw + m"
    using inv by (simp add: writer_inv_def payloadStart_def)
  then show "writer_inv A salt ps sw'"
    using inv fit len by (simp add: writer_inv_def sw'_def take_blit)
  let ?po = "payloadStart A sw" and ?b = "blit (buf sw) (payloadStart A sw + m) d"
  have "queued A sw' = subslice ?b ?po (?po + m) @ subslice ?b (?po + m) (?po + m + length d)"
    using subslice_append [of ?po "?po + m" "?po + m + length d" ?b]
    by (simp add: queued_def sw'_def payloadStart_def add.assoc)
  also have "subslice ?b ?po (?po + m) = take m (queued A sw)"
  proof -
    have "subslice ?b ?po (?po + m) = subslice (buf sw) ?po (?po + m)"
      using len by (intro subslice_blit_before) simp_all
    with m show ?thesis by (simp add: queued_def subslice_def min_def)
  qed
  also have "subslice ?b (?po + m) (?po + m + length d) = d"
    using len by (rule subslice_blit_same)
  finally show "queued A sw' = take m (queued A sw) @ d" .
qed

lemma enqueue_inv:
  assumes inv: "writer_inv A salt ps sw" and enq: "enqueue A sw p = (n, sw')"
  shows "writer_inv A salt ps sw'" and "queued A sw' = queued A sw @ take n p"
    and "n = min (payloadSizeMask - pending sw) (length p)" and "pending sw' = pending sw + n"
    and "needFlush sw' = needFlush sw" and "ssCipher sw' = ssCipher sw"
proof -
  from enq have n: "n = min (payloadSizeMask - pending sw) (length p)"
    and sw': "sw' = sw\<lparr>buf := blit (buf sw) (payloadStart A sw + pending sw) (take n p),
      pending := pending sw + length (take n p)\<rparr>"
    by (auto simp: enqueue_def Let_def)
  have "pending sw + length (take n p) \<le> payloadSizeMask"
    using inv n by (auto simp: writer_inv_def min_def)
  note pl = place_inv [OF inv this order_refl, folded sw']
  show "writer_inv A salt ps sw'" by (rule pl(1))
  show "queued A sw' = queued A sw @ take n p"
    using pl(2) length_queued [OF inv] by simp
  show "n = min (payloadSizeMask - pending sw) (length p)" by (rule n)
  show "pending sw' = pending sw + n" "needFlush sw' = needFlush sw" "ssCipher sw' = ssCipher sw"
    using sw' n by simp_all
qed

section \<open>What the operations send\<close>

text \<open>A writer that has not been used: \<open>init\<close> has not run, nothing was sent, and the generator is
  there.\<close>

definition fresh_writer :: "SaltGenerator \<Rightarrow> Writer \<Rightarrow> bool" where
  "fresh_writer g sw \<longleftrightarrow>
     sw_aead sw = None \<and> saltGenerator sw = Some g \<and> pending sw = 0 \<and> \<not> needFlush sw \<and>
     wout (sw_writer sw) = [] \<and> writes_all (sw_writer sw)"

lemma writer_init_fresh:
  assumes ok: "cipher_ok cr (ssCipher sw)" and fresh: "fresh_writer g sw"
    and salt: "GetSalt cr g ent (make_bytes (SaltSize (ssCipher sw))) = Ok salt"
  obtains A sw' where "writer_init cr ent sw = Ok (None, sw')" "writer_inv A salt [] sw'"
    "NewAEAD cr (ssCipher sw) salt = Ok A" "NonceSize A = 12" "Overhead A = 16"
    "pending sw' = 0" "\<not> needFlush sw'" "ssCipher sw' = ssCipher sw"
proof -
  obtain A where A: "NewAEAD cr (ssCipher sw) salt = Ok A" "aead_ok A" "NonceSize A = 12" "Overhead A = 16"
    using ok by (rule cipher_okE)
  have "length salt = SaltSize (ssCipher sw)"
    using any_salts.salt_length [OF salt] by simp
  with A fresh salt that show thesis
    by (auto simp: writer_init_def fresh_writer_def writer_inv_def wire_def take_blit blit_def Let_def)
qed

lemma writer_init_again: "writer_inv A salt ps sw \<Longrightarrow> writer_init cr ent sw = Ok (None, sw)"
  by (simp add: writer_init_def writer_inv_def)

text \<open>The nonces suffice as long as fewer than half of them would be needed byte by byte.\<close>

definition nonces_suffice :: "aead \<Rightarrow> bytes \<Rightarrow> bool" where
  "nonces_suffice A text \<longleftrightarrow> 2 * length text < 256 ^ NonceSize A"

lemma nonces_suffice_chunks:
  "writer_inv A salt ps sw \<Longrightarrow> nonces_suffice A (concat ps @ rest) \<Longrightarrow> 2 * length ps < 256 ^ NonceSize A"
  using chunk_ok_length_concat [of ps] by (simp add: writer_inv_def nonces_suffice_def)

lemma flush_sends:
  assumes inv: "writer_inv A salt ps sw" and nn: "nonces_suffice A (concat ps @ rest)"
  obtains sw' ps' where "flush A sw = (None, sw')" "writer_inv A salt ps' sw'"
    "concat ps' = concat ps @ queued A sw" "pending sw' = 0" "needFlush sw' = needFlush sw"
    "drop (payloadStart A sw + pending sw + Overhead A) (buf sw') =
     drop (payloadStart A sw + pending sw + Overhead A) (buf sw)" "ssCipher sw' = ssCipher sw"
proof -
  obtain err sw' where fl: "flush A sw = (err, sw')" by (cases "flush A sw")
  note fi = flush_inv [OF inv nonces_suffice_chunks [OF inv nn] fl]
  show thesis
    using that [of sw' "if pending sw = 0 then ps else ps @ [queued A sw]"] fl fi
    by (auto simp: queued_empty)
qed

lemma lazy_loop_sends:
  assumes "writer_inv A salt ps sw" and "nonces_suffice A (concat ps @ queued A sw @ p)"
  shows "\<exists>sw' ps'. lazy_loop A sw p m = (m + length p, None, sw') \<and> writer_inv A salt ps' sw' \<and>
    concat ps' @ queued A sw' = concat ps @ queued A sw @ p \<and> needFlush sw' \<and>
    ssCipher sw' = ssCipher sw"
  using assms
proof (induction A sw p m arbitrary: ps rule: lazy_loop.induct)
  case (1 A sw p m)
  obtain n sw1 where enq: "enqueue A sw p = (n, sw1)" by (cases "enqueue A sw p")
  note e = enqueue_inv [OF "1.prems"(1) enq]
  show ?case
  proof (cases "drop n p = []")
    case True
    then have "n = length p" using e(3) by simp
    moreover have "writer_inv A salt ps (sw1\<lparr>needFlush := True\<rparr>)"
      "queued A (sw1\<lparr>needFlush := True\<rparr>) = queued A sw1"
      using e(1) by (simp_all add: writer_inv_def queued_def payloadStart_def)
    ultimately show ?thesis
      using True e enq by (auto simp: lazy_loop.simps [of A sw p m])
  next
    case False
    have "nonces_suffice A (concat ps @ queued A sw1)"
      using "1.prems"(2) e(2) by (simp add: nonces_suffice_def)
    from flush_sends [OF e(1) this] obtain sw2 ps2 where fl: "flush A sw1 = (None, sw2)"
      and inv2: "writer_inv A salt ps2 sw2" and c2: "concat ps2 = concat ps @ queued A sw1"
      and p2: "pending sw2 = 0" "ssCipher sw2 = ssCipher sw1"
      by metis
    have "concat ps2 @ queued A sw2 @ drop n p = concat ps @ queued A sw @ p"
      using c2 e(2) p2(1) by (simp add: queued_empty)
    then have "nonces_suffice A (concat ps2 @ queued A sw2 @ drop n p)"
      using "1.prems"(2) by simp
    from "1.IH" [OF enq [symmetric] refl False fl [symmetric] refl inv2 this]
    obtain sw' ps' where "lazy_loop A sw2 (drop n p) (m + n) = (m + n + length (drop n p), None, sw')"
      "writer_inv A salt ps' sw'" "concat ps' @ queued A sw' = concat ps2 @ queued A sw2 @ drop n p"
      "needFlush sw'" "ssCipher sw' = ssCipher sw2"
      by blast
    moreover have "m + n + length (drop n p) = m + length p" using e(3) by simp
    ultimately show ?thesis
      using enq fl False \<open>concat ps2 @ queued A sw2 @ drop n p = _\<close> p2 e(6)
      by (auto simp: lazy_loop.simps [of A sw p m])
  qed
qed

lemma read_from_loop_sends:
  assumes "writer_inv A salt ps sw" and "pending sw = 0" and "eof_chained r"
    and "nonces_suffice A (concat ps @ contents r)"
  shows "\<exists>sw' r' ps'. read_from_loop A sw r m = (m + length (contents r), final_error r, sw', r') \<and>
    writer_inv A salt ps' sw' \<and> pending sw' = 0 \<and> needFlush sw' = needFlush sw \<and>
    concat ps' = concat ps @ contents r"
  using assms
proof (induction A sw r m arbitrary: ps rule: read_from_loop.induct)
  case (1 A sw r m)
  obtain d err r' where rd: "Read r payloadSizeMask = (d, err, r')"
    by (cases "Read r payloadSizeMask")
  note spec = Read_spec [OF "1.prems"(3) rd]
  let ?sw1 = "sw\<lparr>buf := blit (buf sw) (payloadStart A sw) d, pending := length d\<rparr>"
  have pl: "writer_inv A salt ps ?sw1" "queued A ?sw1 = d"
    using place_inv [OF "1.prems"(1), of 0 d] spec(2) by simp_all
  have "nonces_suffice A (concat ps @ d)"
    using "1.prems"(4) spec(1) by (simp add: nonces_suffice_def)
  from flush_sends [OF pl(1) this] pl(2) obtain sw2 ps2 where fl: "flush A ?sw1 = (None, sw2)"
    and inv2: "writer_inv A salt ps2 sw2" and c2: "concat ps2 = concat ps @ d"
    and p2: "pending sw2 = 0" "needFlush sw2 = needFlush sw"
    by (metis select_convs(1) surjective update_convs(5,6))
  show ?case
  proof (cases err)
    case None
    have "nonces_suffice A (concat ps2 @ contents r')"
      using "1.prems"(4) spec(1) c2 by simp
    from "1.IH" [OF rd [symmetric] refl fl [symmetric] _ inv2 p2(1) spec(4) this] None
    obtain sw' r'' ps' where
      "read_from_loop A sw2 r' (m + length d) = (m + length d + length (contents r'), final_error r', sw', r'')"
      "writer_inv A salt ps' sw'" "pending sw' = 0" "needFlush sw' = needFlush sw2"
      "concat ps' = concat ps2 @ contents r'"
      by auto
    with rd fl None spec(1,3) c2 p2 show ?thesis
      by (auto simp: read_from_loop.simps [of A sw r m])
  next
    case (Some e)
    with rd fl spec c2 inv2 p2 show ?thesis
      by (auto simp: read_from_loop.simps [of A sw r m])
  qed
qed

text \<open>Bytes read into the part of the buffer behind a possible payload tag disturb nothing, and a
  concurrent flush does not disturb them.\<close>

lemma spare_inv:
  assumes inv: "writer_inv A salt ps sw" and d: "pending sw + length d \<le> payloadSizeMask"
  defines "off \<equiv> payloadStart A sw + pending sw + Overhead A"
  defines "sw1 \<equiv> sw\<lparr>buf := blit (buf sw) off d\<rparr>"
  shows "writer_inv A salt ps sw1" and "queued A sw1 = queued A sw" and "pending sw1 = pending sw"
    and "subslice (buf sw1) off (off + length d) = d" and "off + length d \<le> length (buf sw1)"
proof -
  have len: "off + length d \<le> length (buf sw)"
    using inv d by (simp add: writer_inv_def off_def payloadStart_def)
  have "length salt \<le> off" using inv by (simp add: writer_inv_def off_def payloadStart_def)
  with len inv show "writer_inv A salt ps sw1"
    by (simp add: writer_inv_def sw1_def take_blit)
  show "queued A sw1 = queued A sw"
    using len by (simp add: queued_def sw1_def payloadStart_def off_def subslice_blit_before)
  show "subslice (buf sw1) off (off + length d) = d"
    using len by (simp add: sw1_def subslice_blit_same)
  show "pending sw1 = pending sw" and "off + length d \<le> length (buf sw1)"
    using len by (simp_all add: sw1_def)
qed

lemma subslice_cong_drop: "drop off b = drop off c \<Longrightarrow> subslice b off hi = subslice c off hi"
  by (simp add: subslice_def)

lemma read_from_first_sends:
  assumes inv: "writer_inv A salt ps sw" and ch: "eof_chained r"
    and nn: "nonces_suffice A (concat ps @ queued A sw @ contents r)"
  shows "\<exists>d err sw' r' ps'. read_from_first A race sw r = (length d, err, sw', r') \<and>
    contents r = d @ contents r' \<and> final_error r' = final_error r \<and> eof_chained r' \<and>
    (err = None \<or> err = Some (final_error r) \<and> contents r = []) \<and>
    writer_inv A salt ps' sw' \<and> pending sw' = 0 \<and> \<not> needFlush sw' \<and>
    concat ps' = concat ps @ queued A sw @ d"
proof -
  let ?off = "payloadStart A sw + pending sw + Overhead A"
  obtain d err r' where rd: "Read r (length (buf sw) - ?off) = (d, err, r')"
    by (cases "Read r (length (buf sw) - ?off)")
  note spec = Read_spec [OF ch rd]
  have fit: "pending sw + length d \<le> payloadSizeMask"
    using spec(2) inv by (auto simp: writer_inv_def payloadStart_def)
  let ?sw1 = "sw\<lparr>buf := blit (buf sw) ?off d\<rparr>"
  note sp = spare_inv [OF inv fit]
  let ?sw2 = "if race then snd (flush A ?sw1) else ?sw1"
  have "nonces_suffice A (concat ps @ queued A ?sw1)"
    using nn sp(2) by (simp add: nonces_suffice_def)
  from flush_sends [OF sp(1) this] obtain f psf where f: "flush A ?sw1 = (None, f)"
    "writer_inv A salt psf f" "concat psf = concat ps @ queued A sw" "pending f = 0"
    "drop ?off (buf f) = drop ?off (buf ?sw1)" "ssCipher f = ssCipher sw"
    by (metis (no_types, lifting) sp(2,3) select_convs(1) payloadStart_def Writer.select_convs(3)
        Writer.surjective Writer.update_convs(6))
  obtain ps2 where sw2: "writer_inv A salt ps2 ?sw2" "concat ps2 @ queued A ?sw2 = concat ps @ queued A sw"
      "pending ?sw2 + length d \<le> payloadSizeMask"
    using f sp fit by (cases race) (auto simp: queued_empty)
  have d2: "subslice (buf ?sw2) ?off (?off + length d) = d"
    using f(1,5) sp(4) subslice_cong_drop [OF f(5)] by (cases race) simp_all
  obtain n sw3 where enq: "enqueue A ?sw2 d = (n, sw3)" by (cases "enqueue A ?sw2 d")
  note e = enqueue_inv [OF sw2(1) enq]
  have n: "n = length d" using e(3) sw2(3) by simp
  have c3: "concat ps2 @ queued A sw3 = concat ps @ queued A sw @ d"
    using sw2(2) e(2) n by (metis append.assoc order_refl take_all)
  have "nonces_suffice A (concat ps2 @ queued A sw3)"
    unfolding c3 using nn spec(1) by (simp add: nonces_suffice_def)
  from flush_sends [OF e(1) this] obtain sw4 ps4 where fl: "flush A sw3 = (None, sw4)"
    "writer_inv A salt ps4 sw4" "concat ps4 = concat ps2 @ queued A sw3" "pending sw4 = 0"
    by metis
  have c4: "concat ps4 = concat ps @ queued A sw @ d"
    using fl(3) c3 by simp
  have inv4: "writer_inv A salt ps4 (sw4\<lparr>needFlush := False\<rparr>)"
    using fl(2) by (simp add: writer_inv_def)
  have "read_from_first A race sw r = (length d, err, sw4\<lparr>needFlush := False\<rparr>, r')"
    using rd d2 enq fl(1) by (simp add: read_from_first_def Let_def)
  with spec inv4 c4 fl(4) show ?thesis by auto
qed

text \<open>\<open>ReadFrom\<close> on a writer that has been initialised: everything queued and everything the reader holds
  goes out, whatever the timer does.\<close>

lemma ReadFrom_sends:
  assumes inv: "writer_inv A salt ps sw" and clean: "needFlush sw \<or> pending sw = 0"
    and ch: "eof_chained r" and nn: "nonces_suffice A (concat ps @ queued A sw @ contents r)"
  shows "\<exists>sw' r' ps'. ReadFrom cr ent race sw r =
      Ok (length (contents r),
          (if final_error r = EOF then None
           else Some (ErrorWrap ''Failed to read payload'' (final_error r))), sw', r') \<and>
    writer_inv A salt ps' sw' \<and> pending sw' = 0 \<and> \<not> needFlush sw' \<and>
    concat ps' = concat ps @ queued A sw @ contents r"
proof -
  have aead: "sw_aead sw = Some A" using inv by (simp add: writer_inv_def)
  note init = writer_init_again [OF inv, of cr ent]
  show ?thesis
  proof (cases "needFlush sw")
    case True
    from read_from_first_sends [OF inv ch nn, of race] obtain d err sw2 r2 ps2 where
      first: "read_from_first A race sw r = (length d, err, sw2, r2)" "contents r = d @ contents r2"
        "final_error r2 = final_error r" "eof_chained r2"
        "err = None \<or> err = Some (final_error r) \<and> contents r = []"
      and s2: "writer_inv A salt ps2 sw2" "pending sw2 = 0" "\<not> needFlush sw2"
        "concat ps2 = concat ps @ queued A sw @ d"
      by blast
    show ?thesis
    proof (cases err)
      case None
      have "nonces_suffice A (concat ps2 @ contents r2)"
        using nn s2(4) first(2) by simp
      from read_from_loop_sends [OF s2(1,2) first(4) this, of "length d"] s2(3,4) first(2,3)
      show ?thesis using init aead True first(1) None
        by (auto simp: ReadFrom_def)
    next
      case (Some e)
      with first s2 init aead True show ?thesis
        by (auto simp: ReadFrom_def)
    qed
  next
    case False
    with clean have p0: "pending sw = 0" by simp
    with nn have "nonces_suffice A (concat ps @ contents r)" by (simp add: queued_empty)
    from read_from_loop_sends [OF inv p0 ch this, of 0] p0 init aead False show ?thesis
      by (auto simp: ReadFrom_def queued_empty)
  qed
qed

lemma ReadFrom_fresh:
  assumes ok: "cipher_ok cr (ssCipher sw)" and fresh: "fresh_writer g sw"
    and salt: "GetSalt cr g ent (make_bytes (SaltSize (ssCipher sw))) = Ok salt"
    and ch: "eof_chained r" and len: "length (contents r) < 2 ^ 95"
  obtains A sw' r' ps where "NewAEAD cr (ssCipher sw) salt = Ok A"
    "ReadFrom cr ent race sw r =
      Ok (length (contents r),
          (if final_error r = EOF then None
           else Some (ErrorWrap ''Failed to read payload'' (final_error r))), sw', r')"
    "list_all chunk_ok ps" "concat ps = contents r" "concat (wout (sw_writer sw')) = wire A salt ps"
proof -
  from writer_init_fresh [OF ok fresh salt] obtain A sw1 where
    i: "writer_init cr ent sw = Ok (None, sw1)" "writer_inv A salt [] sw1"
      "NewAEAD cr (ssCipher sw) salt = Ok A" "NonceSize A = 12" "pending sw1 = 0"
    by metis
  have "nonces_suffice A (concat [] @ queued A sw1 @ contents r)"
    using len i(4,5) by (simp add: nonces_suffice_def queued_empty)
  from ReadFrom_sends [OF i(2) disjI2 [OF i(5)] ch this, of cr ent race] i(5)
  obtain sw' r' ps where "ReadFrom cr ent race sw1 r =
      Ok (length (contents r),
          (if final_error r = EOF then None
           else Some (ErrorWrap ''Failed to read payload'' (final_error r))), sw', r')"
    "writer_inv A salt ps sw'" "concat ps = contents r"
    by (auto simp: queued_empty)
  moreover have "ReadFrom cr ent race sw r = ReadFrom cr ent race sw1 r"
    using i(1) writer_init_again [OF i(2), of cr ent] by (simp add: ReadFrom_def)
  ultimately show thesis
    using that i(3) by (auto simp: writer_inv_def)
qed

lemma LazyWrite_fresh:
  assumes ok: "cipher_ok cr (ssCipher sw)" and fresh: "fresh_writer g sw"
    and salt: "GetSalt cr g ent (make_bytes (SaltSize (ssCipher sw))) = Ok salt"
    and len: "length p < 2 ^ 95"
  obtains A sw' ps where "NewAEAD cr (ssCipher sw) salt = Ok A" "NonceSize A = 12"
    "LazyWrite cr ent sw p = Ok (length p, None, sw')" "writer_inv A salt ps sw'"
    "concat ps @ queued A sw' = p" "needFlush sw'"
proof -
  from writer_init_fresh [OF ok fresh salt] obtain A sw1 where
    i: "writer_init cr ent sw = Ok (None, sw1)" "writer_inv A salt [] sw1"
      "NewAEAD cr (ssCipher sw) salt = Ok A" "NonceSize A = 12" "pending sw1 = 0"
    by metis
  have "nonces_suffice A (concat [] @ queued A sw1 @ p)"
    using len i(4,5) by (simp add: nonces_suffice_def queued_empty)
  from lazy_loop_sends [OF i(2) this, of 0] i(5) obtain sw' ps where
    "lazy_loop A sw1 p 0 = (length p, None, sw')" "writer_inv A salt ps sw'"
    "concat ps @ queued A sw' = p" "needFlush sw'"
    by (auto simp: queued_empty)
  moreover have "sw_aead sw1 = Some A" using i(2) by (simp add: writer_inv_def)
  ultimately show thesis
    using that i by (simp add: LazyWrite_def)
qed

end
