(* ===== verification/SS_Slicepool.thy ===== *)
theory SS_Slicepool
  imports SS_Prelude
begin

text \<open>
  Model of \<^verbatim>\<open>internal/slicepool/slicepool.go\<close>. A buffer is a number standing for its address;
  \<open>bufs\<close> gives the length and capacity of each buffer ever made. \<^verbatim>\<open>sync.Pool\<close> may return
  any buffer that was put back or make a new one: the argument \<open>k\<close> of \<open>get\<close> is that choice.

  The users of one pool are a state machine whose steps are the calls of \<open>Acquire\<close> and \<open>Release\<close> on
  any of their lazy slices; its invariant is that a buffer has one owner.
\<close>

section \<open>Pool and lazy slices\<close>

record Pool =
  pool_free :: "nat list"
  pool_fresh :: nat
  pool_bufs :: "nat \<Rightarrow> (nat \<times> nat) option"
  pool_len :: nat

definition MakePool :: "nat \<Rightarrow> Pool" where
  "MakePool sliceLen =
     \<lparr>pool_free = [], pool_fresh = 0, pool_bufs = Map.empty, pool_len = sliceLen\<rparr>"

definition pool_get :: "Pool \<Rightarrow> nat \<Rightarrow> nat \<times> Pool" where
  "pool_get p k =
     (if k < length (pool_free p) then
        (pool_free p ! k,
         p\<lparr>pool_free := take k (pool_free p) @ drop (Suc k) (pool_free p)\<rparr>)
      else
        (pool_fresh p,
         p\<lparr>pool_fresh := Suc (pool_fresh p),
           pool_bufs := (pool_bufs p)(pool_fresh p \<mapsto> (pool_len p, pool_len p))\<rparr>))"

definition pool_put :: "Pool \<Rightarrow> nat \<Rightarrow> Pool result" where
  "pool_put p b =
     (case pool_bufs p b of
        None \<Rightarrow> Panic ''invalid memory address or nil pointer dereference''
      | Some (l, c) \<Rightarrow>
          if l \<noteq> pool_len p \<or> c \<noteq> pool_len p then Panic ''Buffer length mismatch''
          else Ok (p\<lparr>pool_free := b # pool_free p\<rparr>))"

record LazySlice =
  lazy_slice :: "nat option"

definition newLazySlice :: LazySlice where
  "newLazySlice = \<lparr>lazy_slice = None\<rparr>"

text \<open>\<open>Acquire\<close> returns the buffer, the lazy slice and the pool.\<close>

definition Acquire :: "Pool \<Rightarrow> LazySlice \<Rightarrow> nat \<Rightarrow> (nat \<times> LazySlice \<times> Pool) result" where
  "Acquire p b k =
     (if lazy_slice b \<noteq> None then Panic ''buffer already acquired''
      else case pool_get p k of (s, p') \<Rightarrow> Ok (s, b\<lparr>lazy_slice := Some s\<rparr>, p'))"

definition Release :: "Pool \<Rightarrow> LazySlice \<Rightarrow> (LazySlice \<times> Pool) result" where
  "Release p b =
     (case lazy_slice b of
        None \<Rightarrow> Ok (b, p)
      | Some s \<Rightarrow> bind_result (pool_put p s) (\<lambda>p'. Ok (b\<lparr>lazy_slice := None\<rparr>, p')))"

section \<open>The users of a pool\<close>

text \<open>A state is the pool and the lazy slice of each user.\<close>

type_synonym pool_state = "Pool \<times> (nat \<Rightarrow> LazySlice)"

inductive pool_step :: "pool_state \<Rightarrow> pool_state \<Rightarrow> bool" where
  acquire: "Acquire p (h u) k = Ok (s, b, p') \<Longrightarrow> pool_step (p, h) (p', h(u := b))"
| release: "Release p (h u) = Ok (b, p') \<Longrightarrow> pool_step (p, h) (p', h(u := b))"

inductive pool_reachable :: "nat \<Rightarrow> pool_state \<Rightarrow> bool" for n where
  start: "pool_reachable n (MakePool n, \<lambda>_. newLazySlice)"
| step: "pool_reachable n st \<Longrightarrow> pool_step st st' \<Longrightarrow> pool_reachable n st'"

inductive_cases pool_stepE: "pool_step (p, h) (p', h')"

text \<open>Well-formedness of a pool, and the ownership invariant.\<close>

definition pool_wf :: "Pool \<Rightarrow> bool" where
  "pool_wf p \<longleftrightarrow>
     distinct (pool_free p) \<and> set (pool_free p) \<subseteq> {..<pool_fresh p} \<and>
     (\<forall>b. pool_bufs p b = (if b < pool_fresh p then Some (pool_len p, pool_len p) else None))"

definition owned_once :: "pool_state \<Rightarrow> bool" where
  "owned_once st \<longleftrightarrow>
     (case st of (p, h) \<Rightarrow>
        pool_wf p \<and>
        (\<forall>u b. lazy_slice (h u) = Some b \<longrightarrow> b < pool_fresh p \<and> b \<notin> set (pool_free p)) \<and>
        (\<forall>u v b. lazy_slice (h u) = Some b \<longrightarrow> lazy_slice (h v) = Some b \<longrightarrow> u = v))"

section \<open>Lemmas\<close>

lemma pool_wf_MakePool [simp]: "pool_wf (MakePool n)"
  by (simp add: pool_wf_def MakePool_def)

lemma pool_get_wf:
  assumes "pool_wf p" and "pool_get p k = (s, p')"
  shows "pool_wf p'" and "pool_len p' = pool_len p" and "s < pool_fresh p'"
    and "s \<notin> set (pool_free p')" and "set (pool_free p') \<subseteq> set (pool_free p)"
    and "pool_fresh p \<le> pool_fresh p'" and "s \<in> set (pool_free p) \<or> s = pool_fresh p"
    and "pool_bufs p' s = Some (pool_len p, pool_len p)"
proof -
  have *: "pool_wf p' \<and> pool_len p' = pool_len p \<and> s < pool_fresh p' \<and> s \<notin> set (pool_free p') \<and>
      set (pool_free p') \<subseteq> set (pool_free p) \<and> pool_fresh p \<le> pool_fresh p' \<and>
      (s \<in> set (pool_free p) \<or> s = pool_fresh p) \<and> pool_bufs p' s = Some (pool_len p, pool_len p)"
  proof (cases "k < length (pool_free p)")
    case True
    let ?xs = "pool_free p"
    have xs: "?xs = take k ?xs @ ?xs ! k # drop (Suc k) ?xs"
      using True by (rule id_take_nth_drop)
    have mem: "?xs ! k \<in> set ?xs" using True by simp
    have d: "distinct (take k ?xs @ ?xs ! k # drop (Suc k) ?xs)"
      using assms(1) xs by (metis pool_wf_def)
    have sub: "set (take k ?xs @ drop (Suc k) ?xs) \<subseteq> set ?xs"
      by (auto dest: in_set_takeD in_set_dropD)
    then have below: "set (take k ?xs @ drop (Suc k) ?xs) \<subseteq> {..<pool_fresh p}"
      using assms(1) unfolding pool_wf_def by blast
    have lt: "?xs ! k < pool_fresh p"
      using assms(1) mem by (auto simp: pool_wf_def)
    then have "pool_bufs p (?xs ! k) = Some (pool_len p, pool_len p)"
      using assms(1) by (auto simp: pool_wf_def)
    with True assms d sub below lt mem show ?thesis
      by (auto simp: pool_get_def pool_wf_def)
  next
    case False
    with assms show ?thesis
      by (auto simp: pool_get_def pool_wf_def less_Suc_eq)
  qed
  show "pool_wf p'" and "pool_len p' = pool_len p" and "s < pool_fresh p'"
    and "s \<notin> set (pool_free p')" and "set (pool_free p') \<subseteq> set (pool_free p)"
    and "pool_fresh p \<le> pool_fresh p'" and "s \<in> set (pool_free p) \<or> s = pool_fresh p"
    and "pool_bufs p' s = Some (pool_len p, pool_len p)"
    using * by blast+
qed

lemma pool_put_wf:
  assumes "pool_wf p" and "b < pool_fresh p" and "b \<notin> set (pool_free p)"
  shows "pool_put p b = Ok (p\<lparr>pool_free := b # pool_free p\<rparr>)"
    and "pool_wf (p\<lparr>pool_free := b # pool_free p\<rparr>)"
  using assms by (simp_all add: pool_put_def pool_wf_def)

lemma owned_once_acquire:
  assumes inv: "owned_once (p, h)" and ac: "Acquire p (h u) k = Ok (s, b, p')"
  shows "owned_once (p', h(u := b))"
proof -
  from ac have g: "pool_get p k = (s, p')" and b: "lazy_slice b = Some s"
    by (auto simp: Acquire_def split: if_splits prod.splits)
  note wf = pool_get_wf [OF _ g]
  from inv have "pool_wf p" by (simp add: owned_once_def)
  note wf = wf [OF this]
  have "lazy_slice (h v) \<noteq> Some s" for v
    using inv wf(7) unfolding owned_once_def by auto
  with inv wf b show ?thesis
    unfolding owned_once_def by (auto; meson less_le_trans subsetD)
qed

lemma owned_once_release:
  assumes inv: "owned_once (p, h)" and rl: "Release p (h u) = Ok (b, p')"
  shows "owned_once (p', h(u := b))"
proof (cases "lazy_slice (h u)")
  case None
  with rl have "b = h u" "p' = p" by (simp_all add: Release_def)
  with inv show ?thesis by (simp add: fun_upd_idem)
next
  case (Some s)
  from inv Some have s: "s < pool_fresh p" "s \<notin> set (pool_free p)" "pool_wf p"
    unfolding owned_once_def by auto
  note put = pool_put_wf [OF s(3,1,2)]
  from rl Some put(1) have "lazy_slice b = None" "p' = p\<lparr>pool_free := s # pool_free p\<rparr>"
    by (auto simp: Release_def)
  moreover have "lazy_slice (h v) \<noteq> Some s" if "v \<noteq> u" for v
    using inv Some that unfolding owned_once_def by blast
  ultimately show ?thesis
    using inv put(2) unfolding owned_once_def by (simp add: s) blast
qed

lemma pool_reachable_owned_once: "pool_reachable n st \<Longrightarrow> owned_once st"
proof (induction rule: pool_reachable.induct)
  case start
  show ?case by (simp add: owned_once_def newLazySlice_def)
next
  case (step st st')
  from step.hyps(2) show ?case
    using step.IH
    by cases (auto intro: owned_once_acquire owned_once_release)
qed

lemma Release_owned_Ok:
  assumes "owned_once (p, h)"
  shows "\<exists>b p'. Release p (h u) = Ok (b, p')"
proof (cases "lazy_slice (h u)")
  case (Some s)
  with assms have "s < pool_fresh p" "s \<notin> set (pool_free p)" "pool_wf p"
    unfolding owned_once_def by auto
  from pool_put_wf(1) [OF this(3,1,2)] Some show ?thesis
    by (simp add: Release_def)
qed (simp add: Release_def)

lemma pool_reachable_len: "pool_reachable n (p, h) \<Longrightarrow> pool_len p = n"
proof (induction "(p, h)" arbitrary: p h rule: pool_reachable.induct)
  case start
  then show ?case by (simp add: MakePool_def)
next
  case (step st)
  obtain q g where st: "st = (q, g)" by (cases st)
  from step.hyps(3) [unfolded st] have "pool_len p = pool_len q"
    by (rule pool_stepE)
      (auto simp: Acquire_def Release_def pool_get_def pool_put_def bind_result_iffs
        split: if_splits option.splits)
  with step.hyps(2) st show ?case by blast
qed

section \<open>Properties\<close>

text \<open>C22: Buffers are never shared. In every state that any number of users reach by \<open>Acquire\<close> and \<open>Release\<close> on one
  pool, two users never hold the same buffer, and no held buffer is in the pool for another \<open>Acquire\<close> to take.\<close>

theorem slicepool_exclusive:
  assumes "pool_reachable n (p, h)"
  shows "(\<forall>u v b. lazy_slice (h u) = Some b \<and> lazy_slice (h v) = Some b \<longrightarrow> u = v) \<and>
         (\<forall>u b. lazy_slice (h u) = Some b \<longrightarrow> b \<notin> set (pool_free p))"
  using pool_reachable_owned_once [OF assms] by (auto simp: owned_once_def)

theorem slicepool_exclusive_witness:
  "\<exists>p h. pool_reachable 8 (p, h) \<and> lazy_slice (h 1) = Some 0 \<and> 0 \<notin> set (pool_free p) \<and> lazy_slice (h 2) \<noteq> Some 0"
proof -
  let ?p = "snd (pool_get (MakePool 8) 0)"
  have "Acquire (MakePool 8) newLazySlice 0 = Ok (0, \<lparr>lazy_slice = Some 0\<rparr>, ?p)"
    by (simp add: Acquire_def newLazySlice_def pool_get_def MakePool_def)
  then have "pool_step (MakePool 8, \<lambda>_. newLazySlice) (?p, (\<lambda>_. newLazySlice)(1 := \<lparr>lazy_slice = Some 0\<rparr>))"
    using pool_step.acquire [of "MakePool 8" "\<lambda>_. newLazySlice" 1 0 0 "\<lparr>lazy_slice = Some 0\<rparr>" ?p] by simp
  then have r: "pool_reachable 8 (?p, (\<lambda>_. newLazySlice)(1 := \<lparr>lazy_slice = Some 0\<rparr>))"
    by (rule pool_reachable.step [OF pool_reachable.start])
  then have "0 \<notin> set (pool_free ?p)"
    using slicepool_exclusive [OF r] by (metis LazySlice.select_convs(1) fun_upd_same)
  with r show ?thesis
    by (intro exI [of _ ?p] exI [of _ "(\<lambda>_. newLazySlice)(1 := \<lparr>lazy_slice = Some 0\<rparr>)"] conjI)
      (simp_all add: newLazySlice_def)
qed

text \<open>The checks of the pool never fire. In every reachable state \<open>Release\<close> succeeds for every user, and
  \<open>Acquire\<close> by a user that holds no buffer succeeds with a buffer of the pool's length.\<close>

lemma slicepool_no_panic:
  assumes "pool_reachable n (p, h)"
  shows "(\<exists>b p'. Release p (h u) = Ok (b, p')) \<and>
         (lazy_slice (h u) = None \<longrightarrow>
            (\<exists>s b p'. Acquire p (h u) k = Ok (s, b, p') \<and> pool_bufs p' s = Some (n, n)))"
proof -
  have wf: "pool_wf p" and len: "pool_len p = n"
    using pool_reachable_owned_once [OF assms] pool_reachable_len [OF assms] by (simp_all add: owned_once_def)
  have "\<exists>s b p'. Acquire p (h u) k = Ok (s, b, p') \<and> pool_bufs p' s = Some (n, n)"
    if "lazy_slice (h u) = None"
    using that pool_get_wf(8) [OF wf] len by (cases "pool_get p k") (auto simp: Acquire_def)
  with Release_owned_Ok [OF pool_reachable_owned_once [OF assms]] show ?thesis by blast
qed

lemma slicepool_no_panic_witness:
  "\<exists>s b p'. Acquire (MakePool 8) newLazySlice 2 = Ok (s, b, p') \<and> pool_bufs p' s = Some (8, 8)"
  using slicepool_no_panic [OF pool_reachable.start [of 8], where k = 2] by (simp add: newLazySlice_def)

end
