(* ===== verification/SS_Stream_Reader.thy ===== *)
theory SS_Stream_Reader
  imports SS_Stream SS_Slicepool
begin

text \<open>
  Model of the reading half of \<^verbatim>\<open>shadowsocks/stream.go\<close>: \<open>chunkReader\<close>, which decrypts one chunk at a
  time into a pooled buffer, and \<open>readConverter\<close>, which adapts any \<^verbatim>\<open>ChunkReader\<close> to
  \<^verbatim>\<open>io.Reader\<close> and \<^verbatim>\<open>io.WriterTo\<close>.

  \<open>decode\<close> is the specification: the chunks that a byte sequence encodes and the error after the last
  one. The locale \<open>chunk_source\<close> is the interface \<^verbatim>\<open>ChunkReader\<close>: the lemmas on \<open>readConverter\<close> are
  proved in it, and \<open>chunkReader\<close> is an interpretation.
\<close>

section \<open>The chunk reader\<close>

text \<open>\<open>cr_pool\<close> is the package's buffer pool as this reader finds it.\<close>

record chunkReader =
  cr_reader :: reader
  cr_ssCipher :: Cipher
  cr_aead :: "aead option"
  cr_counter :: bytes
  payloadSizeBuf :: bytes
  cr_payload :: LazySlice
  cr_pool :: Pool

definition readBufPool :: "aeadSpec list \<Rightarrow> Pool" where
  "readBufPool specs = MakePool (payloadSizeMask + maxTagSize specs)"

definition newChunkReader :: "Pool \<Rightarrow> reader \<Rightarrow> Cipher \<Rightarrow> chunkReader" where
  "newChunkReader pool r c =
     \<lparr>cr_reader = r, cr_ssCipher = c, cr_aead = None, cr_counter = [], payloadSizeBuf = [],
      cr_payload = newLazySlice, cr_pool = pool\<rparr>"

definition eof_like :: "goerror \<Rightarrow> bool" where
  "eof_like e \<longleftrightarrow> e = EOF \<or> e = ErrUnexpectedEOF"

definition chunk_init :: "crypto \<Rightarrow> chunkReader \<Rightarrow> unit result \<times> chunkReader" where
  "chunk_init cr c =
     (case cr_aead c of
        Some A \<Rightarrow> (Ok (), c)
      | None \<Rightarrow>
          (case ReadFull (cr_reader c) (SaltSize (cr_ssCipher c)) of
             (salt, Some e, r') \<Rightarrow>
               (Fail (if eof_like e then e else ErrorWrap ''failed to read salt'' e),
                c\<lparr>cr_reader := r'\<rparr>)
           | (salt, None, r') \<Rightarrow>
               (case NewAEAD cr (cr_ssCipher c) salt of
                  Panic m \<Rightarrow> (Panic m, c\<lparr>cr_reader := r'\<rparr>)
                | Fail e \<Rightarrow> (Fail (ErrorWrap ''failed to create AEAD'' e), c\<lparr>cr_reader := r'\<rparr>)
                | Ok A \<Rightarrow>
                    (Ok (), c\<lparr>cr_reader := r', cr_aead := Some A,
                       cr_counter := make_bytes (NonceSize A),
                       payloadSizeBuf := make_bytes (2 + Overhead A)\<rparr>))))"

text \<open>\<open>readMessage\<close> on a buffer of length \<open>n\<close>: the buffer's contents on success, with the plaintext at
  its start. The counter advances whether or not decryption succeeds.\<close>

definition readMessage :: "aead \<Rightarrow> chunkReader \<Rightarrow> nat \<Rightarrow> bytes result \<times> chunkReader" where
  "readMessage A c n =
     (case ReadFull (cr_reader c) n of
        (d, Some e, r') \<Rightarrow> (Fail e, c\<lparr>cr_reader := r'\<rparr>)
      | (d, None, r') \<Rightarrow>
          (let c' = c\<lparr>cr_reader := r', cr_counter := increment (cr_counter c)\<rparr>
           in case Open A (cr_counter c) d of
                None \<Rightarrow> (Fail (ErrorNew ''failed to decrypt''), c')
              | Some p \<Rightarrow> (Ok (p @ drop (length p) d), c')))"

text \<open>The part of \<open>ReadChunk\<close> after the size block: \<open>k\<close> is the pool's choice of buffer.\<close>

definition readPayload :: "aead \<Rightarrow> nat \<Rightarrow> chunkReader \<Rightarrow> bytes result \<times> chunkReader" where
  "readPayload A k c =
     (let size = unat (Uint16 (payloadSizeBuf c) AND word_of_nat payloadSizeMask);
          sizeWithTag = size + Overhead A
      in case Acquire (cr_pool c) (cr_payload c) k of
           Panic m \<Rightarrow> (Panic m, c)
         | Fail e \<Rightarrow> (Fail e, c)
         | Ok (b, ls, pool') \<Rightarrow>
             (let c1 = c\<lparr>cr_payload := ls, cr_pool := pool'\<rparr>;
                  cap = (case pool_bufs pool' b of Some (l, cp) \<Rightarrow> cp | None \<Rightarrow> 0)
              in if cap < sizeWithTag then (Fail ErrShortBuffer, c1)
                 else case readMessage A c1 sizeWithTag of
                        (Ok pb, c2) \<Rightarrow> (Ok (take size pb), c2)
                      | (Panic m, c2) \<Rightarrow> (Panic m, c2)
                      | (Fail e, c2) \<Rightarrow>
                          (case Release (cr_pool c2) (cr_payload c2) of
                             Ok (ls', pool'') \<Rightarrow>
                               (Fail (if e = EOF then ErrUnexpectedEOF else e),
                                c2\<lparr>cr_payload := ls', cr_pool := pool''\<rparr>)
                           | Fail e' \<Rightarrow> (Fail e', c2)
                           | Panic m \<Rightarrow> (Panic m, c2))))"

definition ReadChunk :: "crypto \<Rightarrow> nat \<Rightarrow> chunkReader \<Rightarrow> bytes result \<times> chunkReader" where
  "ReadChunk cr k c =
     (case chunk_init cr c of
        (Panic m, c0) \<Rightarrow> (Panic m, c0)
      | (Fail e, c0) \<Rightarrow> (Fail e, c0)
      | (Ok _, c0) \<Rightarrow>
          (case Release (cr_pool c0) (cr_payload c0) of
             Panic m \<Rightarrow> (Panic m, c0)
           | Fail e \<Rightarrow> (Fail e, c0)
           | Ok (ls, pool') \<Rightarrow>
               (let c1 = c0\<lparr>cr_payload := ls, cr_pool := pool'\<rparr>
                in case cr_aead c1 of
                     None \<Rightarrow> (Panic ''invalid memory address or nil pointer dereference'', c1)
                   | Some A \<Rightarrow>
                       (case readMessage A c1 (length (payloadSizeBuf c1)) of
                          (Ok sb, c2) \<Rightarrow> readPayload A k (c2\<lparr>payloadSizeBuf := sb\<rparr>)
                        | (Panic m, c2) \<Rightarrow> (Panic m, c2)
                        | (Fail e, c2) \<Rightarrow>
                            (Fail (if eof_like e then e else ErrorWrap ''failed to read payload size'' e),
                             c2)))))"

section \<open>The converter\<close>

record 'c readConverter =
  rc_cr :: 'c
  leftover :: bytes

type_synonym 'c chunk_fn = "'c \<Rightarrow> bytes result \<times> 'c"

definition ensureLeftover :: "'c chunk_fn \<Rightarrow> 'c readConverter \<Rightarrow> unit result \<times> 'c readConverter" where
  "ensureLeftover rd c =
     (if leftover c \<noteq> [] then (Ok (), c)
      else case rd (rc_cr c) of
             (Ok payload, cr') \<Rightarrow> (Ok (), c\<lparr>rc_cr := cr', leftover := payload\<rparr>)
           | (Fail e, cr') \<Rightarrow> (Fail e, c\<lparr>rc_cr := cr', leftover := []\<rparr>)
           | (Panic m, cr') \<Rightarrow> (Panic m, c\<lparr>rc_cr := cr', leftover := []\<rparr>))"

text \<open>\<open>readConverter.Read\<close> with a buffer of length \<open>n\<close>.\<close>

definition conv_Read :: "'c chunk_fn \<Rightarrow> 'c readConverter \<Rightarrow> nat \<Rightarrow> bytes result \<times> 'c readConverter" where
  "conv_Read rd c n =
     (case ensureLeftover rd c of
        (Ok _, c') \<Rightarrow> (Ok (take n (leftover c')), c'\<lparr>leftover := drop n (leftover c')\<rparr>)
      | (Fail e, c') \<Rightarrow> (Fail e, c')
      | (Panic m, c') \<Rightarrow> (Panic m, c'))"

text \<open>\<open>readConverter.WriteTo\<close>, started with \<open>n0\<close> bytes written. Over an arbitrary chunk reader the loop may
  run forever, which is \<open>None\<close>.\<close>

partial_function (option) conv_WriteTo ::
  "'c chunk_fn \<Rightarrow> 'c readConverter \<Rightarrow> writer \<Rightarrow> nat \<Rightarrow>
     ((nat \<times> goerror option) result \<times> 'c readConverter \<times> writer) option" where
  "conv_WriteTo rd c w n0 =
     (case ensureLeftover rd c of
        (Panic m, c') \<Rightarrow> Some (Panic m, c', w)
      | (Fail e, c') \<Rightarrow> Some (Ok (n0, (if e = EOF then None else Some e)), c', w)
      | (Ok _, c') \<Rightarrow>
          (case Write w (leftover c') of
             (n, err, w') \<Rightarrow>
               (let c2 = c'\<lparr>leftover := drop n (leftover c')\<rparr>
                in case err of
                     Some e \<Rightarrow> Some (Ok (n0 + n, Some e), c2, w')
                   | None \<Rightarrow> conv_WriteTo rd c2 w' (n0 + n))))"

definition NewShadowsocksReader :: "Pool \<Rightarrow> reader \<Rightarrow> Cipher \<Rightarrow> chunkReader readConverter" where
  "NewShadowsocksReader pool r c = \<lparr>rc_cr = newChunkReader pool r c, leftover = []\<rparr>"

section \<open>Specification of decoding\<close>

text \<open>The error of \<^verbatim>\<open>io.ReadFull\<close> when only \<open>bs\<close> is left, and how \<open>ReadChunk\<close> reports it for each of its
  reads.\<close>

definition short_error :: "goerror \<Rightarrow> bytes \<Rightarrow> goerror" where
  "short_error fin bs = (if bs \<noteq> [] \<and> fin = EOF then ErrUnexpectedEOF else fin)"

definition size_error :: "goerror \<Rightarrow> goerror" where
  "size_error e = (if eof_like e then e else ErrorWrap ''failed to read payload size'' e)"

definition body_error :: "goerror \<Rightarrow> goerror" where
  "body_error e = (if e = EOF then ErrUnexpectedEOF else e)"

definition salt_error :: "goerror \<Rightarrow> goerror" where
  "salt_error e = (if eof_like e then e else ErrorWrap ''failed to read salt'' e)"

text \<open>\<open>decode A fin ctr bs\<close>: the chunks in \<open>bs\<close> from counter \<open>ctr\<close> on, and the error that ends them, when
  the stream ends with \<open>fin\<close>.\<close>

function decode :: "aead \<Rightarrow> goerror \<Rightarrow> bytes \<Rightarrow> bytes \<Rightarrow> bytes list \<times> goerror" where
  "decode A fin ctr bs =
     (let hl = 2 + Overhead A; hd = take hl bs; rest = drop hl bs in
      if length bs < hl then ([], size_error (short_error fin bs))
      else case Open A ctr hd of
        None \<Rightarrow> ([], size_error (ErrorNew ''failed to decrypt''))
      | Some sb \<Rightarrow>
          let size = unat (Uint16 (sb @ drop (length sb) hd) AND word_of_nat payloadSizeMask);
              bl = size + Overhead A in
          if length rest < bl then ([], body_error (short_error fin rest))
          else case Open A (increment ctr) (take bl rest) of
            None \<Rightarrow> ([], body_error (ErrorNew ''failed to decrypt''))
          | Some p \<Rightarrow>
              (case decode A fin (increment (increment ctr)) (drop bl rest) of
                 (ps, e) \<Rightarrow> (take size (p @ drop (length p) (take bl rest)) # ps, e)))"
  by pat_completeness auto
termination
  by (relation "measure (\<lambda>(A, fin, ctr, bs). length bs)") auto

declare decode.simps [simp del]

text \<open>What a reader will return: its chunks and the error after them.\<close>

definition chunks_left :: "crypto \<Rightarrow> chunkReader \<Rightarrow> bytes list \<times> goerror" where
  "chunks_left cr c =
     (let bs = contents (cr_reader c); fin = final_error (cr_reader c); n = SaltSize (cr_ssCipher c) in
      case cr_aead c of
        Some A \<Rightarrow> decode A fin (cr_counter c) bs
      | None \<Rightarrow>
          if length bs < n then ([], salt_error (short_error fin bs))
          else case NewAEAD cr (cr_ssCipher c) (take n bs) of
                 Ok A \<Rightarrow> decode A fin (make_bytes (NonceSize A)) (drop n bs)
               | _ \<Rightarrow> ([], fin))"

text \<open>The reader's invariant: it owns the buffer it holds, the pool's buffers fit every chunk, and its
  AEAD is one the cipher made.\<close>

definition chunk_inv :: "crypto \<Rightarrow> chunkReader \<Rightarrow> bool" where
  "chunk_inv cr c \<longleftrightarrow>
     cipher_ok cr (cr_ssCipher c) \<and> eof_chained (cr_reader c) \<and>
     pool_wf (cr_pool c) \<and> payloadSizeMask + 16 \<le> pool_len (cr_pool c) \<and>
     (\<forall>b. lazy_slice (cr_payload c) = Some b \<longrightarrow>
        b < pool_fresh (cr_pool c) \<and> b \<notin> set (pool_free (cr_pool c))) \<and>
     (cr_aead c = None \<longrightarrow> lazy_slice (cr_payload c) = None) \<and>
     (\<forall>A. cr_aead c = Some A \<longrightarrow>
        aead_ok A \<and> NonceSize A = 12 \<and> Overhead A = 16 \<and> length (cr_counter c) = 12 \<and>
        length (payloadSizeBuf c) = 18)"

section \<open>Lemmas on the chunk reader\<close>

lemma readMessage_spec:
  assumes ch: "eof_chained (cr_reader c)" and bs: "contents (cr_reader c) = bs"
    and fin: "final_error (cr_reader c) = fin" and ctr: "cr_counter c = ctr"
  obtains r' where "eof_chained r'" "final_error r' = fin" "contents r' = drop n bs"
    "readMessage A c n =
      (if length bs < n then (Fail (short_error fin bs), c\<lparr>cr_reader := r'\<rparr>)
       else case Open A ctr (take n bs) of
              None \<Rightarrow> (Fail (ErrorNew ''failed to decrypt''),
                       c\<lparr>cr_reader := r', cr_counter := increment ctr\<rparr>)
            | Some p \<Rightarrow> (Ok (p @ drop (length p) (take n bs)),
                       c\<lparr>cr_reader := r', cr_counter := increment ctr\<rparr>))"
proof (cases "length (contents (cr_reader c)) < n")
  case True
  obtain r' where "ReadFull (cr_reader c) n = (bs, Some (short_error fin bs), r')"
    "contents r' = []" "final_error r' = fin" "eof_chained r'"
    using ReadFull_short [OF ch True] unfolding short_error_def bs fin by metis
  with True bs show ?thesis
    by (intro that [of r']) (simp_all add: readMessage_def Let_def)
next
  case False
  then obtain r' where "ReadFull (cr_reader c) n = (take n bs, None, r')"
    "contents r' = drop n bs" "final_error r' = fin" "eof_chained r'"
    using ReadFull_enough [OF ch, of "take n bs" "drop n bs" n] bs fin by auto
  with False bs ctr show ?thesis
    by (intro that [of r']) (simp_all add: readMessage_def Let_def split: option.splits)
qed

text \<open>The salt: afterwards the reader has its AEAD, or fails with what \<open>chunks_left\<close> says.\<close>

lemma chunk_init_spec:
  assumes inv: "chunk_inv cr c"
  shows "(\<exists>c' A. chunk_init cr c = (Ok (), c') \<and> chunk_inv cr c' \<and> cr_aead c' = Some A \<and>
            chunks_left cr c' = chunks_left cr c) \<or>
         (\<exists>c' e. chunk_init cr c = (Fail e, c') \<and> chunk_inv cr c' \<and> chunks_left cr c = ([], e) \<and>
            cr_payload c' = cr_payload c \<and> cr_pool c' = cr_pool c \<and> cr_aead c = None)"
proof (cases "cr_aead c")
  case (Some A)
  with inv show ?thesis by (simp add: chunk_init_def)
next
  case None
  let ?r = "cr_reader c" and ?n = "SaltSize (cr_ssCipher c)"
  from inv have ch: "eof_chained ?r" and ok: "cipher_ok cr (cr_ssCipher c)"
    by (simp_all add: chunk_inv_def)
  show ?thesis
  proof (cases "length (contents ?r) < ?n")
    case True
    obtain r' where "ReadFull ?r ?n = (contents ?r, Some (short_error (final_error ?r) (contents ?r)), r')"
      "eof_chained r'"
      using ReadFull_short [OF ch True] unfolding short_error_def by metis
    with None True inv show ?thesis
      by (intro disjI2) (simp add: chunk_init_def chunks_left_def chunk_inv_def salt_error_def)
  next
    case False
    then obtain r' where r': "ReadFull ?r ?n = (take ?n (contents ?r), None, r')"
      "contents r' = drop ?n (contents ?r)" "final_error r' = final_error ?r" "eof_chained r'"
      using ReadFull_enough [OF ch, of "take ?n (contents ?r)" "drop ?n (contents ?r)" ?n] by auto
    obtain A where "NewAEAD cr (cr_ssCipher c) (take ?n (contents ?r)) = Ok A" "aead_ok A"
      "NonceSize A = 12" "Overhead A = 16"
      using cipher_okE [OF ok, where salt = "take ?n (contents ?r)"] by metis
    with None False r' inv show ?thesis
      by (intro disjI1) (simp add: chunk_init_def chunks_left_def chunk_inv_def)
  qed
qed

lemma Release_inv:
  assumes "chunk_inv cr c"
  obtains ls p where "Release (cr_pool c) (cr_payload c) = Ok (ls, p)" "lazy_slice ls = None"
    "chunk_inv cr (c\<lparr>cr_payload := ls, cr_pool := p\<rparr>)"
proof (cases "lazy_slice (cr_payload c)")
  case None
  with assms that [of "cr_payload c" "cr_pool c"] show ?thesis
    by (simp add: Release_def)
next
  case (Some b)
  with assms have b: "b < pool_fresh (cr_pool c)" "b \<notin> set (pool_free (cr_pool c))" "pool_wf (cr_pool c)"
    by (auto simp: chunk_inv_def)
  note put = pool_put_wf [OF b(3,1,2)]
  show ?thesis
    by (rule that [of "(cr_payload c)\<lparr>lazy_slice := None\<rparr>"
          "(cr_pool c)\<lparr>pool_free := b # pool_free (cr_pool c)\<rparr>"])
      (use assms put Some in \<open>auto simp: Release_def chunk_inv_def\<close>)
qed

lemma Acquire_inv:
  assumes "chunk_inv cr c" and "lazy_slice (cr_payload c) = None" and "cr_aead c \<noteq> None"
  obtains b ls p where "Acquire (cr_pool c) (cr_payload c) k = Ok (b, ls, p)"
    "pool_bufs p b = Some (pool_len (cr_pool c), pool_len (cr_pool c))"
    "chunk_inv cr (c\<lparr>cr_payload := ls, cr_pool := p\<rparr>)"
proof -
  obtain b p where g: "pool_get (cr_pool c) k = (b, p)"
    by (cases "pool_get (cr_pool c) k")
  from assms(1) have "pool_wf (cr_pool c)" by (simp add: chunk_inv_def)
  note wf = pool_get_wf [OF this g]
  show ?thesis
    by (rule that [of b "(cr_payload c)\<lparr>lazy_slice := Some b\<rparr>" p])
      (use assms g wf in \<open>simp_all add: Acquire_def chunk_inv_def\<close>)
qed

lemma size_bound: "unat (v AND word_of_nat payloadSizeMask :: 16 word) \<le> payloadSizeMask"
proof -
  have "v AND word_of_nat payloadSizeMask \<le> (word_of_nat payloadSizeMask :: 16 word)"
    by (rule word_and_le1)
  then show ?thesis
    by (simp add: word_le_nat_alt payloadSizeMask_def)
qed

lemma chunk_inv_reader: "chunk_inv cr c \<Longrightarrow> eof_chained r \<Longrightarrow> chunk_inv cr (c\<lparr>cr_reader := r\<rparr>)"
  by (simp add: chunk_inv_def)

lemma chunk_inv_counter:
  "chunk_inv cr c \<Longrightarrow> length ctr = length (cr_counter c) \<Longrightarrow> chunk_inv cr (c\<lparr>cr_counter := ctr\<rparr>)"
  by (auto simp: chunk_inv_def)

lemma chunk_inv_sizeBuf:
  "chunk_inv cr c \<Longrightarrow> length sb = length (payloadSizeBuf c) \<Longrightarrow> chunk_inv cr (c\<lparr>payloadSizeBuf := sb\<rparr>)"
  by (auto simp: chunk_inv_def)

text \<open>The buffer check never fails, so that \<open>readPayload\<close> is the read into an owned buffer, which an error
  gives back.\<close>

lemma readPayload_acquired:
  assumes inv: "chunk_inv cr c" and A: "cr_aead c = Some A" and free: "lazy_slice (cr_payload c) = None"
    and sz: "sz = unat (Uint16 (payloadSizeBuf c) AND word_of_nat payloadSizeMask)"
  obtains ls pool where "chunk_inv cr (c\<lparr>cr_payload := ls, cr_pool := pool\<rparr>)"
    "readPayload A k c =
      (case readMessage A (c\<lparr>cr_payload := ls, cr_pool := pool\<rparr>) (sz + Overhead A) of
         (Ok pb, c2) \<Rightarrow> (Ok (take sz pb), c2)
       | (Panic m, c2) \<Rightarrow> (Panic m, c2)
       | (Fail e, c2) \<Rightarrow>
           (case Release (cr_pool c2) (cr_payload c2) of
              Ok (ls', pool'') \<Rightarrow> (Fail (body_error e), c2\<lparr>cr_payload := ls', cr_pool := pool''\<rparr>)
            | Fail e' \<Rightarrow> (Fail e', c2)
            | Panic m \<Rightarrow> (Panic m, c2)))"
proof -
  obtain b ls pool where acq: "Acquire (cr_pool c) (cr_payload c) k = Ok (b, ls, pool)"
    "pool_bufs pool b = Some (pool_len (cr_pool c), pool_len (cr_pool c))"
    and inv1: "chunk_inv cr (c\<lparr>cr_payload := ls, cr_pool := pool\<rparr>)"
    using Acquire_inv [OF inv free, of k] A by auto
  have "\<not> pool_len (cr_pool c) < sz + Overhead A"
    using inv A size_bound [of "Uint16 (payloadSizeBuf c)"] by (auto simp: chunk_inv_def sz)
  with acq show ?thesis
    by (intro that [OF inv1])
      (simp add: readPayload_def Let_def body_error_def sz cong: prod.case_cong result.case_cong)
qed

lemma readPayload_spec:
  assumes inv: "chunk_inv cr c" and A: "cr_aead c = Some A" and free: "lazy_slice (cr_payload c) = None"
    and sz: "sz = unat (Uint16 (payloadSizeBuf c) AND word_of_nat payloadSizeMask)"
    and bl: "bl = sz + Overhead A"
    and bs: "contents (cr_reader c) = bs" and fin: "final_error (cr_reader c) = fin"
    and ctr: "cr_counter c = ctr"
  obtains c' where "chunk_inv cr c'" "cr_aead c' = Some A"
     "if length bs < bl then
        readPayload A k c = (Fail (body_error (short_error fin bs)), c') \<and> lazy_slice (cr_payload c') = None
      else case Open A ctr (take bl bs) of
        None \<Rightarrow> readPayload A k c = (Fail (body_error (ErrorNew ''failed to decrypt'')), c') \<and>
                lazy_slice (cr_payload c') = None
      | Some p \<Rightarrow> readPayload A k c = (Ok (take sz (p @ drop (length p) (take bl bs))), c') \<and>
                cr_counter c' = increment ctr \<and> contents (cr_reader c') = drop bl bs \<and>
                final_error (cr_reader c') = fin"
proof -
  obtain ls pool where inv1: "chunk_inv cr (c\<lparr>cr_payload := ls, cr_pool := pool\<rparr>)" and
    rp: "readPayload A k c =
      (case readMessage A (c\<lparr>cr_payload := ls, cr_pool := pool\<rparr>) (sz + Overhead A) of
         (Ok pb, c2) \<Rightarrow> (Ok (take sz pb), c2)
       | (Panic m, c2) \<Rightarrow> (Panic m, c2)
       | (Fail e, c2) \<Rightarrow>
           (case Release (cr_pool c2) (cr_payload c2) of
              Ok (ls', pool'') \<Rightarrow> (Fail (body_error e), c2\<lparr>cr_payload := ls', cr_pool := pool''\<rparr>)
            | Fail e' \<Rightarrow> (Fail e', c2)
            | Panic m \<Rightarrow> (Panic m, c2)))"
    by (rule readPayload_acquired [OF inv A free sz])
  let ?c1 = "c\<lparr>cr_payload := ls, cr_pool := pool\<rparr>"
  have c1: "eof_chained (cr_reader ?c1)" "contents (cr_reader ?c1) = bs"
    "final_error (cr_reader ?c1) = fin" "cr_counter ?c1 = cr_counter c"
    using inv by (simp_all add: chunk_inv_def bs fin)
  obtain r' where r': "eof_chained r'" "final_error r' = fin" "contents r' = drop bl bs" and
    msg: "readMessage A ?c1 bl =
      (if length bs < bl then (Fail (short_error fin bs), ?c1\<lparr>cr_reader := r'\<rparr>)
       else case Open A (cr_counter c) (take bl bs) of
              None \<Rightarrow> (Fail (ErrorNew ''failed to decrypt''),
                       ?c1\<lparr>cr_reader := r', cr_counter := increment (cr_counter c)\<rparr>)
            | Some p \<Rightarrow> (Ok (p @ drop (length p) (take bl bs)),
                       ?c1\<lparr>cr_reader := r', cr_counter := increment (cr_counter c)\<rparr>))"
    by (rule readMessage_spec [OF c1])
  let ?c2 = "?c1\<lparr>cr_reader := r'\<rparr>" and ?c3 = "?c1\<lparr>cr_reader := r', cr_counter := increment (cr_counter c)\<rparr>"
  have inv2: "chunk_inv cr ?c2" and inv3: "chunk_inv cr ?c3"
    using chunk_inv_reader [OF inv1 r'(1)]
      chunk_inv_counter [OF chunk_inv_reader [OF inv1 r'(1)], of "increment (cr_counter c)"] by simp_all
  show ?thesis
  proof (cases "length bs < bl")
    case True
    show ?thesis
      by (rule Release_inv [OF inv2], rule that, assumption) (use True rp msg A in \<open>simp_all add: bl\<close>)
  next
    case False
    show ?thesis
    proof (cases "Open A (cr_counter c) (take bl bs)")
      case None
      show ?thesis
        by (rule Release_inv [OF inv3], rule that, assumption) (use None False rp msg A ctr in \<open>simp_all add: bl\<close>)
    next
      case (Some p)
      with False rp msg inv3 r' A ctr that [of ?c3] show ?thesis by (simp add: bl)
    qed
  qed
qed

text \<open>The size half of a chunk.\<close>

lemma ReadChunk_header:
  assumes inv: "chunk_inv cr c" and A: "cr_aead c = Some A"
    and bs: "bs = contents (cr_reader c)" and fin: "fin = final_error (cr_reader c)"
  obtains c2 where "chunk_inv cr c2" "cr_aead c2 = Some A" "lazy_slice (cr_payload c2) = None"
    "final_error (cr_reader c2) = fin" "contents (cr_reader c2) = drop (2 + Overhead A) bs"
    "2 + Overhead A \<le> length bs \<longrightarrow> cr_counter c2 = increment (cr_counter c)"
    "ReadChunk cr k c =
      (if length bs < 2 + Overhead A then (Fail (size_error (short_error fin bs)), c2)
       else case Open A (cr_counter c) (take (2 + Overhead A) bs) of
         None \<Rightarrow> (Fail (size_error (ErrorNew ''failed to decrypt'')), c2)
       | Some sb \<Rightarrow>
           readPayload A k (c2\<lparr>payloadSizeBuf := sb @ drop (length sb) (take (2 + Overhead A) bs)\<rparr>))"
proof -
  obtain ls pool where rel: "Release (cr_pool c) (cr_payload c) = Ok (ls, pool)" "lazy_slice ls = None"
    and inv1: "chunk_inv cr (c\<lparr>cr_payload := ls, cr_pool := pool\<rparr>)"
    by (rule Release_inv [OF inv])
  define c1 where "c1 = c\<lparr>cr_payload := ls, cr_pool := pool\<rparr>"
  have len: "length (payloadSizeBuf c) = 2 + Overhead A"
    using inv A by (simp add: chunk_inv_def)
  have c1: "eof_chained (cr_reader c1)" "contents (cr_reader c1) = bs" "final_error (cr_reader c1) = fin"
    "cr_counter c1 = cr_counter c"
    using inv by (simp_all add: chunk_inv_def c1_def bs fin)
  obtain r' where r': "eof_chained r'" "final_error r' = fin" "contents r' = drop (2 + Overhead A) bs" and
    msg: "readMessage A c1 (2 + Overhead A) =
      (if length bs < 2 + Overhead A then (Fail (short_error fin bs), c1\<lparr>cr_reader := r'\<rparr>)
       else case Open A (cr_counter c) (take (2 + Overhead A) bs) of
              None \<Rightarrow> (Fail (ErrorNew ''failed to decrypt''),
                       c1\<lparr>cr_reader := r', cr_counter := increment (cr_counter c)\<rparr>)
            | Some p \<Rightarrow> (Ok (p @ drop (length p) (take (2 + Overhead A) bs)),
                       c1\<lparr>cr_reader := r', cr_counter := increment (cr_counter c)\<rparr>))"
    by (rule readMessage_spec [OF c1])
  have rc: "ReadChunk cr k c =
      (case readMessage A c1 (2 + Overhead A) of
         (Ok sb, c2) \<Rightarrow> readPayload A k (c2\<lparr>payloadSizeBuf := sb\<rparr>)
       | (Panic m, c2) \<Rightarrow> (Panic m, c2)
       | (Fail e, c2) \<Rightarrow> (Fail (size_error e), c2))"
    using rel(1) A len
    by (simp add: ReadChunk_def chunk_init_def c1_def size_error_def cong: prod.case_cong result.case_cong)
  let ?c2 = "if length bs < 2 + Overhead A then c1\<lparr>cr_reader := r'\<rparr>
             else c1\<lparr>cr_reader := r', cr_counter := increment (cr_counter c)\<rparr>"
  have "chunk_inv cr ?c2"
    using chunk_inv_reader [OF inv1 r'(1)]
      chunk_inv_counter [OF chunk_inv_reader [OF inv1 r'(1)], of "increment (cr_counter c)"]
    by (simp add: c1_def)
  then show ?thesis
    by (rule that) (use rc msg r' rel(2) A in \<open>auto simp: c1_def split: option.splits\<close>)
qed

text \<open>\<open>ReadChunk\<close> on a reader that has its AEAD.\<close>

lemma ReadChunk_ready:
  assumes inv: "chunk_inv cr c" and A: "cr_aead c = Some A" and left: "chunks_left cr c = (ps, e)"
  shows "\<exists>c'. chunk_inv cr c' \<and> cr_aead c' = Some A \<and>
    (case ps of
       [] \<Rightarrow> ReadChunk cr k c = (Fail e, c') \<and> lazy_slice (cr_payload c') = None
     | p # ps' \<Rightarrow> ReadChunk cr k c = (Ok p, c') \<and> chunks_left cr c' = (ps', e))"
proof -
  define bs fin hl where "bs = contents (cr_reader c)" and "fin = final_error (cr_reader c)"
    and "hl = 2 + Overhead A"
  obtain c2 where c2: "chunk_inv cr c2" "cr_aead c2 = Some A" "lazy_slice (cr_payload c2) = None"
    "final_error (cr_reader c2) = fin" "contents (cr_reader c2) = drop hl bs"
    "hl \<le> length bs \<longrightarrow> cr_counter c2 = increment (cr_counter c)" and
    rc: "ReadChunk cr k c =
      (if length bs < hl then (Fail (size_error (short_error fin bs)), c2)
       else case Open A (cr_counter c) (take hl bs) of
         None \<Rightarrow> (Fail (size_error (ErrorNew ''failed to decrypt'')), c2)
       | Some sb \<Rightarrow> readPayload A k (c2\<lparr>payloadSizeBuf := sb @ drop (length sb) (take hl bs)\<rparr>))"
    unfolding hl_def by (rule ReadChunk_header [OF inv A bs_def fin_def])
  have dec: "decode A fin (cr_counter c) bs = (ps, e)"
    using left A by (simp add: chunks_left_def bs_def fin_def)
  note decs = dec [unfolded decode.simps [of A fin _ bs], folded hl_def, unfolded Let_def]
  show ?thesis
  proof (cases "length bs < hl \<or> Open A (cr_counter c) (take hl bs) = None")
    case True
    with decs rc c2 show ?thesis
      by (intro exI [of _ c2]) (auto split: if_splits)
  next
    case False
    then obtain sb where sb: "Open A (cr_counter c) (take hl bs) = Some sb" and hl: "hl \<le> length bs"
      by auto
    have "length (take hl bs) = length sb + Overhead A"
      using inv A sb by (auto simp: chunk_inv_def dest: aead_ok_open)
    with hl inv A c2(1,2) have
      inv3: "chunk_inv cr (c2\<lparr>payloadSizeBuf := sb @ drop (length sb) (take hl bs)\<rparr>)"
      by (intro chunk_inv_sizeBuf) (simp_all add: chunk_inv_def hl_def)
    define sz where "sz = unat (Uint16 (sb @ drop (length sb) (take hl bs)) AND word_of_nat payloadSizeMask)"
    let ?c3 = "c2\<lparr>payloadSizeBuf := sb @ drop (length sb) (take hl bs)\<rparr>"
    have c3: "cr_aead ?c3 = Some A" "lazy_slice (cr_payload ?c3) = None"
      "sz = unat (Uint16 (payloadSizeBuf ?c3) AND word_of_nat payloadSizeMask)"
      "sz + Overhead A = sz + Overhead A" "contents (cr_reader ?c3) = drop hl bs"
      "final_error (cr_reader ?c3) = fin" "cr_counter ?c3 = increment (cr_counter c)"
      using c2 hl by (simp_all add: sz_def)
    have rp: "ReadChunk cr k c = readPayload A k ?c3"
      using rc sb hl by simp
    obtain c' where
      "chunk_inv cr c'" "cr_aead c' = Some A" and
      res: "if length (drop hl bs) < sz + Overhead A then
        ReadChunk cr k c = (Fail (body_error (short_error fin (drop hl bs))), c') \<and>
          lazy_slice (cr_payload c') = None
      else case Open A (increment (cr_counter c)) (take (sz + Overhead A) (drop hl bs)) of
        None \<Rightarrow> ReadChunk cr k c = (Fail (body_error (ErrorNew ''failed to decrypt'')), c') \<and>
                lazy_slice (cr_payload c') = None
      | Some p \<Rightarrow>
          ReadChunk cr k c = (Ok (take sz (p @ drop (length p) (take (sz + Overhead A) (drop hl bs)))), c') \<and>
          cr_counter c' = increment (increment (cr_counter c)) \<and>
          contents (cr_reader c') = drop (sz + Overhead A) (drop hl bs) \<and> final_error (cr_reader c') = fin"
      unfolding rp by (rule readPayload_spec [OF inv3 c3])
    with decs sb hl show ?thesis
      by (intro exI [of _ c'])
        (auto simp: chunks_left_def sz_def [symmetric] split: if_splits option.splits prod.splits)
  qed
qed

lemma ReadChunk_spec:
  assumes inv: "chunk_inv cr c" and left: "chunks_left cr c = (ps, e)"
  shows "\<exists>c'. chunk_inv cr c' \<and>
    (case ps of
       [] \<Rightarrow> ReadChunk cr k c = (Fail e, c') \<and> lazy_slice (cr_payload c') = None
     | p # ps' \<Rightarrow> ReadChunk cr k c = (Ok p, c') \<and> chunks_left cr c' = (ps', e))"
  using chunk_init_spec [OF inv]
proof
  assume "\<exists>c' A. chunk_init cr c = (Ok (), c') \<and> chunk_inv cr c' \<and> cr_aead c' = Some A \<and>
            chunks_left cr c' = chunks_left cr c"
  then obtain c0 A where c0: "chunk_init cr c = (Ok (), c0)" "chunk_inv cr c0" "cr_aead c0 = Some A"
    "chunks_left cr c0 = (ps, e)"
    using left by auto
  have eq: "ReadChunk cr k c = ReadChunk cr k c0"
    using c0(1,3) by (simp add: ReadChunk_def [of cr k c] ReadChunk_def [of cr k c0] chunk_init_def)
  show ?thesis
    unfolding eq using ReadChunk_ready [OF c0(2-4), of k] by blast
next
  assume "\<exists>c' e. chunk_init cr c = (Fail e, c') \<and> chunk_inv cr c' \<and> chunks_left cr c = ([], e) \<and>
            cr_payload c' = cr_payload c \<and> cr_pool c' = cr_pool c \<and> cr_aead c = None"
  with inv left show ?thesis
    by (auto simp: ReadChunk_def chunk_inv_def)
qed

section \<open>The interface ChunkReader\<close>

text \<open>A source of chunks: \<open>chunks\<close> are those it still has and \<open>end_error\<close> is what it returns after them.
  The lemmas on the converter hold for every such source.\<close>

locale chunk_source =
  fixes readChunk :: "'c chunk_fn"
    and chunks :: "'c \<Rightarrow> bytes list"
    and end_error :: "'c \<Rightarrow> goerror"
    and invar :: "'c \<Rightarrow> bool"
  assumes next_chunk: "invar c \<Longrightarrow> chunks c = p # ps \<Longrightarrow>
      \<exists>c'. readChunk c = (Ok p, c') \<and> invar c' \<and> chunks c' = ps \<and> end_error c' = end_error c"
    and no_chunk: "invar c \<Longrightarrow> chunks c = [] \<Longrightarrow> \<exists>c'. readChunk c = (Fail (end_error c), c')"
begin

definition undelivered :: "'c readConverter \<Rightarrow> bytes" where
  "undelivered c = leftover c @ concat (chunks (rc_cr c))"

lemma ensureLeftover_Ok:
  assumes "invar (rc_cr c)" and "leftover c \<noteq> [] \<or> chunks (rc_cr c) \<noteq> []"
  obtains c' where "ensureLeftover readChunk c = (Ok (), c')" "invar (rc_cr c')"
    "undelivered c' = undelivered c" "end_error (rc_cr c') = end_error (rc_cr c)"
    "leftover c = [] \<longrightarrow> chunks (rc_cr c) = leftover c' # chunks (rc_cr c')"
    "leftover c \<noteq> [] \<longrightarrow> c' = c"
proof (cases "leftover c")
  case Nil
  with assms(2) obtain p ps where "chunks (rc_cr c) = p # ps"
    by (cases "chunks (rc_cr c)") auto
  with next_chunk [OF assms(1) this] Nil that show ?thesis
    by (fastforce simp: ensureLeftover_def undelivered_def)
next
  case (Cons b bs)
  with assms(1) that [of c] show ?thesis by (simp add: ensureLeftover_def)
qed

lemma ensureLeftover_Fail:
  assumes "invar (rc_cr c)" and "leftover c = []" and "chunks (rc_cr c) = []"
  obtains c' where "ensureLeftover readChunk c = (Fail (end_error (rc_cr c)), c')"
  using no_chunk [OF assms(1,3)] assms(2) that by (auto simp: ensureLeftover_def)

text \<open>\<open>Read\<close> hands over the next bytes in order; it fails only at the end, with the source's error.\<close>

lemma conv_Read_spec:
  assumes "invar (rc_cr c)"
  shows "(\<exists>d c'. conv_Read readChunk c n = (Ok d, c') \<and> length d \<le> n \<and> invar (rc_cr c') \<and>
            undelivered c = d @ undelivered c' \<and> end_error (rc_cr c') = end_error (rc_cr c)) \<or>
         (\<exists>c'. conv_Read readChunk c n = (Fail (end_error (rc_cr c)), c') \<and> undelivered c = [])"
proof (cases "leftover c = [] \<and> chunks (rc_cr c) = []")
  case True
  then obtain c' where "ensureLeftover readChunk c = (Fail (end_error (rc_cr c)), c')"
    using ensureLeftover_Fail [OF assms] by blast
  with True show ?thesis
    by (intro disjI2) (simp add: conv_Read_def undelivered_def)
next
  case False
  then obtain c' where "ensureLeftover readChunk c = (Ok (), c')" "invar (rc_cr c')"
    "undelivered c' = undelivered c" "end_error (rc_cr c') = end_error (rc_cr c)"
    using ensureLeftover_Ok [OF assms] by blast
  then show ?thesis
    by (intro disjI1) (auto simp: conv_Read_def undelivered_def simp flip: append_assoc)
qed

text \<open>\<open>WriteTo\<close> returns, whatever the writer does; into a writer that accepts everything it delivers all
  that is left and reports a clean end as success.\<close>

lemma conv_WriteTo_writes:
  assumes "invar (rc_cr c)"
  shows "\<exists>n err c' w' d. conv_WriteTo readChunk c w n0 = Some (Ok (n0 + n, err), c', w') \<and>
      concat (wout w') = concat (wout w) @ d \<and> length d = n \<and> (\<exists>rest. undelivered c = d @ rest) \<and>
      (writes_all w \<longrightarrow> d = undelivered c \<and>
         err = (if end_error (rc_cr c) = EOF then None else Some (end_error (rc_cr c))))"
  using assms
proof (induction "length (chunks (rc_cr c)) + (if leftover c = [] then 0 else 1)" arbitrary: c w n0
    rule: less_induct)
  case less
  show ?case
  proof (cases "leftover c = [] \<and> chunks (rc_cr c) = []")
    case True
    then obtain c' where "ensureLeftover readChunk c = (Fail (end_error (rc_cr c)), c')"
      using ensureLeftover_Fail [OF less.prems] by blast
    with True show ?thesis
      by (auto simp: conv_WriteTo.simps [of readChunk c] undelivered_def)
  next
    case False
    then obtain c1 where c1: "ensureLeftover readChunk c = (Ok (), c1)" "invar (rc_cr c1)"
      "undelivered c1 = undelivered c" "end_error (rc_cr c1) = end_error (rc_cr c)"
      "leftover c = [] \<longrightarrow> chunks (rc_cr c) = leftover c1 # chunks (rc_cr c1)"
      "leftover c \<noteq> [] \<longrightarrow> c1 = c"
      using ensureLeftover_Ok [OF less.prems] by blast
    obtain n err w1 where wr: "Write w (leftover c1) = (n, err, w1)"
      by (cases "Write w (leftover c1)")
    note wb = Write_bound [OF wr]
    show ?thesis
    proof (cases err)
      case None
      define c2 where "c2 = c1\<lparr>leftover := drop n (leftover c1)\<rparr>"
      have n: "n = length (leftover c1)"
        using wr None by (auto simp: Write_def split: list.splits option.splits)
      have all: "writes_all w \<Longrightarrow> writes_all w1"
        using wr by (auto simp: Write_def writes_all_def split: list.splits option.splits)
      have "length (chunks (rc_cr c2)) + (if leftover c2 = [] then 0 else 1)
          < length (chunks (rc_cr c)) + (if leftover c = [] then 0 else 1)"
        using c1(5,6) n by (cases "leftover c = []") (simp_all add: c2_def)
      from less.hyps [OF this, of w1 "n0 + n"] c1(2) obtain m err' c' w' d where
        IH: "conv_WriteTo readChunk c2 w1 (n0 + n) = Some (Ok (n0 + n + m, err'), c', w')"
        "concat (wout w') = concat (wout w1) @ d" "length d = m" "\<exists>rest. undelivered c2 = d @ rest"
        "writes_all w1 \<longrightarrow> d = undelivered c2 \<and>
           err' = (if end_error (rc_cr c2) = EOF then None else Some (end_error (rc_cr c2)))"
        by (auto simp: c2_def)
      have "undelivered c = leftover c1 @ undelivered c2"
        using c1(3) n by (simp add: c2_def undelivered_def)
      moreover have "conv_WriteTo readChunk c w n0 = conv_WriteTo readChunk c2 w1 (n0 + n)"
        using c1(1) wr None by (simp add: conv_WriteTo.simps [of readChunk c] c2_def)
      moreover have "end_error (rc_cr c2) = end_error (rc_cr c)"
        using c1(4) by (simp add: c2_def)
      ultimately show ?thesis
        using IH wb n all
        by (intro exI [of _ "n + m"] exI [of _ err'] exI [of _ c'] exI [of _ w']
              exI [of _ "leftover c1 @ d"]) (auto simp: add.assoc)
    next
      case (Some e)
      then have "\<not> writes_all w"
        using wr by (auto simp: Write_def writes_all_def split: list.splits option.splits)
      moreover have "undelivered c = take n (leftover c1) @ drop n (leftover c1) @ concat (chunks (rc_cr c1))"
        using c1(3) by (simp add: undelivered_def flip: append_assoc)
      ultimately show ?thesis
        using c1(1) wr Some wb
        by (intro exI [of _ n] exI [of _ "Some e"] exI [of _ "c1\<lparr>leftover := drop n (leftover c1)\<rparr>"]
              exI [of _ w1] exI [of _ "take n (leftover c1)"])
          (auto simp: conv_WriteTo.simps [of readChunk c])
    qed
  qed
qed

end

text \<open>The chunk reader is such a source, whichever buffers the pool hands out.\<close>

interpretation ss_chunks: chunk_source "\<lambda>c. ReadChunk cr (pick c) c" "\<lambda>c. fst (chunks_left cr c)"
  "\<lambda>c. snd (chunks_left cr c)" "chunk_inv cr" for cr :: crypto and pick :: "chunkReader \<Rightarrow> nat"
proof unfold_locales
  fix c p ps
  assume "chunk_inv cr c" and "fst (chunks_left cr c) = p # ps"
  then show "\<exists>c'. ReadChunk cr (pick c) c = (Ok p, c') \<and> chunk_inv cr c' \<and>
      fst (chunks_left cr c') = ps \<and> snd (chunks_left cr c') = snd (chunks_left cr c)"
    using ReadChunk_spec [of cr c "p # ps" _ "pick c"] by (cases "chunks_left cr c") auto
next
  fix c
  assume "chunk_inv cr c" and "fst (chunks_left cr c) = []"
  then show "\<exists>c'. ReadChunk cr (pick c) c = (Fail (snd (chunks_left cr c)), c')"
    using ReadChunk_spec [of cr c "[]" _ "pick c"] by (cases "chunks_left cr c") auto
qed

section \<open>Decoding what was encoded\<close>

lemma size_roundtrip:
  "length p \<le> payloadSizeMask \<Longrightarrow>
     unat (word_of_nat (length p) AND word_of_nat payloadSizeMask :: 16 word) = length p"
proof -
  assume p: "length p \<le> payloadSizeMask"
  have "word_of_nat payloadSizeMask = (mask 14 :: 16 word)"
    by (simp add: payloadSizeMask_def mask_eq_exp_minus_1)
  moreover have "take_bit 14 (length p) = length p"
    using p by (simp add: take_bit_nat_eq_self payloadSizeMask_def)
  ultimately show ?thesis
    by (simp add: unsigned_take_bit_eq unsigned_of_nat flip: take_bit_eq_mask)
qed

text \<open>Decoding after a well-formed size block \<open>h\<close>.\<close>

lemma decode_sized:
  assumes "length h = 2 + Overhead A" and "Open A ctr h = Some (PutUint16 (word_of_nat (length p)))"
    and "length p \<le> payloadSizeMask"
  shows "decode A fin ctr (h @ rest) =
    (if length rest < length p + Overhead A then ([], body_error (short_error fin rest))
     else case Open A (increment ctr) (take (length p + Overhead A) rest) of
       None \<Rightarrow> ([], body_error (ErrorNew ''failed to decrypt''))
     | Some q \<Rightarrow>
         (case decode A fin (increment (increment ctr)) (drop (length p + Overhead A) rest) of
            (ps, e) \<Rightarrow>
              (take (length p) (q @ drop (length q) (take (length p + Overhead A) rest)) # ps, e)))"
  using assms size_roundtrip [OF assms(3)]
  by (simp add: decode.simps [of A fin ctr "h @ rest"] Let_def cong: option.case_cong)

text \<open>Decoding a sequence of chunks, whatever follows it.\<close>

lemma decode_frames:
  assumes A: "aead_ok A" and ps: "list_all (\<lambda>p. length p \<le> payloadSizeMask) ps"
  shows "decode A fin (nonce (NonceSize A) k) (frames A k ps @ rest) =
    (case decode A fin (nonce (NonceSize A) (k + 2 * length ps)) rest of (qs, e) \<Rightarrow> (ps @ qs, e))"
  using ps
proof (induction ps arbitrary: k)
  case Nil
  then show ?case by simp
next
  case (Cons p ps)
  let ?h = "Seal A (nonce (NonceSize A) k) (PutUint16 (word_of_nat (length p)))"
  have "decode A fin (nonce (NonceSize A) k) (frames A k (p # ps) @ rest) =
      (case decode A fin (nonce (NonceSize A) (Suc (Suc k))) (frames A (Suc (Suc k)) ps @ rest) of
         (qs, e) \<Rightarrow> (p # qs, e))"
    using decode_sized [of ?h A "nonce (NonceSize A) k" p] A Cons.prems
    by (simp add: length_Seal Open_Seal)
  with Cons show ?case
    by (simp split: prod.splits)
qed

lemma decode_frames_EOF:
  assumes "aead_ok A" and "list_all (\<lambda>p. length p \<le> payloadSizeMask) ps"
  shows "decode A EOF (nonce (NonceSize A) k) (frames A k ps) = (ps, EOF)"
proof -
  have "decode A EOF ctr [] = ([], EOF)" for ctr
    by (simp add: decode.simps [of A _ _ "[]"] size_error_def short_error_def eof_like_def)
  with decode_frames [OF assms, of EOF k "[]"] show ?thesis by simp
qed

text \<open>Cutting the stream inside a chunk gives the chunks before the cut and \<open>ErrUnexpectedEOF\<close>.\<close>

lemma decode_cut:
  assumes A: "aead_ok A" and p: "length p \<le> payloadSizeMask"
    and n: "0 < n" "n < length (frames A k [p])"
  shows "decode A EOF (nonce (NonceSize A) k) (take n (frames A k [p])) = ([], ErrUnexpectedEOF)"
proof -
  let ?h = "Seal A (nonce (NonceSize A) k) (PutUint16 (word_of_nat (length p)))"
  let ?b = "Seal A (nonce (NonceSize A) (Suc k)) p"
  have lh: "length ?h = 2 + Overhead A" and lb: "length ?b = length p + Overhead A"
    using A by (simp_all add: length_Seal)
  show ?thesis
  proof (cases "n < 2 + Overhead A")
    case True
    with n lh have "take n (frames A k [p]) = take n ?h" by simp
    moreover have "decode A EOF (nonce (NonceSize A) k) (take n ?h) = ([], ErrUnexpectedEOF)"
      using n True lh
      by (auto simp: decode.simps [of A _ _ "take n ?h"] size_error_def short_error_def eof_like_def)
    ultimately show ?thesis by metis
  next
    case False
    with n lh lb have "take n (frames A k [p]) = ?h @ take (n - (2 + Overhead A)) ?b"
      "length (take (n - (2 + Overhead A)) ?b) < length p + Overhead A" by simp_all
    with decode_sized [of ?h A "nonce (NonceSize A) k" p] A p lh show ?thesis
      by (simp add: Open_Seal body_error_def short_error_def)
  qed
qed

lemma decode_bounded: "decode A fin ctr bs = (ps, e) \<Longrightarrow> p \<in> set ps \<Longrightarrow> length p \<le> payloadSizeMask"
proof (induction "length bs" arbitrary: ctr bs ps e rule: less_induct)
  case less
  let ?h = "take (2 + Overhead A) bs" and ?r = "drop (2 + Overhead A) bs"
  from less.prems(2) have "ps \<noteq> []" by auto
  with less.prems(1) obtain sb where long: "\<not> length bs < 2 + Overhead A" and sb: "Open A ctr ?h = Some sb"
    unfolding decode.simps [of A fin ctr bs] Let_def by (auto split: if_split_asm option.split_asm)
  define n where n: "n = unat (Uint16 (sb @ drop (length sb) ?h) AND word_of_nat payloadSizeMask)"
  have dec: "decode A fin ctr bs =
      (if length ?r < n + Overhead A then ([], body_error (short_error fin ?r))
       else case Open A (increment ctr) (take (n + Overhead A) ?r) of
            None \<Rightarrow> ([], body_error (ErrorNew ''failed to decrypt''))
          | Some p \<Rightarrow>
              (case decode A fin (increment (increment ctr)) (drop (n + Overhead A) ?r) of
                 (ps, e) \<Rightarrow> (take n (p @ drop (length p) (take (n + Overhead A) ?r)) # ps, e)))"
    using long sb by (simp only: decode.simps [of A fin ctr bs] Let_def n if_False option.case)
  with less.prems(1) \<open>ps \<noteq> []\<close> obtain q where
    ps: "ps = take n (q @ drop (length q) (take (n + Overhead A) ?r)) #
      fst (decode A fin (increment (increment ctr)) (drop (n + Overhead A) ?r))"
    by (cases "decode A fin (increment (increment ctr)) (drop (n + Overhead A) ?r)")
      (auto simp del: take_append drop_drop split: if_split_asm option.split_asm)
  have "n \<le> payloadSizeMask" unfolding n by (rule size_bound)
  moreover have "length p \<le> payloadSizeMask"
    if "p \<in> set (fst (decode A fin (increment (increment ctr)) (drop (n + Overhead A) ?r)))"
    using less.hyps [of "drop (n + Overhead A) ?r"] long that
    by (cases "decode A fin (increment (increment ctr)) (drop (n + Overhead A) ?r)") auto
  ultimately show ?case using less.prems(2) unfolding ps by auto
qed

lemma chunks_left_bounded: "chunks_left cr c = (ps, e) \<Longrightarrow> p \<in> set ps \<Longrightarrow> length p \<le> payloadSizeMask"
  by (auto simp: chunks_left_def Let_def split: option.splits if_splits result.splits dest: decode_bounded)

section \<open>Properties\<close>

text \<open>C30: \<open>ReadChunk\<close> is total and clean. From any state that satisfies the reader's invariant it returns a chunk or
  an error and keeps the invariant; it never panics and never returns \<open>ErrShortBuffer\<close> of its own buffer check
  (an error is the one \<open>chunks_left\<close> predicts), and after an error it holds no pooled buffer.\<close>

theorem ReadChunk_total:
  assumes "chunk_inv cr c"
  shows "case ReadChunk cr k c of
      (Ok p, c') \<Rightarrow> chunk_inv cr c' \<and> length p \<le> payloadSizeMask \<and> chunks_left cr c = (p # fst (chunks_left cr c'), snd (chunks_left cr c'))
    | (Fail e, c') \<Rightarrow> chunk_inv cr c' \<and> chunks_left cr c = ([], e) \<and> lazy_slice (cr_payload c') = None
    | (Panic m, c') \<Rightarrow> False"
proof (cases "chunks_left cr c")
  case (Pair ps e)
  from ReadChunk_spec [OF assms Pair, of k] chunks_left_bounded [OF Pair] Pair show ?thesis
    by (cases ps) auto
qed

theorem ReadChunk_total_witness:
  "fst (ReadChunk toy_crypto 0 (newChunkReader (MakePool 16399) (BytesReader []) toy_cipher)) = Fail EOF"
proof -
  have inv: "chunk_inv toy_crypto (newChunkReader (MakePool 16399) (BytesReader []) toy_cipher)"
    using toy_cipher_ok
    by (simp add: chunk_inv_def newChunkReader_def newLazySlice_def payloadSizeMask_def MakePool_def pool_wf_def)
  have "chunks_left toy_crypto (newChunkReader (MakePool 16399) (BytesReader []) toy_cipher) = ([], EOF)"
    by (simp add: chunks_left_def newChunkReader_def salt_error_def short_error_def eof_like_def)
  with ReadChunk_total [OF inv, of 0] show ?thesis
    by (auto split: prod.splits result.splits)
qed

end
