(* ===== verification/SS_Stream_Session.thy ===== *)
theory SS_Stream_Session
  imports SS_Stream_Writer SS_Stream_Reader
begin

text \<open>
  The two halves of \<^verbatim>\<open>shadowsocks/stream.go\<close> together. A session of a writer is a sequence of
  calls of its methods \<open>Write\<close>, \<open>LazyWrite\<close>, \<open>Flush\<close> and \<open>ReadFrom\<close>; its abstraction is the plaintext
  given so far, which is what the chunks sent so far and the queued bytes make up. A reader of the other
  end sees the bytes sent in segments of any size.
\<close>

section \<open>Sessions of a writer\<close>

datatype writer_op =
    OpWrite bool bytes
  | OpLazyWrite bytes
  | OpFlush
  | OpReadFrom bool reader

fun op_input :: "writer_op \<Rightarrow> bytes" where
  "op_input (OpWrite race p) = p"
| "op_input (OpLazyWrite p) = p"
| "op_input OpFlush = []"
| "op_input (OpReadFrom race r) = contents r"

fun op_ok :: "writer_op \<Rightarrow> bool" where
  "op_ok (OpReadFrom race r) = eof_chained r"
| "op_ok _ = True"

fun writer_exec :: "crypto \<Rightarrow> entropy \<Rightarrow> writer_op \<Rightarrow> Writer \<Rightarrow> Writer result" where
  "writer_exec cr ent (OpWrite race p) sw =
     bind_result (Writer_Write cr ent race sw p) (\<lambda>(n, err, sw'). Ok sw')"
| "writer_exec cr ent (OpLazyWrite p) sw =
     bind_result (LazyWrite cr ent sw p) (\<lambda>(n, err, sw'). Ok sw')"
| "writer_exec cr ent OpFlush sw = bind_result (Flush sw) (\<lambda>(err, sw'). Ok sw')"
| "writer_exec cr ent (OpReadFrom race r) sw =
     bind_result (ReadFrom cr ent race sw r) (\<lambda>(n, err, sw', r'). Ok sw')"

fun writer_run :: "crypto \<Rightarrow> entropy \<Rightarrow> writer_op list \<Rightarrow> Writer \<Rightarrow> Writer result" where
  "writer_run cr ent [] sw = Ok sw"
| "writer_run cr ent (x # xs) sw = bind_result (writer_exec cr ent x sw) (writer_run cr ent xs)"

lemma writer_run_append:
  "writer_run cr ent (xs @ ys) sw = bind_result (writer_run cr ent xs sw) (writer_run cr ent ys)"
proof (induction xs arbitrary: sw)
  case (Cons x xs)
  then show ?case by (cases "writer_exec cr ent x sw") simp_all
qed simp

text \<open>An initialised writer that was given the plaintext \<open>text\<close>.\<close>

definition in_session :: "aead \<Rightarrow> bytes \<Rightarrow> bytes \<Rightarrow> Writer \<Rightarrow> bool" where
  "in_session A salt plain sw \<longleftrightarrow>
     (\<exists>ps. writer_inv A salt ps sw \<and> (needFlush sw \<or> pending sw = 0) \<and> concat ps @ queued A sw = plain)"

lemma Flush_in_session:
  assumes "in_session A salt plain sw" and "nonces_suffice A plain"
  shows "\<exists>sw'. Flush sw = Ok (None, sw') \<and> in_session A salt plain sw' \<and> pending sw' = 0"
proof (cases "needFlush sw")
  case True
  from assms obtain ps where ps: "writer_inv A salt ps sw" "concat ps @ queued A sw = plain"
    by (auto simp: in_session_def)
  with assms(2) have "nonces_suffice A (concat ps @ queued A sw)" by simp
  from flush_sends [OF ps(1) this] ps(2) obtain sw' ps' where "flush A sw = (None, sw')"
    "writer_inv A salt ps' sw'" "concat ps' = plain" "pending sw' = 0"
    by metis
  moreover have "sw_aead sw = Some A" using ps(1) by (simp add: writer_inv_def)
  ultimately show ?thesis
    using True by (auto simp: Flush_def in_session_def queued_empty)
qed (use assms in \<open>auto simp: Flush_def in_session_def\<close>)

lemma LazyWrite_in_session:
  assumes "in_session A salt plain sw" and "nonces_suffice A (plain @ p)"
  shows "\<exists>sw'. LazyWrite cr ent sw p = Ok (length p, None, sw') \<and> in_session A salt (plain @ p) sw'"
proof -
  from assms obtain ps where ps: "writer_inv A salt ps sw" "plain = concat ps @ queued A sw"
    by (auto simp: in_session_def)
  with assms(2) have "nonces_suffice A (concat ps @ queued A sw @ p)" by simp
  from lazy_loop_sends [OF ps(1) this, of 0] ps writer_init_again [OF ps(1), of cr ent]
  show ?thesis
    by (auto simp: LazyWrite_def in_session_def writer_inv_def)
qed

lemma ReadFrom_in_session:
  assumes "in_session A salt plain sw" and "nonces_suffice A (plain @ contents r)" and "eof_chained r"
  shows "\<exists>err sw' r'. ReadFrom cr ent race sw r = Ok (length (contents r), err, sw', r') \<and>
    in_session A salt (plain @ contents r) sw'"
proof -
  from assms obtain ps where ps: "writer_inv A salt ps sw" "plain = concat ps @ queued A sw"
    "needFlush sw \<or> pending sw = 0"
    by (auto simp: in_session_def)
  with assms(2) have "nonces_suffice A (concat ps @ queued A sw @ contents r)" by simp
  from ReadFrom_sends [OF ps(1,3) assms(3) this, of cr ent race] ps(2) show ?thesis
    by (fastforce simp: in_session_def queued_empty)
qed

lemma writer_exec_in_session:
  assumes "in_session A salt plain sw" and "op_ok x" and "nonces_suffice A (plain @ op_input x)"
  shows "\<exists>sw'. writer_exec cr ent x sw = Ok sw' \<and> in_session A salt (plain @ op_input x) sw'"
proof (cases x)
  case (OpWrite race p)
  with assms ReadFrom_in_session [OF assms(1), of "BytesReader p" cr ent race] show ?thesis
    by (auto simp: Writer_Write_def)
next
  case (OpReadFrom race r)
  with assms ReadFrom_in_session [OF assms(1), of r cr ent race] show ?thesis by auto
next
  case (OpLazyWrite p)
  with assms LazyWrite_in_session [OF assms(1), of p cr ent] show ?thesis by auto
next
  case OpFlush
  with assms Flush_in_session [OF assms(1)] show ?thesis by auto
qed

lemma writer_run_in_session:
  assumes "in_session A salt plain sw" and "list_all op_ok xs"
    and "nonces_suffice A (plain @ concat (map op_input xs))"
  shows "\<exists>sw'. writer_run cr ent xs sw = Ok sw' \<and> in_session A salt (plain @ concat (map op_input xs)) sw'"
  using assms
proof (induction xs arbitrary: plain sw)
  case (Cons x xs)
  then have "nonces_suffice A (plain @ op_input x)" by (simp add: nonces_suffice_def)
  with writer_exec_in_session [OF Cons.prems(1)] Cons.prems(2) obtain sw1 where
    "writer_exec cr ent x sw = Ok sw1" "in_session A salt (plain @ op_input x) sw1"
    by fastforce
  with Cons.IH [of "plain @ op_input x" sw1] Cons.prems show ?case by simp
qed simp

text \<open>A new writer stays as it is until it is first written to, then it is in session under its salt.\<close>

lemma writer_run_fresh:
  assumes ok: "cipher_ok cr (ssCipher sw)" and fresh: "fresh_writer g sw"
    and salt: "GetSalt cr g ent (make_bytes (SaltSize (ssCipher sw))) = Ok salt"
    and A: "NewAEAD cr (ssCipher sw) salt = Ok A"
    and xs: "list_all op_ok xs" "length (concat (map op_input xs)) < 2 ^ 95"
  shows "\<exists>sw'. writer_run cr ent xs sw = Ok sw' \<and>
    (in_session A salt (concat (map op_input xs)) sw' \<or> sw' = sw \<and> concat (map op_input xs) = [])"
  using xs
proof (induction xs)
  case (Cons x xs)
  from writer_init_fresh [OF ok fresh salt] A obtain sw1 where
    i: "writer_init cr ent sw = Ok (None, sw1)" "writer_inv A salt [] sw1" "NonceSize A = 12" "pending sw1 = 0"
    by (metis result.inject(1))
  then have s1: "in_session A salt [] sw1" by (auto simp: in_session_def queued_empty intro!: exI [of _ "[]"])
  show ?case
  proof (cases "x = OpFlush")
    case True
    then have "writer_exec cr ent x sw = Ok sw" using fresh by (simp add: Flush_def fresh_writer_def)
    with Cons True show ?thesis by simp
  next
    case False
    have "writer_exec cr ent x sw = writer_exec cr ent x sw1"
      using i(1) writer_init_again [OF i(2), of cr ent] False
      by (cases x) (simp_all add: Writer_Write_def ReadFrom_def LazyWrite_def)
    then have "writer_run cr ent (x # xs) sw = writer_run cr ent (x # xs) sw1" by simp
    moreover have "nonces_suffice A ([] @ concat (map op_input (x # xs)))"
      using Cons.prems(2) i(3) by (simp add: nonces_suffice_def)
    ultimately show ?thesis
      using writer_run_in_session [OF s1 Cons.prems(1), of cr ent] by auto
  qed
qed simp

section \<open>What the other end reads\<close>

lemma newChunkReader_inv:
  assumes "crypto_ok cr" and "supportedAEADs cr = Ok specs" and "cipher_ok cr c" and "eof_chained r"
  shows "chunk_inv cr (newChunkReader (readBufPool specs) r c)"
  using assms
  by (auto simp: chunk_inv_def newChunkReader_def newLazySlice_def readBufPool_def maxTagSize_def
      supportedAEADs_eq MakePool_def pool_wf_def)

lemma chunks_left_wire:
  assumes "cipher_ok cr c" and "NewAEAD cr c salt = Ok A" and "length salt = SaltSize c"
    and "list_all chunk_ok ps" and "contents r = wire A salt ps" and "final_error r = EOF"
  shows "chunks_left cr (newChunkReader pool r c) = (ps, EOF)"
proof (cases "ps = []")
  case True
  then have "SaltSize c \<noteq> 0" using assms(1) by (auto simp: cipher_ok_def)
  with True assms show ?thesis
    by (simp add: chunks_left_def newChunkReader_def wire_def salt_error_def short_error_def eof_like_def)
next
  case False
  obtain A' where "NewAEAD cr c salt = Ok A'" "aead_ok A'" using assms(1) by (rule cipher_okE)
  with assms(2) have "aead_ok A" by simp
  moreover have "list_all (\<lambda>p. length p \<le> payloadSizeMask) ps"
    using assms(4) by (auto simp: chunk_ok_def list_all_iff)
  ultimately show ?thesis
    using decode_frames_EOF [of A ps 0] assms False
    by (simp add: chunks_left_def newChunkReader_def wire_def)
qed

text \<open>A session that ends with \<open>Flush\<close> has sent chunks that make up all the plaintext.\<close>

lemma session_sent:
  assumes ok: "cipher_ok cr c" and xs: "list_all op_ok xs" "length (concat (map op_input xs)) < 2 ^ 95"
  obtains sw' salt A ps where
    "writer_run cr (Inr f) (xs @ [OpFlush]) (NewShadowsocksWriter \<lparr>wout = [], wplan = []\<rparr> c) = Ok sw'"
    "NewAEAD cr c salt = Ok A" "length salt = SaltSize c" "list_all chunk_ok ps"
    "concat ps = concat (map op_input xs)" "concat (wout (sw_writer sw')) = wire A salt ps"
proof -
  let ?sw = "NewShadowsocksWriter \<lparr>wout = [], wplan = []\<rparr> c"
  define salt where "salt = map f [0..<SaltSize c]"
  have c: "ssCipher ?sw = c" by (simp add: NewShadowsocksWriter_def)
  have fresh: "fresh_writer RandomSaltGenerator ?sw"
    by (simp add: fresh_writer_def NewShadowsocksWriter_def writes_all_def)
  have salt: "GetSalt cr RandomSaltGenerator (Inr f) (make_bytes (SaltSize c)) = Ok salt"
    by (simp add: randomSaltGenerator_GetSalt_def salt_def)
  obtain A where A: "NewAEAD cr c salt = Ok A" "NonceSize A = 12" using ok by (rule cipher_okE)
  from writer_run_fresh [of cr ?sw, unfolded c, OF ok fresh salt A(1) xs] obtain sw1 where
    run: "writer_run cr (Inr f) xs ?sw = Ok sw1" and
    res: "in_session A salt (concat (map op_input xs)) sw1 \<or> sw1 = ?sw \<and> concat (map op_input xs) = []"
    by blast
  have len: "length salt = SaltSize c" by (simp add: salt_def)
  from res show thesis
  proof
    assume s: "in_session A salt (concat (map op_input xs)) sw1"
    have "nonces_suffice A (concat (map op_input xs))"
      using xs(2) A(2) by (simp add: nonces_suffice_def)
    from Flush_in_session [OF s this] obtain sw' where sw': "Flush sw1 = Ok (None, sw')"
      "in_session A salt (concat (map op_input xs)) sw'" "pending sw' = 0"
      by blast
    from sw'(2,3) obtain ps where "writer_inv A salt ps sw'" "concat ps = concat (map op_input xs)"
      by (auto simp: in_session_def queued_empty)
    with sw'(1) run A len that [of sw' salt A ps] show thesis
      by (simp add: writer_run_append writer_inv_def)
  next
    assume "sw1 = ?sw \<and> concat (map op_input xs) = []"
    with run A len that [of sw1 salt A "[]"] show thesis
      by (simp add: writer_run_append Flush_def NewShadowsocksWriter_def wire_def)
  qed
qed

text \<open>\<open>WriteTo\<close> over a new reader delivers what \<open>chunks_left\<close> says.\<close>

lemma WriteTo_delivers:
  assumes "crypto_ok cr" and "supportedAEADs cr = Ok specs" and "cipher_ok cr c" and "writes_all w"
    and "eof_chained r" and left: "chunks_left cr (newChunkReader (readBufPool specs) r c) = (ps, e)"
  shows "\<exists>c' w'. conv_WriteTo (\<lambda>x. ReadChunk cr (pick x) x) (NewShadowsocksReader (readBufPool specs) r c) w 0 =
           Some (Ok (length (concat ps), (if e = EOF then None else Some e)), c', w') \<and>
         concat (wout w') = concat (wout w) @ concat ps"
proof -
  let ?rc = "NewShadowsocksReader (readBufPool specs) r c"
  have inv: "chunk_inv cr (rc_cr ?rc)"
    using newChunkReader_inv [OF assms(1-3,5)] by (simp add: NewShadowsocksReader_def)
  have "ss_chunks.undelivered cr ?rc = concat ps" "snd (chunks_left cr (rc_cr ?rc)) = e"
    using left by (simp_all add: ss_chunks.undelivered_def NewShadowsocksReader_def)
  with ss_chunks.conv_WriteTo_writes [OF inv, of pick w 0] assms(4) show ?thesis
    by auto
qed

section \<open>Properties\<close>

text \<open>C11: Round trip of the encrypted stream. Whatever sequence of \<open>Write\<close>, \<open>LazyWrite\<close>, \<open>Flush\<close> and
  \<open>ReadFrom\<close> calls a new writer receives (with the timer's flush racing with \<open>ReadFrom\<close> or not), followed
  by a \<open>Flush\<close>, every call succeeds, and a reader with the same cipher that receives the bytes in segments
  of any size delivers exactly the plaintext by \<open>WriteTo\<close> and ends without error, whichever buffers its
  pool hands out.\<close>

theorem stream_roundtrip:
  assumes "crypto_ok cr" and "supportedAEADs cr = Ok specs" and "NewCipher cr specs nm secret = Ok c"
    and "list_all op_ok xs" and "length (concat (map op_input xs)) < 2 ^ 95" and "writes_all w"
  shows "\<exists>sw'. writer_run cr (Inr f) (xs @ [OpFlush]) (NewShadowsocksWriter \<lparr>wout = [], wplan = []\<rparr> c) = Ok sw' \<and>
    (\<forall>segs. concat segs = concat (wout (sw_writer sw')) \<longrightarrow>
      (\<exists>c' w'. conv_WriteTo (\<lambda>x. ReadChunk cr (pick x) x)
           (NewShadowsocksReader (readBufPool specs) (ConnReader segs EOF) c) w 0 =
           Some (Ok (length (concat (map op_input xs)), None), c', w') \<and>
         concat (wout w') = concat (wout w) @ concat (map op_input xs)))"
proof -
  have ok: "cipher_ok cr c" using assms(1-3) by (rule NewCipher_cipher_ok)
  obtain sw' salt A ps where
    run: "writer_run cr (Inr f) (xs @ [OpFlush]) (NewShadowsocksWriter \<lparr>wout = [], wplan = []\<rparr> c) = Ok sw'"
    and sent: "NewAEAD cr c salt = Ok A" "length salt = SaltSize c" "list_all chunk_ok ps"
    "concat ps = concat (map op_input xs)" "concat (wout (sw_writer sw')) = wire A salt ps"
    by (rule session_sent [OF ok assms(4,5)])
  have "chunks_left cr (newChunkReader (readBufPool specs) (ConnReader segs EOF) c) = (ps, EOF)"
    if "concat segs = concat (wout (sw_writer sw'))" for segs
    using chunks_left_wire [OF ok sent(1-3), of "ConnReader segs EOF"] that sent(5) by simp
  with run show ?thesis
    using WriteTo_delivers [OF assms(1,2) ok assms(6), of "ConnReader _ EOF" ps EOF pick] sent(4) by simp
qed

theorem stream_roundtrip_witness:
  "\<exists>sw'. writer_run toy_crypto (Inr (\<lambda>i. 7)) ([OpLazyWrite [1, 2], OpWrite True [3], OpReadFrom False (ConnReader [[4], [], [5]] EOF)] @ [OpFlush])
      (NewShadowsocksWriter \<lparr>wout = [], wplan = []\<rparr> toy_cipher) = Ok sw' \<and>
    (\<forall>segs. concat segs = concat (wout (sw_writer sw')) \<longrightarrow>
      (\<exists>c' w'. conv_WriteTo (\<lambda>x. ReadChunk toy_crypto 0 x)
           (NewShadowsocksReader (readBufPool toy_specs) (ConnReader segs EOF) toy_cipher) \<lparr>wout = [], wplan = []\<rparr> 0 =
           Some (Ok (length [1, 2, 3, 4, 5 :: byte], None), c', w') \<and> concat (wout w') = [1, 2, 3, 4, 5]))"
  using stream_roundtrip [OF toy_crypto_ok toy_specs toy_NewCipher,
      of "[OpLazyWrite [1, 2], OpWrite True [3], OpReadFrom False (ConnReader [[4], [], [5]] EOF)]"
         "\<lparr>wout = [], wplan = []\<rparr>" "\<lambda>i. 7" "\<lambda>x. 0"]
  by (simp add: writes_all_def)

text \<open>C17: The reader implements the decoding specification. On any byte stream, chosen by an attacker or not,
  and however it is cut into segments, \<open>WriteTo\<close> terminates without panic, hands exactly the chunks that
  \<open>chunks_left\<close> decodes to the writer, and reports the decoding error after the last of them, a clean end as
  success.\<close>

theorem stream_reader_refines_decode:
  assumes "crypto_ok cr" and "supportedAEADs cr = Ok specs" and "NewCipher cr specs nm secret = Ok c"
    and "writes_all w" and "chunks_left cr (newChunkReader (readBufPool specs) (BytesReader (concat segs)) c) = (ps, e)"
  shows "\<exists>c' w'. conv_WriteTo (\<lambda>x. ReadChunk cr (pick x) x)
           (NewShadowsocksReader (readBufPool specs) (ConnReader segs EOF) c) w 0 =
           Some (Ok (length (concat ps), (if e = EOF then None else Some e)), c', w') \<and>
         concat (wout w') = concat (wout w) @ concat ps"
proof (rule WriteTo_delivers [OF assms(1,2) NewCipher_cipher_ok [OF assms(1-3)] assms(4)])
  show "chunks_left cr (newChunkReader (readBufPool specs) (ConnReader segs EOF) c) = (ps, e)"
    using assms(5) by (simp add: newChunkReader_def chunks_left_def Let_def split: if_splits)
qed simp

theorem stream_reader_refines_decode_witness:
  "\<exists>c' w'. conv_WriteTo (\<lambda>x. ReadChunk toy_crypto 5 x)
       (NewShadowsocksReader (readBufPool toy_specs) (ConnReader [[1], [2, 3]] EOF) toy_cipher)
       \<lparr>wout = [], wplan = []\<rparr> 0 = Some (Ok (0, Some ErrUnexpectedEOF), c', w') \<and> concat (wout w') = []"
proof -
  have "chunks_left toy_crypto (newChunkReader (readBufPool toy_specs) (BytesReader (concat [[1], [2, 3]]))
      toy_cipher) = ([], ErrUnexpectedEOF)"
    by (simp add: chunks_left_def newChunkReader_def salt_error_def short_error_def eof_like_def)
  from stream_reader_refines_decode [OF toy_crypto_ok toy_specs toy_NewCipher _ this,
      of "\<lparr>wout = [], wplan = []\<rparr>" "\<lambda>x. 5"]
  show ?thesis by (simp add: writes_all_def)
qed

text \<open>C24: Truncation is detected. If the stream of a finished session is cut at a point that is not the end of
  a chunk (and not its very start), the reader delivers the whole chunks before the cut and then reports
  \<open>ErrUnexpectedEOF\<close>, never a clean end.\<close>

theorem stream_truncation_detected:
  assumes "crypto_ok cr" and "supportedAEADs cr = Ok specs" and "NewCipher cr specs nm secret = Ok c"
    and "NewAEAD cr c salt = Ok A" and "length salt = SaltSize c" and "list_all chunk_ok (ps @ [p])"
    and "0 < n" and "n < length (frames A (2 * length ps) [p])" and "writes_all w"
    and "concat segs = salt @ frames A 0 ps @ take n (frames A (2 * length ps) [p])"
  shows "\<exists>c' w'. conv_WriteTo (\<lambda>x. ReadChunk cr (pick x) x)
           (NewShadowsocksReader (readBufPool specs) (ConnReader segs EOF) c) w 0 =
           Some (Ok (length (concat ps), Some ErrUnexpectedEOF), c', w') \<and>
         concat (wout w') = concat (wout w) @ concat ps"
proof -
  have ok: "cipher_ok cr c" using assms(1-3) by (rule NewCipher_cipher_ok)
  obtain A' where "NewAEAD cr c salt = Ok A'" "aead_ok A'" using ok by (rule cipher_okE)
  with assms(4) have A: "aead_ok A" by simp
  have sizes: "list_all (\<lambda>p. length p \<le> payloadSizeMask) ps" "length p \<le> payloadSizeMask"
    using assms(6) by (auto simp: chunk_ok_def list_all_iff)
  have "decode A EOF (nonce (NonceSize A) (0 + 2 * length ps)) (take n (frames A (2 * length ps) [p]))
      = ([], ErrUnexpectedEOF)"
    using decode_cut [OF A sizes(2) assms(7,8)] by (simp del: frames.simps)
  with decode_frames [OF A sizes(1), of EOF 0 "take n (frames A (2 * length ps) [p])"]
  have "decode A EOF (make_bytes (NonceSize A)) (frames A 0 ps @ take n (frames A (2 * length ps) [p]))
      = (ps, ErrUnexpectedEOF)"
    by (simp del: frames.simps)
  then have "chunks_left cr (newChunkReader (readBufPool specs) (ConnReader segs EOF) c) = (ps, ErrUnexpectedEOF)"
    using assms(4,5,10) by (simp add: chunks_left_def newChunkReader_def del: frames.simps)
  from WriteTo_delivers [OF assms(1,2) ok assms(9) _ this, of pick] show ?thesis by simp
qed

theorem stream_truncation_detected_witness:
  "\<exists>A. NewAEAD toy_crypto toy_cipher (make_bytes 16) = Ok A \<and>
     (\<exists>c' w'. conv_WriteTo (\<lambda>x. ReadChunk toy_crypto 0 x)
        (NewShadowsocksReader (readBufPool toy_specs)
           (ConnReader [make_bytes 16, take 20 (frames A 0 [[9]])] EOF) toy_cipher) \<lparr>wout = [], wplan = []\<rparr> 0 =
        Some (Ok (0, Some ErrUnexpectedEOF), c', w') \<and> concat (wout w') = [])"
proof -
  obtain A where A: "NewAEAD toy_crypto toy_cipher (make_bytes 16) = Ok A" "aead_ok A" "Overhead A = 16"
    "NonceSize A = 12"
    using toy_cipher_ok by (rule cipher_okE)
  then have "20 < length (frames A (2 * length ([] :: bytes list)) [[9]])"
    by (simp add: length_Seal)
  from stream_truncation_detected [OF toy_crypto_ok toy_specs toy_NewCipher A(1) _ _ _ this,
      of "\<lparr>wout = [], wplan = []\<rparr>" "[make_bytes 16, take 20 (frames A 0 [[9]])]" "\<lambda>x. 0"] A(1)
  show ?thesis by (simp add: writes_all_def chunk_ok_def payloadSizeMask_def)
qed

end
