(* ===== verification/Net_Private.thy ===== *)
theory Net_Private
  imports SS_Prelude
begin

text \<open>
  Model of \<^verbatim>\<open>net/private_net.go\<close> and \<^verbatim>\<open>net/error.go\<close>, with what they use of Go's \<^verbatim>\<open>net.IP\<close> and
  \<^verbatim>\<open>net.IPNet\<close>. An address is its byte slice: 4 or 16 bytes, or empty for nil. The validator is what
  keeps clients of the proxy from reaching the server's own networks.
\<close>

section \<open>net.IP\<close>

type_synonym ip = bytes

definition v4InV6Prefix :: bytes where
  "v4InV6Prefix = make_bytes 10 @ [0xff, 0xff]"

definition IPv4 :: "byte \<Rightarrow> byte \<Rightarrow> byte \<Rightarrow> byte \<Rightarrow> ip" where
  "IPv4 a b c d = v4InV6Prefix @ [a, b, c, d]"

definition To4 :: "ip \<Rightarrow> ip option" where
  "To4 p =
     (if length p = 4 then Some p
      else if length p = 16 \<and> take 12 p = v4InV6Prefix then Some (drop 12 p)
      else None)"

definition ip_Equal :: "ip \<Rightarrow> ip \<Rightarrow> bool" where
  "ip_Equal p x =
     (if length p = length x then p = x
      else if length p = 4 \<and> length x = 16 then take 12 x = v4InV6Prefix \<and> p = drop 12 x
      else if length p = 16 \<and> length x = 4 then take 12 p = v4InV6Prefix \<and> drop 12 p = x
      else False)"

definition IsUnspecified :: "ip \<Rightarrow> bool" where
  "IsUnspecified p \<longleftrightarrow> ip_Equal p (IPv4 0 0 0 0) \<or> ip_Equal p (make_bytes 16)"

definition IsLoopback :: "ip \<Rightarrow> bool" where
  "IsLoopback p =
     (case To4 p of
        Some q \<Rightarrow> q ! 0 = 127
      | None \<Rightarrow> ip_Equal p (make_bytes 15 @ [1]))"

definition IsMulticast :: "ip \<Rightarrow> bool" where
  "IsMulticast p =
     (case To4 p of
        Some q \<Rightarrow> q ! 0 AND 0xf0 = 0xe0
      | None \<Rightarrow> length p = 16 \<and> p ! 0 = 0xff)"

definition IsLinkLocalUnicast :: "ip \<Rightarrow> bool" where
  "IsLinkLocalUnicast p =
     (case To4 p of
        Some q \<Rightarrow> q ! 0 = 169 \<and> q ! 1 = 254
      | None \<Rightarrow> length p = 16 \<and> p ! 0 = 0xfe \<and> p ! 1 AND 0xc0 = 0x80)"

definition IsGlobalUnicast :: "ip \<Rightarrow> bool" where
  "IsGlobalUnicast p \<longleftrightarrow>
     (length p = 4 \<or> length p = 16) \<and> \<not> ip_Equal p (IPv4 255 255 255 255) \<and> \<not> IsUnspecified p \<and>
     \<not> IsLoopback p \<and> \<not> IsMulticast p \<and> \<not> IsLinkLocalUnicast p"

text \<open>A network is its address and mask; \<open>CIDRMask\<close> is the mask of a prefix length.\<close>

record IPNet =
  net_IP :: ip
  net_Mask :: bytes

definition CIDRMask :: "nat \<Rightarrow> nat \<Rightarrow> bytes" where
  "CIDRMask ones len =
     map (\<lambda>i. if 8 * (i + 1) \<le> ones then 0xff else if ones \<le> 8 * i then 0
              else NOT (drop_bit (ones - 8 * i) 0xff)) [0..<len]"

definition Contains :: "IPNet \<Rightarrow> ip \<Rightarrow> bool" where
  "Contains n p =
     (let q = (case To4 p of Some x \<Rightarrow> x | None \<Rightarrow> p)
      in length q = length (net_IP n) \<and>
         list_all (\<lambda>i. net_IP n ! i AND net_Mask n ! i = q ! i AND net_Mask n ! i) [0..<length q])"

section \<open>The validator\<close>

definition privateNetworks :: "IPNet list" where
  "privateNetworks =
     [\<lparr>net_IP = [10, 0, 0, 0], net_Mask = CIDRMask 8 4\<rparr>,
      \<lparr>net_IP = [172, 16, 0, 0], net_Mask = CIDRMask 12 4\<rparr>,
      \<lparr>net_IP = [192, 168, 0, 0], net_Mask = CIDRMask 16 4\<rparr>,
      \<lparr>net_IP = 0xfc # make_bytes 15, net_Mask = CIDRMask 7 16\<rparr>,
      \<lparr>net_IP = [100, 64, 0, 0], net_Mask = CIDRMask 10 4\<rparr>]"

fun any_contains :: "IPNet list \<Rightarrow> ip \<Rightarrow> bool" where
  "any_contains [] p = False"
| "any_contains (n # ns) p = (if Contains n p then True else any_contains ns p)"

definition IsPrivateAddress :: "ip \<Rightarrow> bool" where
  "IsPrivateAddress p = any_contains privateNetworks p"

text \<open>A message keeps the address it formats with \<^verbatim>\<open>ip.String()\<close> as a value.\<close>

datatype message = Msg string | MsgIP string ip

record ConnectionError =
  Status :: string
  Message :: message
  Cause :: "goerror option"

definition NewConnectionError :: "string \<Rightarrow> message \<Rightarrow> goerror option \<Rightarrow> ConnectionError" where
  "NewConnectionError status msg cause = \<lparr>Status = status, Message = msg, Cause = cause\<rparr>"

type_synonym TargetIPValidator = "ip \<Rightarrow> ConnectionError option"

definition RequirePublicIP :: TargetIPValidator where
  "RequirePublicIP p =
     (if \<not> IsGlobalUnicast p then
        Some (NewConnectionError ''ERR_ADDRESS_INVALID'' (MsgIP ''Address is not global unicast'' p) None)
      else if IsPrivateAddress p then
        Some (NewConnectionError ''ERR_ADDRESS_PRIVATE'' (MsgIP ''Address is private'' p) None)
      else None)"

section \<open>Lemmas\<close>

lemma byte_eq_unat: "(x :: byte) = y \<longleftrightarrow> unat x = unat y"
  by (rule word_unat_eq_iff)

lemma unat_and_high: "unat ((x :: byte) AND NOT (mask k)) = unat x div 2 ^ k * 2 ^ k"
proof -
  have "x AND NOT (mask k) = push_bit k (drop_bit k x)"
    by (rule bit_word_eqI) (auto simp: bit_simps)
  moreover have "unat x div 2 ^ k * 2 ^ k < 256"
    using unat_byte_less [of x] div_times_less_eq_dividend [of "unat x" "2 ^ k"] by linarith
  moreover have "unat (push_bit k (drop_bit k x)) = take_bit 8 (push_bit k (drop_bit k (unat x)))"
    using unat_byte_less [of x]
    by (simp only: unsigned_push_bit_eq unsigned_drop_bit_eq) (simp add: take_bit_nat_eq_self)
  ultimately show ?thesis
    by (simp only: push_bit_eq_mult drop_bit_eq_div) (simp add: take_bit_nat_eq_self)
qed

lemma high_masks: "(0xf0 :: byte) = NOT (mask 4)" "(0xc0 :: byte) = NOT (mask 6)" "(0xfe :: byte) = NOT (mask 1)"
  by code_simp+

lemma masked_byte:
  fixes x :: byte
  shows "x AND 0xf0 = 0xe0 \<longleftrightarrow> 224 \<le> unat x \<and> unat x \<le> 239"
    and "x AND 0xf0 = 16 \<longleftrightarrow> 16 \<le> unat x \<and> unat x \<le> 31"
    and "x AND 0xc0 = 64 \<longleftrightarrow> 64 \<le> unat x \<and> unat x \<le> 127"
    and "x AND 0xc0 = 0x80 \<longleftrightarrow> 128 \<le> unat x \<and> unat x \<le> 191"
    and "x AND 0xfe = 0xfc \<longleftrightarrow> unat x = 252 \<or> unat x = 253"
proof -
  have div: "n div 16 * 16 = 224 \<longleftrightarrow> 224 \<le> n \<and> n \<le> 239" "n div 16 * 16 = 16 \<longleftrightarrow> 16 \<le> n \<and> n \<le> 31"
    "n div 64 * 64 = 64 \<longleftrightarrow> 64 \<le> n \<and> n \<le> 127" "n div 64 * 64 = 128 \<longleftrightarrow> 128 \<le> n \<and> n \<le> 191"
    "n div 2 * 2 = 252 \<longleftrightarrow> n = 252 \<or> n = 253" for n :: nat
    by - (auto intro!: antisym)
  show "x AND 0xf0 = 0xe0 \<longleftrightarrow> 224 \<le> unat x \<and> unat x \<le> 239"
    "x AND 0xf0 = 16 \<longleftrightarrow> 16 \<le> unat x \<and> unat x \<le> 31"
    "x AND 0xc0 = 64 \<longleftrightarrow> 64 \<le> unat x \<and> unat x \<le> 127"
    "x AND 0xc0 = 0x80 \<longleftrightarrow> 128 \<le> unat x \<and> unat x \<le> 191"
    "x AND 0xfe = 0xfc \<longleftrightarrow> unat x = 252 \<or> unat x = 253"
    using unat_and_high [of x 4, folded high_masks] unat_and_high [of x 6, folded high_masks]
      unat_and_high [of x 1, folded high_masks] div [of "unat x"]
    by (simp_all add: byte_eq_unat [of "x AND _"])
qed

lemma masks:
  "CIDRMask 8 4 = [0xff, 0, 0, 0]" "CIDRMask 12 4 = [0xff, 0xf0, 0, 0]"
  "CIDRMask 16 4 = [0xff, 0xff, 0, 0]" "CIDRMask 10 4 = [0xff, 0xc0, 0, 0]"
  "CIDRMask 7 16 = 0xfe # make_bytes 15"
  by code_simp+

lemma byte_and_ff [simp]: "(x :: byte) AND 0xff = x"
proof -
  have "(0xff :: byte) = - 1" by code_simp
  then show ?thesis by (simp only: and.right_neutral)
qed

text \<open>IPv4-mapped addresses behave as the IPv4 addresses they stand for.\<close>

lemma To4_IPv4 [simp]: "To4 (IPv4 a b c d) = Some [a, b, c, d]"
  by (simp add: To4_def IPv4_def v4InV6Prefix_def)

lemma To4_4 [simp]: "To4 [a, b, c, d] = Some [a, b, c, d]"
  by (simp add: To4_def)

lemma length_IPv4 [simp]: "length (IPv4 a b c d) = 16"
  by (simp add: IPv4_def v4InV6Prefix_def)

lemma IPv4_Equal [simp]:
  "ip_Equal (IPv4 a b c d) (IPv4 a' b' c' d') \<longleftrightarrow> [a, b, c, d] = [a', b', c', d']"
  "ip_Equal [a, b, c, d] (IPv4 a' b' c' d') \<longleftrightarrow> [a, b, c, d] = [a', b', c', d']"
  "\<not> ip_Equal (IPv4 a b c d) (make_bytes 16)"
  "\<not> ip_Equal [a, b, c, d] (make_bytes 16)"
proof -
  have zeros: "make_bytes 16 = make_bytes 10 @ [0, 0, 0, 0, 0, 0]" by code_simp
  show "ip_Equal (IPv4 a b c d) (IPv4 a' b' c' d') \<longleftrightarrow> [a, b, c, d] = [a', b', c', d']"
    "ip_Equal [a, b, c, d] (IPv4 a' b' c' d') \<longleftrightarrow> [a, b, c, d] = [a', b', c', d']"
    "\<not> ip_Equal (IPv4 a b c d) (make_bytes 16)" "\<not> ip_Equal [a, b, c, d] (make_bytes 16)"
    unfolding zeros by (simp_all add: ip_Equal_def IPv4_def v4InV6Prefix_def)
qed

lemma Contains_IPv4: "Contains n (IPv4 a b c d) = Contains n [a, b, c, d]"
  by (simp add: Contains_def)

lemma IsPrivate_IPv4: "IsPrivateAddress (IPv4 a b c d) = IsPrivateAddress [a, b, c, d]"
  by (simp add: IsPrivateAddress_def privateNetworks_def Contains_IPv4)

lemma IsGlobalUnicast_IPv4: "IsGlobalUnicast (IPv4 a b c d) = IsGlobalUnicast [a, b, c, d]"
  by (simp add: IsGlobalUnicast_def IsUnspecified_def IsLoopback_def IsMulticast_def IsLinkLocalUnicast_def)

lemma IsGlobalUnicast_4:
  "IsGlobalUnicast [a, b, c, d] \<longleftrightarrow>
     [a, b, c, d] \<noteq> [255, 255, 255, 255] \<and> [a, b, c, d] \<noteq> [0, 0, 0, 0] \<and> unat a \<noteq> 127 \<and>
     \<not> (224 \<le> unat a \<and> unat a \<le> 239) \<and> \<not> (unat a = 169 \<and> unat b = 254)"
  by (simp add: IsGlobalUnicast_def IsUnspecified_def IsLoopback_def IsMulticast_def
      IsLinkLocalUnicast_def masked_byte byte_eq_unat [of a 127] byte_eq_unat [of a 169] byte_eq_unat [of b 254])

lemma IsPrivate_4:
  "IsPrivateAddress [a, b, c, d] \<longleftrightarrow>
     unat a = 10 \<or> (unat a = 172 \<and> 16 \<le> unat b \<and> unat b \<le> 31) \<or> (unat a = 192 \<and> unat b = 168) \<or>
     (unat a = 100 \<and> 64 \<le> unat b \<and> unat b \<le> 127)"
proof -
  have four: "[0..<4] = [0, 1, 2, 3 :: nat]" by code_simp
  have "IsPrivateAddress [a, b, c, d] \<longleftrightarrow>
      a = 10 \<or> (a = 172 \<and> b AND 0xf0 = 16) \<or> (a = 192 \<and> b = 168) \<or> (a = 100 \<and> b AND 0xc0 = 64)"
    by (simp add: IsPrivateAddress_def privateNetworks_def Contains_def masks four eq_commute [of 10 a] eq_commute [of 172 a] eq_commute [of 192 a]
      eq_commute [of 100 a] eq_commute [of 168 b] eq_commute [of _ "b AND _"])
  then show ?thesis
    unfolding masked_byte byte_eq_unat [of a] byte_eq_unat [of b] by simp
qed

lemma IsPrivate_16:
  assumes "To4 p = None"
  shows "IsPrivateAddress p \<longleftrightarrow> length p = 16 \<and> (unat (p ! 0) = 252 \<or> unat (p ! 0) = 253)"
proof -
  let ?m = "0xfe # make_bytes 15 :: bytes" and ?n = "0xfc # make_bytes 15 :: bytes"
  have upt: "[0..<16] = 0 # [1..<16 :: nat]" and zero: "list_all (\<lambda>i. ?m ! i = 0) [1..<16 :: nat]"
    by code_simp+
  have rest: "list_all (\<lambda>i. ?n ! i AND ?m ! i = p ! i AND ?m ! i) [1..<16]"
    using zero unfolding list_all_iff by (metis and_zero_eq)
  have "list_all (\<lambda>i. ?n ! i AND ?m ! i = p ! i AND ?m ! i) [0..<16] \<longleftrightarrow> p ! 0 AND 0xfe = 0xfc"
    unfolding upt using rest by (simp add: eq_commute [of _ "p ! 0 AND _"])
  moreover have "length p \<noteq> 4" using assms by (auto simp: To4_def)
  ultimately have "IsPrivateAddress p \<longleftrightarrow> length p = 16 \<and> p ! 0 AND 0xfe = 0xfc"
    using assms by (simp add: IsPrivateAddress_def privateNetworks_def Contains_def masks del: upt_Suc cong: conj_cong)
  then show ?thesis by (simp add: masked_byte)
qed

section \<open>Properties\<close>

text \<open>C34: The target validator on IPv4. Plain or mapped into IPv6, an address is refused as invalid exactly when it
  is 0.0.0.0, 255.255.255.255, loopback (127/8), link local (169.254/16) or multicast (224/4), refused as
  private exactly when it lies in 10/8, 172.16/12, 192.168/16 or 100.64/10, and accepted otherwise: the mapped
  form does not get around the check.\<close>

theorem RequirePublicIP_v4:
  "map_option Status (RequirePublicIP [a, b, c, d]) =
     (if [a, b, c, d] = [0, 0, 0, 0] \<or> [a, b, c, d] = [255, 255, 255, 255] \<or> unat a = 127 \<or>
         (224 \<le> unat a \<and> unat a \<le> 239) \<or> (unat a = 169 \<and> unat b = 254)
      then Some ''ERR_ADDRESS_INVALID''
      else if unat a = 10 \<or> (unat a = 172 \<and> 16 \<le> unat b \<and> unat b \<le> 31) \<or> (unat a = 192 \<and> unat b = 168) \<or>
         (unat a = 100 \<and> 64 \<le> unat b \<and> unat b \<le> 127)
      then Some ''ERR_ADDRESS_PRIVATE'' else None) \<and>
   map_option Status (RequirePublicIP (IPv4 a b c d)) = map_option Status (RequirePublicIP [a, b, c, d])"
  by (simp only: RequirePublicIP_def IsGlobalUnicast_IPv4 IsPrivate_IPv4 IsGlobalUnicast_4 IsPrivate_4)
    (auto simp: NewConnectionError_def)

text \<open>The target validator on every other byte string. An address that is not IPv4 in either form is invalid if
  it does not have 16 bytes, is \<^verbatim>\<open>::\<close> or \<^verbatim>\<open>::1\<close>, multicast (ff00::/8) or link local (fe80::/10), private if it is
  in fc00::/7, and accepted otherwise.\<close>

lemma RequirePublicIP_v6:
  assumes "To4 p = None"
  shows "map_option Status (RequirePublicIP p) =
     (if length p \<noteq> 16 \<or> p = make_bytes 16 \<or> p = make_bytes 15 @ [1] \<or> p ! 0 = 0xff \<or>
         (p ! 0 = 0xfe \<and> 128 \<le> unat (p ! 1) \<and> unat (p ! 1) \<le> 191)
      then Some ''ERR_ADDRESS_INVALID''
      else if unat (p ! 0) = 252 \<or> unat (p ! 0) = 253 then Some ''ERR_ADDRESS_PRIVATE'' else None)"
proof -
  have len: "length p \<noteq> 4" and "p \<noteq> IPv4 a b c d" for a b c d
    using assms by (auto simp: To4_def IPv4_def v4InV6Prefix_def)
  then have ne: "\<not> ip_Equal p (IPv4 a b c d)" for a b c d
    by (auto simp: ip_Equal_def)
  have eq: "ip_Equal p q \<longleftrightarrow> p = q" if "length q = 16" for q
    using len that by (auto simp: ip_Equal_def)
  show ?thesis
    by (simp add: RequirePublicIP_def IsPrivate_16 [OF assms] NewConnectionError_def IsGlobalUnicast_def
        IsUnspecified_def IsLoopback_def IsMulticast_def IsLinkLocalUnicast_def assms ne eq len masked_byte)
qed

lemma RequirePublicIP_v6_witness:
  "map_option Status (RequirePublicIP (0xfd # make_bytes 15)) = Some ''ERR_ADDRESS_PRIVATE''"
proof -
  have "To4 (0xfd # make_bytes 15) = None" by code_simp
  from RequirePublicIP_v6 [OF this] show ?thesis by code_simp
qed

end
