(* ===== verification/Metrics.thy ===== *)
theory Metrics
  imports Net_Private
begin

text \<open>
  Model of \<^verbatim>\<open>service/metrics/metrics.go\<close>: the counters the service keeps. A Prometheus \<^verbatim>\<open>CounterVec\<close> is a map
  from label values to its value, a \<^verbatim>\<open>HistogramVec\<close> the list of its observations with their labels, a counter
  or gauge a number. Byte counts are integers without a width: they would need 2^63 bytes to wrap, and
  Prometheus keeps them as floating point numbers, whose rounding is not modelled.

  A \<^verbatim>\<open>net.Addr\<close> is its string; \<^verbatim>\<open>net.SplitHostPort\<close> followed by \<^verbatim>\<open>net.ParseIP\<close> is the argument \<open>host_ip\<close>, and the
  lookup in the geoip2 database the argument \<open>country\<close>.
\<close>

section \<open>Counters\<close>

type_synonym counter_vec = "string list \<Rightarrow> int"

record ProxyMetrics =
  ClientProxy :: int
  ProxyTarget :: int
  TargetProxy :: int
  ProxyClient :: int

definition ProxyMetrics_add :: "ProxyMetrics \<Rightarrow> ProxyMetrics \<Rightarrow> ProxyMetrics" where
  "ProxyMetrics_add m other =
     \<lparr>ClientProxy = ClientProxy m + ClientProxy other, ProxyTarget = ProxyTarget m + ProxyTarget other,
      TargetProxy = TargetProxy m + TargetProxy other, ProxyClient = ProxyClient m + ProxyClient other\<rparr>"

record shadowsocksMetrics =
  buildInfo :: counter_vec
  accessKeys :: int
  ports_gauge :: int
  dataBytes :: counter_vec
  dataBytesPerLocation :: counter_vec
  timeToCipherMs :: "(string list \<times> int) list"
  tcpProbes :: "(string list \<times> int) list"
  tcpOpenConnections :: counter_vec
  tcpClosedConnections :: counter_vec
  tcpConnectionDurationMs :: "(string list \<times> int) list"
  udpPacketsFromClientPerLocation :: counter_vec
  udpAddedNatEntries :: int
  udpRemovedNatEntries :: int

definition newShadowsocksMetrics :: shadowsocksMetrics where
  "newShadowsocksMetrics =
     \<lparr>buildInfo = \<lambda>_. 0, accessKeys = 0, ports_gauge = 0, dataBytes = \<lambda>_. 0, dataBytesPerLocation = \<lambda>_. 0,
      timeToCipherMs = [], tcpProbes = [], tcpOpenConnections = \<lambda>_. 0, tcpClosedConnections = \<lambda>_. 0,
      tcpConnectionDurationMs = [], udpPacketsFromClientPerLocation = \<lambda>_. 0, udpAddedNatEntries = 0,
      udpRemovedNatEntries = 0\<rparr>"

definition Inc :: "counter_vec \<Rightarrow> string list \<Rightarrow> counter_vec" where
  "Inc v lvs = v(lvs := v lvs + 1)"

definition SetBuildInfo :: "shadowsocksMetrics \<Rightarrow> string \<Rightarrow> shadowsocksMetrics" where
  "SetBuildInfo m version = m\<lparr>buildInfo := (buildInfo m)([version] := 1)\<rparr>"

definition SetNumAccessKeys :: "shadowsocksMetrics \<Rightarrow> int \<Rightarrow> int \<Rightarrow> shadowsocksMetrics" where
  "SetNumAccessKeys m numKeys ports = m\<lparr>accessKeys := numKeys, ports_gauge := ports\<rparr>"

definition AddOpenTCPConnection :: "shadowsocksMetrics \<Rightarrow> string \<Rightarrow> shadowsocksMetrics" where
  "AddOpenTCPConnection m clientLocation =
     m\<lparr>tcpOpenConnections := Inc (tcpOpenConnections m) [clientLocation]\<rparr>"

definition isFound :: "string \<Rightarrow> string" where
  "isFound accessKey = (if accessKey \<noteq> '''' then ''true'' else ''false'')"

definition addIfNonZero :: "int \<Rightarrow> counter_vec \<Rightarrow> string list \<Rightarrow> counter_vec" where
  "addIfNonZero v vec lvs = (if v > 0 then vec(lvs := vec lvs + v) else vec)"

text \<open>Durations are in milliseconds.\<close>

definition AddClosedTCPConnection ::
  "shadowsocksMetrics \<Rightarrow> string \<Rightarrow> string \<Rightarrow> string \<Rightarrow> ProxyMetrics \<Rightarrow> int \<Rightarrow> int \<Rightarrow> shadowsocksMetrics" where
  "AddClosedTCPConnection m clientLocation accessKey status data timeToCipher duration =
     (let byKey = (\<lambda>dir. [dir, ''tcp'', accessKey]);
          byLoc = (\<lambda>dir. [dir, ''tcp'', clientLocation]);
          d1 = addIfNonZero (ClientProxy data) (dataBytes m) (byKey ''c>p'');
          l1 = addIfNonZero (ClientProxy data) (dataBytesPerLocation m) (byLoc ''c>p'');
          d2 = addIfNonZero (ProxyTarget data) d1 (byKey ''p>t'');
          l2 = addIfNonZero (ProxyTarget data) l1 (byLoc ''p>t'');
          d3 = addIfNonZero (TargetProxy data) d2 (byKey ''p<t'');
          l3 = addIfNonZero (TargetProxy data) l2 (byLoc ''p<t'');
          d4 = addIfNonZero (ProxyClient data) d3 (byKey ''c<p'');
          l4 = addIfNonZero (ProxyClient data) l3 (byLoc ''c<p'')
      in m\<lparr>tcpClosedConnections := Inc (tcpClosedConnections m) [clientLocation, status, accessKey],
           tcpConnectionDurationMs := tcpConnectionDurationMs m @ [([status], duration)],
           timeToCipherMs := timeToCipherMs m @ [([''tcp'', isFound accessKey], timeToCipher)],
           dataBytes := d4, dataBytesPerLocation := l4\<rparr>)"

text \<open>The port is kept as the string it is formatted to.\<close>

definition AddTCPProbe ::
  "shadowsocksMetrics \<Rightarrow> string \<Rightarrow> string \<Rightarrow> string \<Rightarrow> ProxyMetrics \<Rightarrow> shadowsocksMetrics" where
  "AddTCPProbe m status drainResult port data =
     m\<lparr>tcpProbes := tcpProbes m @ [([port, status, drainResult], ClientProxy data)]\<rparr>"

definition AddUDPPacketFromClient ::
  "shadowsocksMetrics \<Rightarrow> string \<Rightarrow> string \<Rightarrow> string \<Rightarrow> int \<Rightarrow> int \<Rightarrow> int \<Rightarrow> shadowsocksMetrics" where
  "AddUDPPacketFromClient m clientLocation accessKey status clientProxyBytes proxyTargetBytes timeToCipher =
     (let d1 = addIfNonZero clientProxyBytes (dataBytes m) [''c>p'', ''udp'', accessKey];
          l1 = addIfNonZero clientProxyBytes (dataBytesPerLocation m) [''c>p'', ''udp'', clientLocation];
          d2 = addIfNonZero proxyTargetBytes d1 [''p>t'', ''udp'', accessKey];
          l2 = addIfNonZero proxyTargetBytes l1 [''p>t'', ''udp'', clientLocation]
      in m\<lparr>timeToCipherMs := timeToCipherMs m @ [([''udp'', isFound accessKey], timeToCipher)],
           udpPacketsFromClientPerLocation := Inc (udpPacketsFromClientPerLocation m) [clientLocation, status],
           dataBytes := d2, dataBytesPerLocation := l2\<rparr>)"

definition AddUDPPacketFromTarget ::
  "shadowsocksMetrics \<Rightarrow> string \<Rightarrow> string \<Rightarrow> string \<Rightarrow> int \<Rightarrow> int \<Rightarrow> shadowsocksMetrics" where
  "AddUDPPacketFromTarget m clientLocation accessKey status targetProxyBytes proxyClientBytes =
     (let d1 = addIfNonZero targetProxyBytes (dataBytes m) [''p<t'', ''udp'', accessKey];
          l1 = addIfNonZero targetProxyBytes (dataBytesPerLocation m) [''p<t'', ''udp'', clientLocation];
          d2 = addIfNonZero proxyClientBytes d1 [''c<p'', ''udp'', accessKey];
          l2 = addIfNonZero proxyClientBytes l1 [''c<p'', ''udp'', clientLocation]
      in m\<lparr>dataBytes := d2, dataBytesPerLocation := l2\<rparr>)"

definition AddUDPNatEntry :: "shadowsocksMetrics \<Rightarrow> shadowsocksMetrics" where
  "AddUDPNatEntry m = m\<lparr>udpAddedNatEntries := udpAddedNatEntries m + 1\<rparr>"

definition RemoveUDPNatEntry :: "shadowsocksMetrics \<Rightarrow> shadowsocksMetrics" where
  "RemoveUDPNatEntry m = m\<lparr>udpRemovedNatEntries := udpRemovedNatEntries m + 1\<rparr>"

section \<open>Locations\<close>

text \<open>\<open>country\<close> is the lookup's error, no record, or the record's ISO code; the database itself may be missing.\<close>

definition GetLocation ::
  "(ip \<Rightarrow> string option result) option \<Rightarrow> (string \<Rightarrow> ip result) \<Rightarrow> string \<Rightarrow> string \<times> goerror option" where
  "GetLocation db host_ip a =
     (case db of
        None \<Rightarrow> ('''', None)
      | Some country \<Rightarrow>
          (case host_ip a of
             Ok p \<Rightarrow>
               if p = [] then (''XA'', Some (ErrorNew ''Failed to parse address as IP''))
               else if IsLoopback p then (''XL'', None)
               else if \<not> IsGlobalUnicast p then (''XL'', None)
               else (case country p of
                       Ok (Some code) \<Rightarrow>
                         if code = '''' then (''ZZ'', Some (ErrorNew ''IP Lookup has empty ISO code'')) else (code, None)
                     | Ok None \<Rightarrow> (''ZZ'', Some (ErrorNew ''IP lookup returned nil''))
                     | _ \<Rightarrow> (''XD'', Some (ErrorNew ''IP lookup failed'')))
           | _ \<Rightarrow> (''XA'', Some (ErrorNew ''Failed to split hostname and port''))))"

section \<open>Lemmas\<close>

lemma addIfNonZero_same [simp]: "0 \<le> v \<Longrightarrow> addIfNonZero v vec lvs lvs = vec lvs + v"
  by (simp add: addIfNonZero_def)

lemma addIfNonZero_other [simp]: "lvs \<noteq> ks \<Longrightarrow> addIfNonZero v vec lvs ks = vec ks"
  by (simp add: addIfNonZero_def)

section \<open>Properties\<close>

text \<open>A closed TCP connection is accounted exactly once: the counter of its location, status and key goes up by
  one, the byte counters of its key and of its location grow by the connection's four byte counts in their
  directions, and no other byte counter of any key or location changes.\<close>

lemma closed_connection_accounted:
  fixes data :: ProxyMetrics
  assumes "0 \<le> ClientProxy data" and "0 \<le> ProxyTarget data" and "0 \<le> TargetProxy data" and "0 \<le> ProxyClient data"
    and "m' = AddClosedTCPConnection m loc key status data t d"
  shows "tcpClosedConnections m' [loc, status, key] = tcpClosedConnections m [loc, status, key] + 1 \<and>
    dataBytes m' [''c>p'', ''tcp'', key] = dataBytes m [''c>p'', ''tcp'', key] + ClientProxy data \<and>
    dataBytes m' [''p>t'', ''tcp'', key] = dataBytes m [''p>t'', ''tcp'', key] + ProxyTarget data \<and>
    dataBytes m' [''p<t'', ''tcp'', key] = dataBytes m [''p<t'', ''tcp'', key] + TargetProxy data \<and>
    dataBytes m' [''c<p'', ''tcp'', key] = dataBytes m [''c<p'', ''tcp'', key] + ProxyClient data \<and>
    (key' = key \<or> dataBytes m' [dir, proto, key'] = dataBytes m [dir, proto, key']) \<and>
    (loc' = loc \<or> dataBytesPerLocation m' [dir, proto, loc'] = dataBytesPerLocation m [dir, proto, loc']) \<and>
    dataBytesPerLocation m' [''c>p'', ''tcp'', loc] = dataBytesPerLocation m [''c>p'', ''tcp'', loc] + ClientProxy data \<and>
    dataBytesPerLocation m' [''c<p'', ''tcp'', loc] = dataBytesPerLocation m [''c<p'', ''tcp'', loc] + ProxyClient data"
  using assms
  by (cases "key' = key"; cases "loc' = loc"; simp add: AddClosedTCPConnection_def Let_def Inc_def)

lemma closed_connection_accounted_witness:
  "dataBytes (AddClosedTCPConnection newShadowsocksMetrics '''' ''u'' ''OK''
     \<lparr>ClientProxy = 5, ProxyTarget = 4, TargetProxy = 3, ProxyClient = 0\<rparr> 1 2) [''p>t'', ''tcp'', ''u''] = 4"
  using closed_connection_accounted [of "\<lparr>ClientProxy = 5, ProxyTarget = 4, TargetProxy = 3, ProxyClient = 0\<rparr>"
      _ newShadowsocksMetrics "''''" "''u''" "''OK''" 1 2, OF _ _ _ _ refl]
  by (simp add: newShadowsocksMetrics_def)

text \<open>The location of a client. Every answer without error is the empty location of a missing database, the local
  location \<^verbatim>\<open>XL\<close> of an address that is not global unicast, or the non-empty code that the database gave for
  a global unicast address; every answer with an error is one of the three error codes.\<close>

lemma GetLocation_cases:
  "case GetLocation db host_ip a of
     (loc, None) \<Rightarrow> (db = None \<and> loc = '''') \<or> (\<exists>p. host_ip a = Ok p \<and> \<not> IsGlobalUnicast p \<and> loc = ''XL'') \<or>
        (\<exists>country p. db = Some country \<and> host_ip a = Ok p \<and> IsGlobalUnicast p \<and> country p = Ok (Some loc) \<and> loc \<noteq> '''')
   | (loc, Some e) \<Rightarrow> loc \<in> {''XA'', ''XD'', ''ZZ''}"
proof -
  have "\<not> IsGlobalUnicast p" if "IsLoopback p" for p
    using that by (simp add: IsGlobalUnicast_def)
  then show ?thesis
    by (auto simp: GetLocation_def split: option.splits result.splits)
qed

end
