(* ===== verification/Metrics_Labels.thy ===== *)
theory Metrics_Labels
  imports Complex_Main Metrics
begin

text \<open>
  How \<^verbatim>\<open>service/metrics/metrics.go\<close> declares its metrics: the names, labels and buckets it gives to Prometheus and
  the list it registers. Prometheus panics when a vector is used with another number of label values than it
  was declared with, when a counter is decreased, when the buckets of a histogram are not increasing, and when
  two metrics of one name are registered; the operations of theory \<^verbatim>\<open>Metrics\<close> are typed against the
  declarations.
\<close>

section \<open>Declarations\<close>

datatype metric =
    BuildInfo | AccessKeys | Ports | TcpProbes | TcpOpenConnections | TcpClosedConnections | TcpConnectionDurationMs
  | DataBytes | DataBytesPerLocation | TimeToCipherMs | UdpPacketsFromClientPerLocation | UdpAddedNatEntries
  | UdpRemovedNatEntries

text \<open>Namespace, subsystem (empty where the code gives none) and name.\<close>

fun metric_name :: "metric \<Rightarrow> string \<times> string \<times> string" where
  "metric_name BuildInfo = (''shadowsocks'', '''', ''build_info'')"
| "metric_name AccessKeys = (''shadowsocks'', '''', ''keys'')"
| "metric_name Ports = (''shadowsocks'', '''', ''ports'')"
| "metric_name TcpProbes = (''shadowsocks'', '''', ''tcp_probes'')"
| "metric_name TcpOpenConnections = (''shadowsocks'', ''tcp'', ''connections_opened'')"
| "metric_name TcpClosedConnections = (''shadowsocks'', ''tcp'', ''connections_closed'')"
| "metric_name TcpConnectionDurationMs = (''shadowsocks'', ''tcp'', ''connection_duration_ms'')"
| "metric_name DataBytes = (''shadowsocks'', '''', ''data_bytes'')"
| "metric_name DataBytesPerLocation = (''shadowsocks'', '''', ''data_bytes_per_location'')"
| "metric_name TimeToCipherMs = (''shadowsocks'', '''', ''time_to_cipher_ms'')"
| "metric_name UdpPacketsFromClientPerLocation = (''shadowsocks'', ''udp'', ''packets_from_client_per_location'')"
| "metric_name UdpAddedNatEntries = (''shadowsocks'', ''udp'', ''nat_entries_added'')"
| "metric_name UdpRemovedNatEntries = (''shadowsocks'', ''udp'', ''nat_entries_removed'')"

fun metric_labels :: "metric \<Rightarrow> string list" where
  "metric_labels BuildInfo = [''version'']"
| "metric_labels TcpProbes = [''port'', ''status'', ''error'']"
| "metric_labels TcpOpenConnections = [''location'']"
| "metric_labels TcpClosedConnections = [''location'', ''status'', ''access_key'']"
| "metric_labels TcpConnectionDurationMs = [''status'']"
| "metric_labels DataBytes = [''dir'', ''proto'', ''access_key'']"
| "metric_labels DataBytesPerLocation = [''dir'', ''proto'', ''location'']"
| "metric_labels TimeToCipherMs = [''proto'', ''found_key'']"
| "metric_labels UdpPacketsFromClientPerLocation = [''location'', ''status'']"
| "metric_labels _ = []"

text \<open>The buckets of the histograms, for durations in milliseconds.\<close>

fun metric_buckets :: "metric \<Rightarrow> rat list" where
  "metric_buckets TcpProbes = [0, 49, 50, 51, 73, 91]"
| "metric_buckets TcpConnectionDurationMs =
     [100, 1000, 60 * 1000, 60 * 60 * 1000, 24 * (60 * 60 * 1000), 7 * 24 * (60 * 60 * 1000)]"
| "metric_buckets TimeToCipherMs = [1 / 10, 1, 10, 100, 1000]"
| "metric_buckets _ = []"

text \<open>What \<^verbatim>\<open>NewPrometheusShadowsocksMetrics\<close> passes to \<^verbatim>\<open>MustRegister\<close>.\<close>

definition registered_metrics :: "metric list" where
  "registered_metrics =
     [BuildInfo, AccessKeys, Ports, TcpProbes, TcpOpenConnections, TcpClosedConnections, TcpConnectionDurationMs,
      DataBytes, DataBytesPerLocation, TimeToCipherMs, UdpPacketsFromClientPerLocation, UdpAddedNatEntries,
      UdpRemovedNatEntries]"

section \<open>Typing\<close>

text \<open>The labels with a fixed set of values.\<close>

definition label_value_ok :: "string \<Rightarrow> string \<Rightarrow> bool" where
  "label_value_ok l v \<longleftrightarrow>
     (l = ''dir'' \<longrightarrow> v \<in> {''c>p'', ''p>t'', ''p<t'', ''c<p''}) \<and> (l = ''proto'' \<longrightarrow> v \<in> {''tcp'', ''udp''}) \<and>
     (l = ''found_key'' \<longrightarrow> v \<in> {''true'', ''false''})"

definition has_labels :: "metric \<Rightarrow> string list \<Rightarrow> bool" where
  "has_labels k lvs \<longleftrightarrow> list_all2 label_value_ok (metric_labels k) lvs"

definition vec_labelled :: "metric \<Rightarrow> counter_vec \<Rightarrow> bool" where
  "vec_labelled k v \<longleftrightarrow> (\<forall>lvs. v lvs \<noteq> 0 \<longrightarrow> has_labels k lvs)"

definition hist_labelled :: "metric \<Rightarrow> (string list \<times> int) list \<Rightarrow> bool" where
  "hist_labelled k h \<longleftrightarrow> (\<forall>x \<in> set h. has_labels k (fst x))"

definition well_labelled :: "shadowsocksMetrics \<Rightarrow> bool" where
  "well_labelled m \<longleftrightarrow>
     vec_labelled BuildInfo (buildInfo m) \<and> vec_labelled DataBytes (dataBytes m) \<and>
     vec_labelled DataBytesPerLocation (dataBytesPerLocation m) \<and> hist_labelled TimeToCipherMs (timeToCipherMs m) \<and>
     hist_labelled TcpProbes (tcpProbes m) \<and> vec_labelled TcpOpenConnections (tcpOpenConnections m) \<and>
     vec_labelled TcpClosedConnections (tcpClosedConnections m) \<and>
     hist_labelled TcpConnectionDurationMs (tcpConnectionDurationMs m) \<and>
     vec_labelled UdpPacketsFromClientPerLocation (udpPacketsFromClientPerLocation m)"

text \<open>No counter of \<open>m'\<close> is below that of \<open>m\<close>, and no observation is lost.\<close>

definition counters_grow :: "shadowsocksMetrics \<Rightarrow> shadowsocksMetrics \<Rightarrow> bool" where
  "counters_grow m m' \<longleftrightarrow>
     (\<forall>lvs. dataBytes m lvs \<le> dataBytes m' lvs \<and> dataBytesPerLocation m lvs \<le> dataBytesPerLocation m' lvs \<and>
        tcpOpenConnections m lvs \<le> tcpOpenConnections m' lvs \<and> tcpClosedConnections m lvs \<le> tcpClosedConnections m' lvs \<and>
        udpPacketsFromClientPerLocation m lvs \<le> udpPacketsFromClientPerLocation m' lvs) \<and>
     udpAddedNatEntries m \<le> udpAddedNatEntries m' \<and> udpRemovedNatEntries m \<le> udpRemovedNatEntries m' \<and>
     (\<exists>x y z. timeToCipherMs m' = timeToCipherMs m @ x \<and> tcpProbes m' = tcpProbes m @ y \<and>
        tcpConnectionDurationMs m' = tcpConnectionDurationMs m @ z)"

datatype metrics_op =
    OpBuildInfo string
  | OpNumAccessKeys int int
  | OpOpenTCP string
  | OpClosedTCP string string string ProxyMetrics int int
  | OpProbe string string string ProxyMetrics
  | OpFromClient string string string int int int
  | OpFromTarget string string string int int
  | OpAddNat
  | OpRemoveNat

fun metrics_exec :: "shadowsocksMetrics \<Rightarrow> metrics_op \<Rightarrow> shadowsocksMetrics" where
  "metrics_exec m (OpBuildInfo v) = SetBuildInfo m v"
| "metrics_exec m (OpNumAccessKeys k p) = SetNumAccessKeys m k p"
| "metrics_exec m (OpOpenTCP l) = AddOpenTCPConnection m l"
| "metrics_exec m (OpClosedTCP l k st d t u) = AddClosedTCPConnection m l k st d t u"
| "metrics_exec m (OpProbe st r p d) = AddTCPProbe m st r p d"
| "metrics_exec m (OpFromClient l k st c p t) = AddUDPPacketFromClient m l k st c p t"
| "metrics_exec m (OpFromTarget l k st t p) = AddUDPPacketFromTarget m l k st t p"
| "metrics_exec m OpAddNat = AddUDPNatEntry m"
| "metrics_exec m OpRemoveNat = RemoveUDPNatEntry m"

section \<open>Lemmas\<close>

lemma vec_labelled_upd:
  "vec_labelled k v \<Longrightarrow> has_labels k lvs \<Longrightarrow> vec_labelled k (v(lvs := x))"
  "vec_labelled k v \<Longrightarrow> has_labels k lvs \<Longrightarrow> vec_labelled k (Inc v lvs)"
  "vec_labelled k v \<Longrightarrow> has_labels k lvs \<Longrightarrow> vec_labelled k (addIfNonZero n v lvs)"
  by (auto simp: vec_labelled_def Inc_def addIfNonZero_def)

lemma hist_labelled_snoc: "hist_labelled k h \<Longrightarrow> has_labels k lvs \<Longrightarrow> hist_labelled k (h @ [(lvs, x)])"
  by (simp add: hist_labelled_def)

lemma has_labels_simps [simp]:
  "has_labels BuildInfo [v]" "has_labels TcpProbes [p, st, e]" "has_labels TcpOpenConnections [l]"
  "has_labels TcpClosedConnections [l, st, k]" "has_labels TcpConnectionDurationMs [st]"
  "has_labels DataBytes [d, pr, k] \<longleftrightarrow> d \<in> {''c>p'', ''p>t'', ''p<t'', ''c<p''} \<and> pr \<in> {''tcp'', ''udp''}"
  "has_labels DataBytesPerLocation [d, pr, k] \<longleftrightarrow> d \<in> {''c>p'', ''p>t'', ''p<t'', ''c<p''} \<and> pr \<in> {''tcp'', ''udp''}"
  "has_labels TimeToCipherMs [pr, isFound k] \<longleftrightarrow> pr \<in> {''tcp'', ''udp''}"
  "has_labels UdpPacketsFromClientPerLocation [l, st]"
  by (auto simp: has_labels_def label_value_ok_def isFound_def)

lemmas labelled_intros = vec_labelled_upd hist_labelled_snoc

lemma metrics_exec_labelled: "well_labelled m \<Longrightarrow> well_labelled (metrics_exec m x)"
  by (cases x)
    (simp_all add: well_labelled_def labelled_intros SetBuildInfo_def SetNumAccessKeys_def AddOpenTCPConnection_def
      AddClosedTCPConnection_def AddTCPProbe_def AddUDPPacketFromClient_def AddUDPPacketFromTarget_def
      AddUDPNatEntry_def RemoveUDPNatEntry_def Let_def)

lemma vec_grows: "v lvs \<le> Inc v l lvs" "v lvs \<le> w lvs \<Longrightarrow> v lvs \<le> addIfNonZero n w l lvs"
  by (auto simp: Inc_def addIfNonZero_def)

lemma metrics_exec_grows: "counters_grow m (metrics_exec m x)"
  by (cases x)
    (simp_all add: counters_grow_def vec_grows SetBuildInfo_def SetNumAccessKeys_def AddOpenTCPConnection_def
      AddClosedTCPConnection_def AddTCPProbe_def AddUDPPacketFromClient_def AddUDPPacketFromTarget_def
      AddUDPNatEntry_def RemoveUDPNatEntry_def Let_def)

lemma well_labelled_new: "well_labelled newShadowsocksMetrics"
  by (simp add: well_labelled_def vec_labelled_def hist_labelled_def newShadowsocksMetrics_def)

section \<open>Properties\<close>

text \<open>C33: The metrics are well typed. After any sequence of operations on a new metrics object every series of every
  vector has exactly the label values its declaration asks for (with a direction, a protocol and a found-key
  flag out of the fixed sets), so that no operation uses a vector with the wrong number of labels; every
  operation leaves counters and observations as they are or adds to them; and the list that is registered holds
  every declared metric exactly once, under distinct names, with increasing buckets.\<close>

theorem metrics_well_typed:
  "well_labelled (foldl metrics_exec newShadowsocksMetrics ops) \<and>
   counters_grow m (metrics_exec m x) \<and>
   distinct registered_metrics \<and> (\<forall>k. k \<in> set registered_metrics \<and> sorted_wrt (<) (metric_buckets k)) \<and>
   distinct (map metric_name registered_metrics)"
proof (intro conjI allI)
  show "well_labelled (foldl metrics_exec newShadowsocksMetrics ops)"
    by (induction ops rule: rev_induct) (simp_all add: well_labelled_new metrics_exec_labelled)
  show "counters_grow m (metrics_exec m x)" by (rule metrics_exec_grows)
  show "k \<in> set registered_metrics" "sorted_wrt (<) (metric_buckets k)" for k
    by (cases k; simp add: registered_metrics_def)+
  show "distinct registered_metrics" "distinct (map metric_name registered_metrics)"
    by (simp_all add: registered_metrics_def)
qed

end
