(* ===== verification/Net_Stream.thy ===== *)
theory Net_Stream
  imports Go_IO
begin

text \<open>
  Model of \<^verbatim>\<open>net/stream.go\<close>: connections whose reader and writer are replaced (\<^verbatim>\<open>WrapConn\<close>), and copying between
  two connections in both directions (\<^verbatim>\<open>Relay\<close>). A plain connection is a value of a parameter type, so that the
  client can keep the state it needs of its socket.

  \<^verbatim>\<open>Relay\<close> runs its two directions concurrently; each touches one half of each connection, which is what
  \<open>relay_order\<close> states.
\<close>

section \<open>Wrapped connections\<close>

datatype ('k, 'r, 'w) DuplexConn =
    NetConn 'k
  | duplexConnAdaptor "('k, 'r, 'w) DuplexConn" 'r 'w

definition WrapConn :: "('k, 'r, 'w) DuplexConn \<Rightarrow> 'r \<Rightarrow> 'w \<Rightarrow> ('k, 'r, 'w) DuplexConn" where
  "WrapConn c r w =
     (let conn = (case c of duplexConnAdaptor a r0 w0 \<Rightarrow> a | NetConn k \<Rightarrow> c)
      in duplexConnAdaptor conn r w)"

text \<open>\<open>CloseRead\<close> and \<open>CloseWrite\<close> pass through to the wrapped connection, on which they do \<open>close\<close>.\<close>

fun close_half :: "('k \<Rightarrow> 'k) \<Rightarrow> ('k, 'r, 'w) DuplexConn \<Rightarrow> ('k, 'r, 'w) DuplexConn" where
  "close_half close (NetConn k) = NetConn (close k)"
| "close_half close (duplexConnAdaptor c r w) = duplexConnAdaptor (close_half close c) r w"

fun nesting :: "('k, 'r, 'w) DuplexConn \<Rightarrow> nat" where
  "nesting (NetConn k) = 0"
| "nesting (duplexConnAdaptor c r w) = Suc (nesting c)"

fun bottom :: "('k, 'r, 'w) DuplexConn \<Rightarrow> 'k" where
  "bottom (NetConn k) = k"
| "bottom (duplexConnAdaptor c r w) = bottom c"

lemma WrapConn_nesting:
  "nesting c \<le> 1 \<Longrightarrow> nesting (WrapConn c r w) = 1" "bottom (WrapConn c r w) = bottom c"
  by (cases c; simp add: WrapConn_def)+

lemma close_half_bottom [simp]:
  "bottom (close_half f c) = f (bottom c)" "nesting (close_half f c) = nesting c"
  by (induction c) simp_all

section \<open>Copying\<close>

text \<open>\<^verbatim>\<open>io.Copy\<close>: the loop over a buffer of 32 KiB, with \<open>written\<close> bytes so far.\<close>

function io_copy :: "writer \<Rightarrow> reader \<Rightarrow> nat \<Rightarrow> nat \<times> goerror option \<times> writer \<times> reader" where
  "io_copy w r written =
     (case Read r 32768 of
        (d, er, r') \<Rightarrow>
          (let (n, ew, w') = (if d = [] then (0, None, w) else Write w d)
           in case ew of
                Some e \<Rightarrow> (written + n, Some e, w', r')
              | None \<Rightarrow>
                  (case er of
                     Some e \<Rightarrow> (written + n, (if e = EOF then None else Some e), w', r')
                   | None \<Rightarrow> io_copy w' r' (written + n))))"
  by pat_completeness auto
termination
  by (relation "measure (\<lambda>(w, r, n). reads_left r)") (auto dest: Read_progress [OF sym])

declare io_copy.simps [simp del]

text \<open>A connection between a relay and a peer.\<close>

record duplex =
  dx_reader :: reader
  dx_writer :: writer
  dx_readClosed :: bool
  dx_writeClosed :: bool

definition copyOneWay :: "duplex \<Rightarrow> duplex \<Rightarrow> nat \<times> goerror option \<times> duplex \<times> duplex" where
  "copyOneWay leftConn rightConn =
     (case io_copy (dx_writer leftConn) (dx_reader rightConn) 0 of
        (n, err, w', r') \<Rightarrow>
          (n, err, leftConn\<lparr>dx_writer := w', dx_writeClosed := True\<rparr>, rightConn\<lparr>dx_reader := r', dx_readClosed := True\<rparr>))"

text \<open>\<open>Relay\<close>: the bytes from right to left, from left to right, the error, and the connections. The goroutine copies to
  the right.\<close>

definition Relay :: "duplex \<Rightarrow> duplex \<Rightarrow> nat \<times> nat \<times> goerror option \<times> duplex \<times> duplex" where
  "Relay leftConn rightConn =
     (case copyOneWay rightConn leftConn of
        (m, rsErr, right1, left1) \<Rightarrow>
          (case copyOneWay left1 right1 of
             (n, err, left2, right2) \<Rightarrow> (n, m, (case err of None \<Rightarrow> rsErr | Some e \<Rightarrow> Some e), left2, right2)))"

section \<open>Lemmas\<close>

text \<open>\<^verbatim>\<open>io.Copy\<close> returns after copying a prefix of what the reader holds, and everything into a writer that does not
  fail.\<close>

lemma io_copy_spec:
  assumes "eof_chained r"
  obtains n err w' r' d where "io_copy w r m = (m + n, err, w', r')" "concat (wout w') = concat (wout w) @ d"
    "length d = n" "\<exists>rest. contents r = d @ rest"
    "writes_all w \<Longrightarrow> d = contents r \<and> err = (if final_error r = EOF then None else Some (final_error r))"
proof -
  have "\<exists>n err w' r' d. io_copy w r m = (m + n, err, w', r') \<and> concat (wout w') = concat (wout w) @ d \<and>
      length d = n \<and> (\<exists>rest. contents r = d @ rest) \<and>
      (writes_all w \<longrightarrow> d = contents r \<and> err = (if final_error r = EOF then None else Some (final_error r)))"
    using assms
  proof (induction w r m rule: io_copy.induct)
    case (1 w r m)
    obtain d er r1 where rd: "Read r 32768 = (d, er, r1)" by (cases "Read r 32768")
    note sp = Read_spec [OF "1.prems" rd]
    define x where "x = (if d = [] then (0, None, w) else Write w d)"
    obtain n ew w1 where x: "x = (n, ew, w1)" by (cases x)
    have wr: "n \<le> length d \<and> concat (wout w1) = concat (wout w) @ take n d \<and> (ew = None \<longrightarrow> n = length d) \<and>
      (writes_all w \<longrightarrow> ew = None \<and> writes_all w1)"
    proof (cases "d = []")
      case True
      with x show ?thesis by (simp add: x_def)
    next
      case False
      then have w: "Write w d = (n, ew, w1)" using x by (simp add: x_def)
      then have "ew = None \<longrightarrow> n = length d"
        by (cases "wplan w") (auto simp: Write_def split: option.splits)
      moreover have "writes_all w \<longrightarrow> ew = None \<and> writes_all w1"
        using w by (metis Write_all prod.inject)
      ultimately show ?thesis using Write_bound [OF w] by simp
    qed
    have step: "io_copy w r m = (case ew of Some e \<Rightarrow> (m + n, Some e, w1, r1)
        | None \<Rightarrow> (case er of Some e \<Rightarrow> (m + n, (if e = EOF then None else Some e), w1, r1)
                   | None \<Rightarrow> io_copy w1 r1 (m + n)))"
      using rd x by (simp add: io_copy.simps [of w r m] x_def)
    show ?case
    proof (cases "ew = None \<and> er = None")
      case True
      with wr have n: "n = length d" by simp
      have "\<exists>k err w' r' e. io_copy w1 r1 (m + n) = (m + n + k, err, w', r') \<and> concat (wout w') = concat (wout w1) @ e \<and>
          length e = k \<and> (\<exists>rest. contents r1 = e @ rest) \<and>
          (writes_all w1 \<longrightarrow> e = contents r1 \<and> err = (if final_error r1 = EOF then None else Some (final_error r1)))"
        by (rule "1.IH" [OF rd [symmetric] refl x [unfolded x_def, symmetric] refl]) (use True sp(4) in simp_all)
      then obtain k err w' r' e where IH: "io_copy w1 r1 (m + n) = (m + n + k, err, w', r')"
        "concat (wout w') = concat (wout w1) @ e" "length e = k" "\<exists>rest. contents r1 = e @ rest"
        "writes_all w1 \<longrightarrow> e = contents r1 \<and> err = (if final_error r1 = EOF then None else Some (final_error r1))"
        by blast
      with True step n sp(1,3) wr show ?thesis
        by (intro exI [of _ "n + k"] exI [of _ err] exI [of _ w'] exI [of _ r'] exI [of _ "d @ e"]) auto
    next
      case False
      have rest: "contents r = take n d @ (drop n d @ contents r1)" using sp(1) by simp
      obtain err where "io_copy w r m = (m + n, err, w1, r1)"
        "writes_all w \<Longrightarrow> err = (if final_error r = EOF then None else Some (final_error r)) \<and> contents r = [] \<and> d = []"
        using False step sp(5) wr by (cases ew; cases er) auto
      with wr rest show ?thesis
        by (intro exI [of _ n] exI [of _ err] exI [of _ w1] exI [of _ r1] exI [of _ "take n d"]) auto
    qed
  qed
  then show thesis using that by blast
qed

lemma copyOneWay_spec:
  assumes "eof_chained (dx_reader right)"
  obtains n err d left' right' where "copyOneWay left right = (n, err, left', right')" "length d = n"
    "concat (wout (dx_writer left')) = concat (wout (dx_writer left)) @ d" "\<exists>rest. contents (dx_reader right) = d @ rest"
    "dx_writeClosed left'" "dx_readClosed right'" "dx_reader left' = dx_reader left" "dx_writer right' = dx_writer right"
    "dx_readClosed left' = dx_readClosed left" "dx_writeClosed right' = dx_writeClosed right"
    "writes_all (dx_writer left) \<Longrightarrow> d = contents (dx_reader right) \<and>
       err = (if final_error (dx_reader right) = EOF then None else Some (final_error (dx_reader right)))"
  by (rule io_copy_spec [OF assms, of "dx_writer left" 0]) (simp add: copyOneWay_def that)

text \<open>The two directions commute: it does not matter which of them finishes first.\<close>

lemma relay_order:
  assumes "copyOneWay right left = (m, rsErr, right1, left1)" and "copyOneWay left1 right1 = (n, err, left2, right2)"
  shows "\<exists>left1' right1'. copyOneWay left right = (n, err, left1', right1') \<and>
    copyOneWay right1' left1' = (m, rsErr, right2, left2)"
  using assms by (auto simp: copyOneWay_def split: prod.splits)

section \<open>Properties\<close>

text \<open>C40: A relay returns and delivers. Whatever the two peers send and whenever a socket fails, \<open>Relay\<close> returns, each
  side has received a prefix of what the other sent whose length is the returned count, and both connections
  are closed in both directions. If nothing fails, each side has received everything the other sent, and no
  error is returned. It does not matter which of the two concurrent directions comes first.\<close>

theorem Relay_delivers:
  assumes "eof_chained (dx_reader l)" and "eof_chained (dx_reader r)"
  shows "\<exists>n m err l' r' d e. Relay l r = (n, m, err, l', r') \<and>
     concat (wout (dx_writer l')) = concat (wout (dx_writer l)) @ d \<and> length d = n \<and>
     concat (wout (dx_writer r')) = concat (wout (dx_writer r)) @ e \<and> length e = m \<and>
     (\<exists>x. contents (dx_reader r) = d @ x) \<and> (\<exists>x. contents (dx_reader l) = e @ x) \<and>
     dx_readClosed l' \<and> dx_writeClosed l' \<and> dx_readClosed r' \<and> dx_writeClosed r' \<and>
     (writes_all (dx_writer l) \<and> writes_all (dx_writer r) \<and> final_error (dx_reader l) = EOF \<and> final_error (dx_reader r) = EOF \<longrightarrow>
        d = contents (dx_reader r) \<and> e = contents (dx_reader l) \<and> err = None) \<and>
     (\<exists>l1 r1 lerr rerr. copyOneWay l r = (n, lerr, l1, r1) \<and> copyOneWay r1 l1 = (m, rerr, r', l') \<and>
        err = (case lerr of None \<Rightarrow> rerr | Some x \<Rightarrow> Some x))"
proof -
  obtain m rsErr e r1 l1 where 1: "copyOneWay r l = (m, rsErr, r1, l1)" "length e = m"
    "concat (wout (dx_writer r1)) = concat (wout (dx_writer r)) @ e" "\<exists>x. contents (dx_reader l) = e @ x"
    "dx_writeClosed r1" "dx_readClosed l1" "dx_reader r1 = dx_reader r" "dx_writer l1 = dx_writer l"
    "writes_all (dx_writer r) \<Longrightarrow> e = contents (dx_reader l) \<and>
       rsErr = (if final_error (dx_reader l) = EOF then None else Some (final_error (dx_reader l)))"
    by (rule copyOneWay_spec [OF assms(1), of r]) blast
  obtain n err d l2 r2 where 2: "copyOneWay l1 r1 = (n, err, l2, r2)" "length d = n"
    "concat (wout (dx_writer l2)) = concat (wout (dx_writer l1)) @ d" "\<exists>x. contents (dx_reader r1) = d @ x"
    "dx_writeClosed l2" "dx_readClosed r2" "dx_writer r2 = dx_writer r1" "dx_readClosed l2 = dx_readClosed l1"
    "dx_writeClosed r2 = dx_writeClosed r1"
    "writes_all (dx_writer l1) \<Longrightarrow> d = contents (dx_reader r1) \<and>
       err = (if final_error (dx_reader r1) = EOF then None else Some (final_error (dx_reader r1)))"
    by (rule copyOneWay_spec [OF assms(2) [folded 1(7)], of l1]) blast
  let ?err = "case err of None \<Rightarrow> rsErr | Some e \<Rightarrow> Some e"
  have relay: "Relay l r = (n, m, ?err, l2, r2)"
    using 1(1) 2(1) by (simp add: Relay_def)
  have all: "d = contents (dx_reader r) \<and> e = contents (dx_reader l) \<and> ?err = None"
    if "writes_all (dx_writer l) \<and> writes_all (dx_writer r) \<and> final_error (dx_reader l) = EOF \<and> final_error (dx_reader r) = EOF"
    using that 1(9) 2(10) by (simp add: 1(7,8))
  have wl: "concat (wout (dx_writer l2)) = concat (wout (dx_writer l)) @ d"
    and wr: "concat (wout (dx_writer r2)) = concat (wout (dx_writer r)) @ e"
    and rr: "\<exists>x. contents (dx_reader r) = d @ x" and closed: "dx_readClosed l2" "dx_writeClosed r2"
    using 2(3,4,7,8,9) 1(3,5,6) by (simp_all add: 1(7,8))
  have other: "\<exists>l1 r1 lerr rerr. copyOneWay l r = (n, lerr, l1, r1) \<and> copyOneWay r1 l1 = (m, rerr, r2, l2) \<and>
      ?err = (case lerr of None \<Rightarrow> rerr | Some x \<Rightarrow> Some x)"
    using relay_order [OF 1(1) 2(1)] by blast
  show ?thesis
    by (rule exI [of _ n], rule exI [of _ m], rule exI [of _ ?err], rule exI [of _ l2], rule exI [of _ r2],
        rule exI [of _ d], rule exI [of _ e], intro conjI relay wl wr rr closed other 1(2,4) 2(2,5,6) impI)
      (use all in blast)+
qed

theorem Relay_delivers_witness:
  "\<exists>n m err l' r'. Relay \<lparr>dx_reader = ConnReader [[1, 2], [3]] EOF, dx_writer = \<lparr>wout = [], wplan = []\<rparr>,
        dx_readClosed = False, dx_writeClosed = False\<rparr>
      \<lparr>dx_reader = ConnReader [[4]] EOF, dx_writer = \<lparr>wout = [], wplan = []\<rparr>,
        dx_readClosed = False, dx_writeClosed = False\<rparr> = (n, m, err, l', r') \<and> n = 1 \<and> m = 3 \<and> err = None"
proof -
  let ?l = "\<lparr>dx_reader = ConnReader [[1, 2], [3]] EOF, dx_writer = \<lparr>wout = [], wplan = []\<rparr>,
        dx_readClosed = False, dx_writeClosed = False\<rparr>"
  let ?r = "\<lparr>dx_reader = ConnReader [[4]] EOF, dx_writer = \<lparr>wout = [], wplan = []\<rparr>,
        dx_readClosed = False, dx_writeClosed = False\<rparr>"
  from Relay_delivers [of ?l ?r] show ?thesis by (fastforce simp: writes_all_def)
qed

end
