(* ===== verification/Metrics_Conn.thy ===== *)
theory Metrics_Conn
  imports Metrics_Labels Net_Stream
begin

text \<open>
  The rest of \<^verbatim>\<open>service/metrics/metrics.go\<close>: connections that count their bytes (\<^verbatim>\<open>MeasureConn\<close>), and the metrics that
  record nothing (\<^verbatim>\<open>NoOpMetrics\<close>). The two counters that a measured connection points to are fields of it; like
  the other byte counts they are integers without a width. Closing passes through to the connection.
\<close>

section \<open>Measured connections\<close>

record measuredConn =
  mc_conn :: duplex
  readCount :: int
  writeCount :: int

definition MeasureConn :: "duplex \<Rightarrow> int \<Rightarrow> int \<Rightarrow> measuredConn" where
  "MeasureConn conn bytesSent bytesReceived = \<lparr>mc_conn = conn, readCount = bytesReceived, writeCount = bytesSent\<rparr>"

definition measured_Read :: "measuredConn \<Rightarrow> nat \<Rightarrow> bytes \<times> goerror option \<times> measuredConn" where
  "measured_Read c k =
     (case Read (dx_reader (mc_conn c)) k of
        (d, err, r') \<Rightarrow>
          (d, err, c\<lparr>mc_conn := (mc_conn c)\<lparr>dx_reader := r'\<rparr>, readCount := readCount c + int (length d)\<rparr>))"

definition measured_WriteTo :: "measuredConn \<Rightarrow> writer \<Rightarrow> nat \<times> goerror option \<times> writer \<times> measuredConn" where
  "measured_WriteTo c w =
     (case io_copy w (dx_reader (mc_conn c)) 0 of
        (n, err, w', r') \<Rightarrow>
          (n, err, w', c\<lparr>mc_conn := (mc_conn c)\<lparr>dx_reader := r'\<rparr>, readCount := readCount c + int n\<rparr>))"

definition measured_Write :: "measuredConn \<Rightarrow> bytes \<Rightarrow> nat \<times> goerror option \<times> measuredConn" where
  "measured_Write c b =
     (case Write (dx_writer (mc_conn c)) b of
        (n, err, w') \<Rightarrow>
          (n, err, c\<lparr>mc_conn := (mc_conn c)\<lparr>dx_writer := w'\<rparr>, writeCount := writeCount c + int n\<rparr>))"

definition measured_ReadFrom :: "measuredConn \<Rightarrow> reader \<Rightarrow> nat \<times> goerror option \<times> reader \<times> measuredConn" where
  "measured_ReadFrom c r =
     (case io_copy (dx_writer (mc_conn c)) r 0 of
        (n, err, w', r') \<Rightarrow>
          (n, err, r', c\<lparr>mc_conn := (mc_conn c)\<lparr>dx_writer := w'\<rparr>, writeCount := writeCount c + int n\<rparr>))"

datatype conn_op = CallRead nat | CallWriteTo writer | CallWrite bytes | CallReadFrom reader

fun measured_exec :: "measuredConn \<Rightarrow> conn_op \<Rightarrow> measuredConn" where
  "measured_exec c (CallRead k) = snd (snd (measured_Read c k))"
| "measured_exec c (CallWriteTo w) = snd (snd (snd (measured_WriteTo c w)))"
| "measured_exec c (CallWrite b) = snd (snd (measured_Write c b))"
| "measured_exec c (CallReadFrom r) = snd (snd (snd (measured_ReadFrom c r)))"

section \<open>Metrics that record nothing\<close>

text \<open>\<open>NoOpMetrics\<close> has no state, and its \<open>GetLocation\<close> finds nothing.\<close>

fun noop_exec :: "unit \<Rightarrow> metrics_op \<Rightarrow> unit" where
  "noop_exec m (OpBuildInfo v) = m"
| "noop_exec m (OpNumAccessKeys k p) = m"
| "noop_exec m (OpOpenTCP l) = m"
| "noop_exec m (OpClosedTCP l k st d t u) = m"
| "noop_exec m (OpProbe st r p d) = m"
| "noop_exec m (OpFromClient l k st c p t) = m"
| "noop_exec m (OpFromTarget l k st t p) = m"
| "noop_exec m OpAddNat = m"
| "noop_exec m OpRemoveNat = m"

definition noop_GetLocation :: "string \<Rightarrow> string \<times> goerror option" where
  "noop_GetLocation a = ('''', None)"

text \<open>A server without a geoip database gets the same answers from the metrics that record.\<close>

lemma noop_GetLocation_without_db: "noop_GetLocation a = GetLocation None host_ip a"
  by (simp add: noop_GetLocation_def GetLocation_def)

section \<open>Lemmas\<close>

lemma Write_count: "Write w b = (n, err, w') \<Longrightarrow> length (concat (wout w')) = length (concat (wout w)) + n"
  by (drule Write_bound) (simp add: min_def)

text \<open>Copying takes a prefix of what the reader holds and delivers a prefix of that, all of it to a writer that does not
  fail.\<close>

lemma io_copy_takes:
  assumes "eof_chained r"
  shows "case io_copy w r m of (k, err, w', r') \<Rightarrow>
    \<exists>d. contents r = d @ contents r' \<and> eof_chained r' \<and> m \<le> k \<and> k \<le> m + length d \<and>
      length (concat (wout w')) + m = length (concat (wout w)) + k \<and> (writes_all w \<longrightarrow> k = m + length d)"
  using assms
proof (induction w r m rule: io_copy.induct)
  case (1 w r m)
  obtain d er r1 where rd: "Read r 32768 = (d, er, r1)" by (cases "Read r 32768")
  note sp = Read_spec [OF "1.prems" rd]
  obtain n ew w1 where x: "(if d = [] then (0, None, w) else Write w d) = (n, ew, w1)"
    by (cases "if d = [] then (0, None, w) else Write w d")
  have wr: "n \<le> length d" "length (concat (wout w1)) = length (concat (wout w)) + n" "ew = None \<longrightarrow> n = length d"
    "writes_all w \<longrightarrow> ew = None \<and> writes_all w1"
  proof -
    have "n \<le> length d \<and> length (concat (wout w1)) = length (concat (wout w)) + n \<and> (ew = None \<longrightarrow> n = length d) \<and>
      (writes_all w \<longrightarrow> ew = None \<and> writes_all w1)"
    proof (cases "d = []")
      case True
      with x show ?thesis by simp
    next
      case False
      then have w: "Write w d = (n, ew, w1)" using x by simp
      have "ew = None \<longrightarrow> n = length d"
        using w by (cases "wplan w") (auto simp: Write_def split: option.splits)
      moreover have "writes_all w \<longrightarrow> ew = None \<and> writes_all w1" using w by (metis Write_all prod.inject)
      ultimately show ?thesis using Write_bound [OF w] Write_count [OF w] by blast
    qed
    then show "n \<le> length d" "length (concat (wout w1)) = length (concat (wout w)) + n" "ew = None \<longrightarrow> n = length d"
      "writes_all w \<longrightarrow> ew = None \<and> writes_all w1" by blast+
  qed
  have step: "io_copy w r m = (case ew of Some e \<Rightarrow> (m + n, Some e, w1, r1)
      | None \<Rightarrow> (case er of Some e \<Rightarrow> (m + n, (if e = EOF then None else Some e), w1, r1)
                 | None \<Rightarrow> io_copy w1 r1 (m + n)))"
    using rd x by (simp add: io_copy.simps [of w r m])
  show ?case
  proof (cases "ew = None \<and> er = None")
    case True
    have "case io_copy w1 r1 (m + n) of (k, err, w', r') \<Rightarrow>
      \<exists>e. contents r1 = e @ contents r' \<and> eof_chained r' \<and> m + n \<le> k \<and> k \<le> m + n + length e \<and>
        length (concat (wout w')) + (m + n) = length (concat (wout w1)) + k \<and> (writes_all w1 \<longrightarrow> k = m + n + length e)"
      by (rule "1.IH" [OF rd [symmetric] refl x [symmetric] refl]) (use True sp(4) in simp_all)
    then obtain k err w' r' e where IH: "io_copy w1 r1 (m + n) = (k, err, w', r')" "contents r1 = e @ contents r'"
      "eof_chained r'" "m + n \<le> k" "k \<le> m + n + length e"
      "length (concat (wout w')) + (m + n) = length (concat (wout w1)) + k" "writes_all w1 \<longrightarrow> k = m + n + length e"
      by (auto split: prod.splits)
    have "contents r = (d @ e) @ contents r'" using sp(1) IH(2) by simp
    with IH wr True step show ?thesis by (auto intro!: exI [of _ "d @ e"])
  next
    case False
    then obtain err where "io_copy w r m = (m + n, err, w1, r1)" using step by (cases ew; cases er) auto
    with wr sp False show ?thesis by (auto intro!: exI [of _ d])
  qed
qed

text \<open>Over any calls, the write counter grows by exactly the bytes that the connection accepted. The read counter grows by
  at most the bytes that were taken from the connection, and by exactly them unless some \<open>WriteTo\<close> met a writer
  that failed.\<close>

definition measured_ok :: "conn_op \<Rightarrow> bool" where
  "measured_ok x = (case x of CallReadFrom r \<Rightarrow> eof_chained r | _ \<Rightarrow> True)"

definition delivers :: "conn_op \<Rightarrow> bool" where
  "delivers x = (case x of CallWriteTo w \<Rightarrow> writes_all w | _ \<Rightarrow> True)"

lemma measured_exec_counts:
  assumes "eof_chained (dx_reader (mc_conn c))" and "measured_ok x"
  shows "\<exists>d. contents (dx_reader (mc_conn c)) = d @ contents (dx_reader (mc_conn (measured_exec c x))) \<and>
      eof_chained (dx_reader (mc_conn (measured_exec c x))) \<and>
      readCount c \<le> readCount (measured_exec c x) \<and> readCount (measured_exec c x) \<le> readCount c + int (length d) \<and>
      (delivers x \<longrightarrow> readCount (measured_exec c x) = readCount c + int (length d)) \<and>
      writeCount (measured_exec c x) - writeCount c =
        int (length (concat (wout (dx_writer (mc_conn (measured_exec c x)))))) - int (length (concat (wout (dx_writer (mc_conn c)))))"
proof (cases x)
  case (CallRead k)
  obtain d err r' where rd: "Read (dx_reader (mc_conn c)) k = (d, err, r')" by (cases "Read (dx_reader (mc_conn c)) k")
  from Read_spec [OF assms(1) rd] CallRead show ?thesis by (auto simp: measured_Read_def rd)
next
  case (CallWriteTo w)
  obtain k err w' r' where cp: "io_copy w (dx_reader (mc_conn c)) 0 = (k, err, w', r')"
    by (cases "io_copy w (dx_reader (mc_conn c)) 0")
  from io_copy_takes [OF assms(1), where w = w and m = 0] CallWriteTo show ?thesis
    by (auto simp: measured_WriteTo_def cp delivers_def)
next
  case (CallWrite b)
  obtain n err w' where wr: "Write (dx_writer (mc_conn c)) b = (n, err, w')" by (cases "Write (dx_writer (mc_conn c)) b")
  from Write_count [OF wr] assms(1) CallWrite show ?thesis by (auto simp: measured_Write_def wr)
next
  case (CallReadFrom r)
  with assms(2) have r: "eof_chained r" by (simp add: measured_ok_def)
  obtain k err w' r' where cp: "io_copy (dx_writer (mc_conn c)) r 0 = (k, err, w', r')"
    by (cases "io_copy (dx_writer (mc_conn c)) r 0")
  from io_copy_takes [OF r, where w = "dx_writer (mc_conn c)" and m = 0] assms(1) CallReadFrom show ?thesis
    by (auto simp: measured_ReadFrom_def cp)
qed

lemma MeasureConn_exact:
  assumes "eof_chained (dx_reader conn)" and "\<forall>x \<in> set ops. measured_ok x"
    and "c = foldl measured_exec (MeasureConn conn 0 0) ops"
  shows "\<exists>d. contents (dx_reader conn) = d @ contents (dx_reader (mc_conn c)) \<and> readCount c \<le> int (length d) \<and>
      ((\<forall>x \<in> set ops. delivers x) \<longrightarrow> readCount c = int (length d)) \<and>
      writeCount c = int (length (concat (wout (dx_writer (mc_conn c))))) - int (length (concat (wout (dx_writer conn))))"
proof -
  have "\<exists>d. contents (dx_reader conn) = d @ contents (dx_reader (mc_conn c)) \<and> eof_chained (dx_reader (mc_conn c)) \<and>
      readCount c \<le> int (length d) \<and> ((\<forall>x \<in> set ops. delivers x) \<longrightarrow> readCount c = int (length d)) \<and>
      writeCount c = int (length (concat (wout (dx_writer (mc_conn c))))) - int (length (concat (wout (dx_writer conn))))"
    using assms(2,3)
  proof (induction ops arbitrary: c rule: rev_induct)
    case Nil
    then show ?case using assms(1) by (simp add: MeasureConn_def)
  next
    case (snoc x xs)
    define c0 where "c0 = foldl measured_exec (MeasureConn conn 0 0) xs"
    from snoc.IH [OF _ c0_def] snoc.prems(1) obtain d where d: "contents (dx_reader conn) = d @ contents (dx_reader (mc_conn c0))"
      "eof_chained (dx_reader (mc_conn c0))" "readCount c0 \<le> int (length d)"
      "(\<forall>x \<in> set xs. delivers x) \<longrightarrow> readCount c0 = int (length d)"
      "writeCount c0 = int (length (concat (wout (dx_writer (mc_conn c0))))) - int (length (concat (wout (dx_writer conn))))"
      by auto
    have c: "c = measured_exec c0 x" using snoc.prems(2) by (simp add: c0_def)
    from measured_exec_counts [OF d(2), of x] snoc.prems(1) obtain e where
      "contents (dx_reader (mc_conn c0)) = e @ contents (dx_reader (mc_conn c))" "eof_chained (dx_reader (mc_conn c))"
      "readCount c \<le> readCount c0 + int (length e)" "delivers x \<longrightarrow> readCount c = readCount c0 + int (length e)"
      "writeCount c - writeCount c0 =
         int (length (concat (wout (dx_writer (mc_conn c))))) - int (length (concat (wout (dx_writer (mc_conn c0)))))"
      unfolding c by auto
    with d show ?case by (intro exI [of _ "d @ e"]) auto
  qed
  then show ?thesis by blast
qed

end
