(* ===== verification/SS_Client.thy ===== *)
theory SS_Client
  imports Net_Stream SS_Stream_Session SS_Packet
begin

text \<open>
  Model of the client side, \<^verbatim>\<open>shadowsocks/client\<close>: dialling through a proxy (\<^verbatim>\<open>stream_dialer.go\<close>) and the packet
  connection (\<^verbatim>\<open>packet_listener.go\<close>).

  \<^verbatim>\<open>Dial\<close> returns a wrapped connection whose reader and writer are those of \<^verbatim>\<open>shadowsocks/stream.go\<close>; what the
  application does with it is a session of \<open>writer_op\<close>s, in which the timer's \<open>Flush\<close> is one operation at any
  place. The address parsers of package \<^verbatim>\<open>socks\<close> and the endpoint are parameters.
\<close>

record client_env =
  ce_crypto :: crypto
  ce_pool :: Pool
  ce_ParseAddr :: "string \<Rightarrow> bytes option"
  ce_SplitAddr :: "bytes \<Rightarrow> bytes option"
  ce_Addr_String :: "bytes \<Rightarrow> string"

section \<open>Streams\<close>

text \<open>A connection to the proxy: what it will receive, what it sends, and whether it was closed.\<close>

record proxy_conn =
  px_reader :: reader
  px_writer :: writer
  px_closed :: bool

text \<open>The endpoint is what its \<open>Connect\<close> returns.\<close>

record streamDialer =
  sd_endpoint :: "goerror + proxy_conn"
  sd_cipher :: Cipher
  sd_salter :: "SaltGenerator option"

definition NewShadowsocksStreamDialer :: "(goerror + proxy_conn) option \<Rightarrow> Cipher option \<Rightarrow> streamDialer result" where
  "NewShadowsocksStreamDialer endpoint c =
     (case endpoint of
        None \<Rightarrow> Fail (ErrorNew ''Argument endpoint must not be nil'')
      | Some ep \<Rightarrow>
          (case c of
             None \<Rightarrow> Fail (ErrorNew ''Argument cipher must not be nil'')
           | Some ci \<Rightarrow> Ok \<lparr>sd_endpoint = ep, sd_cipher = ci, sd_salter = None\<rparr>))"

definition SetTCPSaltGenerator :: "streamDialer \<Rightarrow> SaltGenerator option \<Rightarrow> streamDialer" where
  "SetTCPSaltGenerator d salter = d\<lparr>sd_salter := salter\<rparr>"

type_synonym client_conn_tcp = "(proxy_conn, chunkReader readConverter, Writer) DuplexConn"

text \<open>\<open>Dial\<close>: the wrapped connection or the error, and the connection to the proxy if one was made.\<close>

definition client_Dial ::
  "client_env \<Rightarrow> entropy \<Rightarrow> streamDialer \<Rightarrow> string \<Rightarrow> client_conn_tcp result \<times> proxy_conn option" where
  "client_Dial env ent d remoteAddr =
     (case ce_ParseAddr env remoteAddr of
        None \<Rightarrow> (Fail (ErrorNew ''Failed to parse target address''), None)
      | Some socksTargetAddr \<Rightarrow>
          (case sd_endpoint d of
             Inl err \<Rightarrow> (Fail err, None)
           | Inr proxyConn \<Rightarrow>
               (let ssw0 = NewShadowsocksWriter (px_writer proxyConn) (sd_cipher d);
                    ssw = (case sd_salter d of Some g \<Rightarrow> SetSaltGenerator ssw0 (Some g) | None \<Rightarrow> ssw0)
                in case LazyWrite (ce_crypto env) ent ssw socksTargetAddr of
                     Panic m \<Rightarrow> (Panic m, Some proxyConn)
                   | Fail e \<Rightarrow> (Fail e, Some proxyConn)
                   | Ok (n, Some err, ssw1) \<Rightarrow>
                       (Fail (ErrorNew ''Failed to write target address''), Some (proxyConn\<lparr>px_closed := True\<rparr>))
                   | Ok (n, None, ssw1) \<Rightarrow>
                       (Ok (WrapConn (NetConn proxyConn)
                              (NewShadowsocksReader (ce_pool env) (px_reader proxyConn) (sd_cipher d)) ssw1),
                        Some proxyConn))))"

section \<open>Packets\<close>

definition clientUDPBufferSize :: nat where
  "clientUDPBufferSize = 16 * 1024"

definition udpPool :: Pool where
  "udpPool = MakePool clientUDPBufferSize"

record packetListener =
  pl_endpoint :: "goerror option"
  pl_cipher :: Cipher

definition NewShadowsocksPacketListener :: "goerror option option \<Rightarrow> Cipher option \<Rightarrow> packetListener result" where
  "NewShadowsocksPacketListener endpoint c =
     (case endpoint of
        None \<Rightarrow> Fail (ErrorNew ''Argument endpoint must not be nil'')
      | Some ep \<Rightarrow>
          (case c of
             None \<Rightarrow> Fail (ErrorNew ''Argument cipher must not be nil'')
           | Some ci \<Rightarrow> Ok \<lparr>pl_endpoint = ep, pl_cipher = ci\<rparr>))"

text \<open>A packet connection is a socket, whose sends and receives are arguments below, and its cipher.\<close>

definition ListenPacket :: "packetListener \<Rightarrow> Cipher result" where
  "ListenPacket c =
     (case pl_endpoint c of
        Some err \<Rightarrow> Fail (ErrorWrap ''Could not connect to endpoint'' err)
      | None \<Rightarrow> Ok (pl_cipher c))"

text \<open>A net.Addr of a host and a port with a network.\<close>

record addr =
  address :: string
  network :: string

definition newAddr :: "string \<Rightarrow> string \<Rightarrow> addr" where
  "newAddr a n = \<lparr>address = a, network = n\<rparr>"

text \<open>A buffer of a pool; its bytes are overwritten before they are read.\<close>

definition pool_buffer :: "Pool \<Rightarrow> nat \<Rightarrow> bytes" where
  "pool_buffer p b = (case pool_bufs p b of Some (l, c) \<Rightarrow> make_bytes l | None \<Rightarrow> [])"

text \<open>The body of \<open>WriteTo\<close> between \<open>Acquire\<close> and \<open>Release\<close>: the number and the error it returns, and the datagram it
  hands to the socket, if any. \<open>send\<close> is what writing to the socket returns.\<close>

definition write_packet ::
  "client_env \<Rightarrow> entropy \<Rightarrow> (bytes \<Rightarrow> goerror option) \<Rightarrow> Cipher \<Rightarrow> bytes \<Rightarrow> bytes \<Rightarrow> bytes \<Rightarrow>
     ((nat \<times> goerror option) \<times> bytes option) result" where
  "write_packet env ent send c cipherBuf socksTargetAddr b =
     (if length cipherBuf < SaltSize c then Panic ''slice bounds out of range''
      else let plaintextBuf = socksTargetAddr @ b
           in case Pack (ce_crypto env) ent cipherBuf plaintextBuf c of
                Panic m \<Rightarrow> Panic m
              | Fail err \<Rightarrow> Ok ((0, Some err), None)
              | Ok out \<Rightarrow> Ok ((length b, send out), Some out))"

text \<open>\<open>k\<close> is the pool's choice of a buffer.\<close>

definition packetConn_WriteTo ::
  "client_env \<Rightarrow> entropy \<Rightarrow> (bytes \<Rightarrow> goerror option) \<Rightarrow> Cipher \<Rightarrow> Pool \<Rightarrow> nat \<Rightarrow> bytes \<Rightarrow> string \<Rightarrow>
     (((nat \<times> goerror option) \<times> bytes option) \<times> Pool) result" where
  "packetConn_WriteTo env ent send c pool k b addr =
     (case ce_ParseAddr env addr of
        None \<Rightarrow> Ok (((0, Some (ErrorNew ''Failed to parse target address'')), None), pool)
      | Some socksTargetAddr \<Rightarrow>
          bind_result (Acquire pool newLazySlice k) (\<lambda>(s, lazySlice, pool1).
            bind_result (write_packet env ent send c (pool_buffer pool1 s) socksTargetAddr b) (\<lambda>res.
              bind_result (Release pool1 lazySlice) (\<lambda>(lazySlice', pool2). Ok (res, pool2)))))"

text \<open>The body of \<open>ReadFrom\<close> on what the socket's \<open>Read\<close> returns, into a buffer of length \<open>n\<close>: the bytes copied into it,
  the source address, and the error.\<close>

definition read_packet ::
  "client_env \<Rightarrow> Cipher \<Rightarrow> bytes \<Rightarrow> goerror + bytes \<Rightarrow> nat \<Rightarrow> (bytes \<times> addr option \<times> goerror option) result" where
  "read_packet env c cipherBuf r n =
     (case r of
        Inl err \<Rightarrow> Ok ([], None, Some err)
      | Inr d \<Rightarrow>
          (case Unpack (ce_crypto env) None (take (length cipherBuf) d) c of
             Panic m \<Rightarrow> Panic m
           | Fail err \<Rightarrow> Ok ([], None, Some err)
           | Ok plain \<Rightarrow>
               (case ce_SplitAddr env plain of
                  None \<Rightarrow> Ok ([], None, Some (ErrorNew ''Failed to read source address''))
                | Some socksSrcAddr \<Rightarrow>
                    (let srcAddr = newAddr (ce_Addr_String env socksSrcAddr) ''udp'';
                         body = drop (length socksSrcAddr) plain
                     in if n < length plain - length socksSrcAddr
                        then Ok (take n body, Some srcAddr, Some ErrShortBuffer)
                        else Ok (take n body, Some srcAddr, None)))))"

definition packetConn_ReadFrom ::
  "client_env \<Rightarrow> Cipher \<Rightarrow> Pool \<Rightarrow> nat \<Rightarrow> goerror + bytes \<Rightarrow> nat \<Rightarrow> ((bytes \<times> addr option \<times> goerror option) \<times> Pool) result" where
  "packetConn_ReadFrom env c pool k r n =
     bind_result (Acquire pool newLazySlice k) (\<lambda>(s, lazySlice, pool1).
       bind_result (read_packet env c (pool_buffer pool1 s) r n) (\<lambda>res.
         bind_result (Release pool1 lazySlice) (\<lambda>(lazySlice', pool2). Ok (res, pool2))))"

section \<open>Lemmas on streams\<close>

text \<open>The generator a dialled writer uses.\<close>

definition dial_salter :: "streamDialer \<Rightarrow> SaltGenerator" where
  "dial_salter d = (case sd_salter d of Some g \<Rightarrow> g | None \<Rightarrow> RandomSaltGenerator)"

text \<open>Dialling through a connection that works queues the address; whatever the application then does is a session that
  starts with the address.\<close>

lemma client_Dial_ok:
  assumes ok: "cipher_ok (ce_crypto env) (sd_cipher d)" and addr: "ce_ParseAddr env remoteAddr = Some a"
    and ep: "sd_endpoint d = Inr px" "wout (px_writer px) = []" "writes_all (px_writer px)"
    and salt: "GetSalt (ce_crypto env) (dial_salter d) ent (make_bytes (SaltSize (sd_cipher d))) = Ok salt"
    and len: "length a < 2 ^ 95"
  obtains A ssw where "NewAEAD (ce_crypto env) (sd_cipher d) salt = Ok A" "NonceSize A = 12" "in_session A salt a ssw"
    "client_Dial env ent d remoteAddr =
       (Ok (duplexConnAdaptor (NetConn px) (NewShadowsocksReader (ce_pool env) (px_reader px) (sd_cipher d)) ssw), Some px)"
proof -
  let ?sw0 = "NewShadowsocksWriter (px_writer px) (sd_cipher d)"
  define sw where "sw = (case sd_salter d of Some g \<Rightarrow> SetSaltGenerator ?sw0 (Some g) | None \<Rightarrow> ?sw0)"
  have c: "ssCipher sw = sd_cipher d" and fresh: "fresh_writer (dial_salter d) sw"
    using ep by (auto simp: sw_def fresh_writer_def SetSaltGenerator_def NewShadowsocksWriter_def dial_salter_def
        split: option.split)
  obtain A ssw ps where lw: "NewAEAD (ce_crypto env) (sd_cipher d) salt = Ok A" "NonceSize A = 12"
    "LazyWrite (ce_crypto env) ent sw a = Ok (length a, None, ssw)" "writer_inv A salt ps ssw"
    "concat ps @ queued A ssw = a" "needFlush ssw"
    by (rule LazyWrite_fresh [of "ce_crypto env" sw, unfolded c, OF ok fresh salt len])
  then have "in_session A salt a ssw" by (auto simp: in_session_def)
  moreover have "client_Dial env ent d remoteAddr =
       (Ok (duplexConnAdaptor (NetConn px) (NewShadowsocksReader (ce_pool env) (px_reader px) (sd_cipher d)) ssw), Some px)"
    using lw(3) by (simp add: client_Dial_def addr ep(1) sw_def [symmetric] WrapConn_def)
  ultimately show thesis using that lw(1,2) by blast
qed

lemma session_flushed:
  assumes s: "in_session A salt a ssw" and A: "NonceSize A = 12" and ops: "list_all op_ok xs"
    and len: "length (a @ concat (map op_input xs)) < 2 ^ 95"
  obtains sw' ps where "writer_run cr ent (xs @ [OpFlush]) ssw = Ok sw'" "list_all chunk_ok ps"
    "concat ps = a @ concat (map op_input xs)" "concat (wout (sw_writer sw')) = wire A salt ps"
proof -
  have n: "nonces_suffice A (a @ concat (map op_input xs))" using len A by (simp add: nonces_suffice_def)
  from writer_run_in_session [OF s ops n] obtain sw1 where
    run: "writer_run cr ent xs ssw = Ok sw1" "in_session A salt (a @ concat (map op_input xs)) sw1" by blast
  from Flush_in_session [OF run(2) n] obtain sw' where sw': "Flush sw1 = Ok (None, sw')"
    "in_session A salt (a @ concat (map op_input xs)) sw'" "pending sw' = 0" by blast
  then obtain ps where "writer_inv A salt ps sw'" "concat ps = a @ concat (map op_input xs)"
    by (auto simp: in_session_def queued_empty)
  with run(1) sw'(1) show thesis
    by (intro that [of sw' ps]) (simp_all add: writer_run_append writer_inv_def)
qed

section \<open>Lemmas on packets\<close>

definition held :: "Pool \<Rightarrow> nat set" where
  "held p = {b. b < pool_fresh p \<and> b \<notin> set (pool_free p)}"

lemma pool_get_held:
  assumes "pool_wf p" and "pool_get p k = (s, p')"
  shows "held p' = insert s (held p)" and "s \<notin> held p"
proof -
  note wf = pool_get_wf [OF assms]
  show "s \<notin> held p" using wf(7) by (auto simp: held_def)
  show "held p' = insert s (held p)"
  proof (cases "k < length (pool_free p)")
    case True
    let ?t = "take k (pool_free p)" and ?d = "drop (Suc k) (pool_free p)"
    have p': "pool_free p' = ?t @ ?d" "pool_fresh p' = pool_fresh p" "s = pool_free p ! k"
      using assms(2) True by (auto simp: pool_get_def)
    then have split: "pool_free p = ?t @ s # ?d" using True by (simp add: id_take_nth_drop)
    then have "set (pool_free p) = insert s (set (pool_free p'))"
      using p'(1) by (metis Un_insert_right list.simps(15) set_append)
    moreover have "s < pool_fresh p'" "s \<notin> set (pool_free p')" by (rule wf(3,4))+
    ultimately show ?thesis using p'(2) by (auto simp: held_def)
  next
    case False
    then have "pool_free p' = pool_free p" "pool_fresh p' = Suc (pool_fresh p)" "s = pool_fresh p"
      using assms(2) by (auto simp: pool_get_def)
    then show ?thesis using assms(1) by (auto simp: held_def pool_wf_def less_Suc_eq)
  qed
qed

text \<open>What both operations do with their buffer: whatever happens in between, it is returned.\<close>

lemma with_buffer:
  assumes wf: "pool_wf pool" and body: "\<And>b. length b = pool_len pool \<Longrightarrow> \<exists>res. body b = Ok res"
  obtains b res pool2 where "bind_result (Acquire pool newLazySlice k) (\<lambda>(s, lazySlice, pool1).
      bind_result (body (pool_buffer pool1 s)) (\<lambda>res.
        bind_result (Release pool1 lazySlice) (\<lambda>(lazySlice', pool2). Ok (res, pool2)))) = Ok (res, pool2)"
    "length b = pool_len pool" "body b = Ok res" "pool_wf pool2" "pool_len pool2 = pool_len pool" "held pool2 = held pool"
proof -
  obtain s pool1 where g: "pool_get pool k = (s, pool1)" by (cases "pool_get pool k")
  note g1 = pool_get_wf [OF wf g] pool_get_held [OF wf g]
  let ?pool2 = "pool1\<lparr>pool_free := s # pool_free pool1\<rparr>"
  note put = pool_put_wf [OF g1(1,3,4)]
  have ac: "Acquire pool newLazySlice k = Ok (s, \<lparr>lazy_slice = Some s\<rparr>, pool1)"
    using g by (simp add: Acquire_def newLazySlice_def)
  have rl: "Release pool1 \<lparr>lazy_slice = Some s\<rparr> = Ok (\<lparr>lazy_slice = None\<rparr>, ?pool2)"
    using put(1) by (simp add: Release_def)
  have len: "length (pool_buffer pool1 s) = pool_len pool"
    using g1(8) by (simp add: pool_buffer_def)
  obtain res where res: "body (pool_buffer pool1 s) = Ok res" using body [OF len] by blast
  have "held ?pool2 = held pool1 - {s}" by (auto simp: held_def)
  with g1(9,10) have "held ?pool2 = held pool" by simp
  with ac rl len res put(2) g1(2) show thesis
    by (intro that [of res ?pool2 "pool_buffer pool1 s"]) simp_all
qed

lemma write_packet_spec:
  assumes ok: "cipher_ok (ce_crypto env) c" and buf: "length cipherBuf = clientUDPBufferSize"
  shows "write_packet env ent send c cipherBuf a b =
    (case rand_Read ent (SaltSize c) of
       Ok salt \<Rightarrow>
         if clientUDPBufferSize < SaltSize c + length (a @ b) + 16 then Ok ((0, Some ErrShortBuffer), None)
         else let pkt = packet_of (ce_crypto env) c salt (a @ b) in Ok ((length b, send pkt), Some pkt)
     | Fail e \<Rightarrow> Ok ((0, Some e), None)
     | Panic m \<Rightarrow> Panic m)"
proof -
  have "SaltSize c \<le> 32" using ok by (auto simp: cipher_ok_def)
  then have "\<not> length cipherBuf < SaltSize c" by (simp add: buf clientUDPBufferSize_def)
  then show ?thesis
    by (simp add: write_packet_def Pack_cases [OF ok] buf Let_def split: result.split)
qed

lemma rand_Read_no_panic: "rand_Read ent n \<noteq> Panic m"
  by (cases ent) simp_all

lemma rand_Read_length: "rand_Read ent n = Ok salt \<Longrightarrow> length salt = n"
  by (cases ent) auto

lemma write_packet_total:
  assumes "cipher_ok (ce_crypto env) c" and "length cipherBuf = clientUDPBufferSize"
  shows "\<exists>res. write_packet env ent send c cipherBuf a b = Ok res"
  using rand_Read_no_panic unfolding write_packet_spec [OF assms]
  by (cases "rand_Read ent (SaltSize c)") (auto simp: Let_def)

lemma read_packet_total:
  assumes "cipher_ok (ce_crypto env) c"
  shows "\<exists>res. read_packet env c cipherBuf r n = Ok res"
  using Unpack_no_panic [OF assms]
  by (auto simp: read_packet_def Let_def split: sum.split result.split option.split)

section \<open>Properties\<close>

text \<open>C29: The packet connection of the client. \<open>WriteTo\<close> and \<open>ReadFrom\<close> return on every input and give the pool back the
  buffer they took, so that the buffers other users hold stay theirs. What \<open>WriteTo\<close> sends is one packet of at
  most the buffer's size that decrypts to the target address followed by the payload, and it then returns the
  length of the payload; when it sends nothing it returns 0 and an error. What \<open>ReadFrom\<close> returns without error
  is all that follows the source address in the packet.\<close>

theorem client_packets:
  assumes base: "crypto_ok (ce_crypto env)" "supportedAEADs (ce_crypto env) = Ok specs" "NewCipher (ce_crypto env) specs nm secret = Ok c"
    and pool: "pool_wf pool" "pool_len pool = clientUDPBufferSize"
  shows "(\<exists>m err sent pool'. packetConn_WriteTo env ent send c pool k b remote = Ok (((m, err), sent), pool') \<and>
       pool_wf pool' \<and> pool_len pool' = clientUDPBufferSize \<and> held pool' = held pool \<and>
       (case sent of
          None \<Rightarrow> m = 0 \<and> err \<noteq> None
        | Some pkt \<Rightarrow> m = length b \<and> err = send pkt \<and> length pkt \<le> clientUDPBufferSize \<and>
            (\<exists>a. ce_ParseAddr env remote = Some a \<and> Unpack (ce_crypto env) None pkt c = Ok (a @ b)))) \<and>
    (\<exists>d src err pool'. packetConn_ReadFrom env c pool k r n = Ok ((d, src, err), pool') \<and>
       pool_wf pool' \<and> pool_len pool' = clientUDPBufferSize \<and> held pool' = held pool \<and> length d \<le> n \<and>
       (err = None \<longrightarrow> (\<exists>pkt plain a. r = Inr pkt \<and>
          Unpack (ce_crypto env) None (take clientUDPBufferSize pkt) c = Ok plain \<and> ce_SplitAddr env plain = Some a \<and>
          d = drop (length a) plain \<and> src = Some (newAddr (ce_Addr_String env a) ''udp''))))"
    (is "?W \<and> ?R")
proof
  have ok: "cipher_ok (ce_crypto env) c" using base by (rule NewCipher_cipher_ok)
  show ?W
  proof (cases "ce_ParseAddr env remote")
    case None
    with pool show ?thesis by (simp add: packetConn_WriteTo_def)
  next
    case (Some a)
    obtain buf0 res pool2 where w: "packetConn_WriteTo env ent send c pool k b remote = Ok (res, pool2)"
      "length buf0 = clientUDPBufferSize" "write_packet env ent send c buf0 a b = Ok res"
      "pool_wf pool2" "pool_len pool2 = clientUDPBufferSize" "held pool2 = held pool"
      by (rule with_buffer [OF pool(1), of "\<lambda>cb. write_packet env ent send c cb a b" k])
        (use write_packet_total [OF ok, of _ ent send a b] pool(2) Some in \<open>auto simp: packetConn_WriteTo_def\<close>)
    obtain m err sent where res: "res = ((m, err), sent)" by (metis prod.collapse)
    have "case sent of None \<Rightarrow> m = 0 \<and> err \<noteq> None
        | Some pkt \<Rightarrow> m = length b \<and> err = send pkt \<and> length pkt \<le> clientUDPBufferSize \<and>
            Unpack (ce_crypto env) None pkt c = Ok (a @ b)"
    proof (cases "rand_Read ent (SaltSize c)")
      case (Ok salt)
      note salt = rand_Read_length [OF Ok]
      show ?thesis
        using w(3) Unpack_packet_of [OF ok salt, where dst = None and p = "a @ b"]
        unfolding write_packet_spec [OF ok w(2)] Ok res
        by (auto simp: Let_def length_packet_of [OF ok] salt split: if_splits)
    qed (use w(3) rand_Read_no_panic in \<open>auto simp: write_packet_spec [OF ok w(2)] res\<close>)
    with w Some res show ?thesis by (auto split: option.splits)
  qed
  obtain buf0 res pool2 where rd: "packetConn_ReadFrom env c pool k r n = Ok (res, pool2)"
    "length buf0 = clientUDPBufferSize" "read_packet env c buf0 r n = Ok res"
    "pool_wf pool2" "pool_len pool2 = clientUDPBufferSize" "held pool2 = held pool"
    by (rule with_buffer [OF pool(1), of "\<lambda>cb. read_packet env c cb r n" k])
      (use read_packet_total [OF ok, of _ r n] pool(2) in \<open>auto simp: packetConn_ReadFrom_def\<close>)
  obtain d src err where res: "res = (d, src, err)" by (cases res)
  have "length d \<le> n \<and> (err = None \<longrightarrow> (\<exists>pkt plain a. r = Inr pkt \<and>
      Unpack (ce_crypto env) None (take clientUDPBufferSize pkt) c = Ok plain \<and> ce_SplitAddr env plain = Some a \<and>
      d = drop (length a) plain \<and> src = Some (newAddr (ce_Addr_String env a) ''udp'')))"
    using rd(3) unfolding read_packet_def res rd(2)
    by (auto simp: Let_def split: sum.splits result.splits option.splits if_splits)
  with rd res show ?R by auto
qed

definition toy_client_env :: client_env where
  "toy_client_env = \<lparr>ce_crypto = toy_crypto, ce_pool = readBufPool toy_specs, ce_ParseAddr = \<lambda>_. Some [1],
     ce_SplitAddr = \<lambda>b. if b = [] then None else Some (take 1 b), ce_Addr_String = \<lambda>_. ''8.8.8.8:53''\<rparr>"

theorem client_packets_witness:
  "\<exists>m err sent pool'. packetConn_WriteTo toy_client_env (Inr (\<lambda>_. 0)) (\<lambda>_. None) toy_cipher udpPool 0 [2, 3] ''dns:53'' =
     Ok (((m, err), sent), pool') \<and> held pool' = {}"
proof -
  have pool: "pool_wf udpPool" "pool_len udpPool = clientUDPBufferSize" "held udpPool = {}"
    by (simp_all add: udpPool_def MakePool_def held_def pool_wf_def)
  have cr: "ce_crypto toy_client_env = toy_crypto" by (simp add: toy_client_env_def)
  have "\<exists>m err sent pool'. packetConn_WriteTo toy_client_env (Inr (\<lambda>_. 0)) (\<lambda>_. None) toy_cipher udpPool 0 [2, 3] ''dns:53'' =
      Ok (((m, err), sent), pool') \<and> held pool' = held udpPool"
    using client_packets [of toy_client_env, unfolded cr, OF toy_crypto_ok toy_specs toy_NewCipher pool(1,2),
        of "Inr (\<lambda>_. 0)" "\<lambda>_. None" 0 "[2, 3]" "''dns:53''" "Inl EOF" 0]
    by (elim conjE exE) (intro exI conjI, assumption+)
  with pool(3) show ?thesis by simp
qed

text \<open>What each operation does on a packet that makes it.\<close>

lemma packetConn_WriteTo_sent:
  assumes ok: "cipher_ok (ce_crypto env) c" and pool: "pool_wf pool" "pool_len pool = clientUDPBufferSize"
    and a: "ce_ParseAddr env remote = Some a"
    and call: "packetConn_WriteTo env ent send c pool k b remote = Ok (((m, err), Some pkt), pool')"
  obtains salt where "length salt = SaltSize c" "pkt = packet_of (ce_crypto env) c salt (a @ b)" "m = length b"
    "err = send pkt" "length pkt \<le> clientUDPBufferSize"
proof -
  obtain buf0 res pool2 where w: "packetConn_WriteTo env ent send c pool k b remote = Ok (res, pool2)"
    "length buf0 = clientUDPBufferSize" "write_packet env ent send c buf0 a b = Ok res"
    by (rule with_buffer [OF pool(1), of "\<lambda>cb. write_packet env ent send c cb a b" k])
      (use write_packet_total [OF ok, of _ ent send a b] pool(2) a in \<open>auto simp: packetConn_WriteTo_def\<close>)
  then have sent: "write_packet env ent send c buf0 a b = Ok ((m, err), Some pkt)" using call by simp
  show thesis
  proof (cases "rand_Read ent (SaltSize c)")
    case (Ok salt)
    note len = rand_Read_length [OF Ok]
    have "pkt = packet_of (ce_crypto env) c salt (a @ b) \<and> m = length b \<and> err = send pkt \<and>
        SaltSize c + length (a @ b) + 16 \<le> clientUDPBufferSize"
      using sent unfolding write_packet_spec [OF ok w(2)] Ok by (auto simp: Let_def split: if_splits)
    then show thesis using that [OF len] length_packet_of [OF ok, of salt "a @ b"] len by simp
  qed (use sent in \<open>auto simp: write_packet_spec [OF ok w(2)]\<close>)
qed

lemma packetConn_ReadFrom_received:
  assumes ok: "cipher_ok (ce_crypto env) c" and pool: "pool_wf pool" "pool_len pool = clientUDPBufferSize"
    and pkt: "Unpack (ce_crypto env) None pkt c = Ok (a @ body)" "length pkt \<le> clientUDPBufferSize"
      "ce_SplitAddr env (a @ body) = Some a"
  shows "\<exists>pool'. packetConn_ReadFrom env c pool k (Inr pkt) n =
    Ok ((take n body, Some (newAddr (ce_Addr_String env a) ''udp''), if n < length body then Some ErrShortBuffer else None), pool')"
proof -
  obtain buf0 res pool2 where rd: "packetConn_ReadFrom env c pool k (Inr pkt) n = Ok (res, pool2)"
    "length buf0 = clientUDPBufferSize" "read_packet env c buf0 (Inr pkt) n = Ok res"
    by (rule with_buffer [OF pool(1), of "\<lambda>cb. read_packet env c cb (Inr pkt) n" k])
      (use read_packet_total [OF ok, of _ "Inr pkt" n] pool(2) in \<open>auto simp: packetConn_ReadFrom_def\<close>)
  then show ?thesis using pkt by (auto simp: read_packet_def Let_def)
qed

end
