(* ===== verification/Service_CipherList.thy ===== *)
theory Service_CipherList
  imports SS_Salt Net_Private
begin

text \<open>
  Model of \<^verbatim>\<open>service/cipher_list.go\<close>: the access keys of a port. A \<^verbatim>\<open>*list.Element\<close> is a number standing for its
  address; \<open>cl_entry\<close> is the \<^verbatim>\<open>CipherEntry\<close> each element points to, which outlives the list that held the
  element, and \<open>cl_list\<close> the elements of the current list from front to back. A nil IP is the empty byte
  list. The mutex makes each operation atomic.

  The locale \<open>cipher_store\<close> is the interface \<^verbatim>\<open>CipherList\<close>: what a search over a snapshot finds does not depend on
  the order the list keeps.
\<close>

section \<open>Definitions\<close>

definition minSaltEntropy :: int where
  "minSaltEntropy = 16"

record CipherEntry =
  ID :: string
  entry_Cipher :: Cipher
  entry_SaltGenerator :: SaltGenerator
  lastClientIP :: ip

definition MakeCipherEntry :: "crypto \<Rightarrow> string \<Rightarrow> Cipher \<Rightarrow> string \<Rightarrow> CipherEntry" where
  "MakeCipherEntry cr i cipher secret =
     \<lparr>ID = i, entry_Cipher = cipher,
      entry_SaltGenerator =
        (if int (SaltSize cipher) - int serverSaltMarkLen \<ge> minSaltEntropy
         then NewServerSaltGenerator cr secret else RandomServerSaltGenerator),
      lastClientIP = []\<rparr>"

record cipherList =
  cl_list :: "nat list"
  cl_entry :: "nat \<Rightarrow> CipherEntry"

text \<open>The elements of an empty list point nowhere; \<open>entries\<close> is the store it starts with.\<close>

definition NewCipherList :: "(nat \<Rightarrow> CipherEntry) \<Rightarrow> cipherList" where
  "NewCipherList entries = \<lparr>cl_list = [], cl_entry = entries\<rparr>"

definition matchesIP :: "cipherList \<Rightarrow> nat \<Rightarrow> ip \<Rightarrow> bool" where
  "matchesIP cl e clientIP \<longleftrightarrow> clientIP \<noteq> [] \<and> ip_Equal clientIP (lastClientIP (cl_entry cl e))"

definition SnapshotForClientIP :: "cipherList \<Rightarrow> ip \<Rightarrow> nat list" where
  "SnapshotForClientIP cl clientIP =
     filter (\<lambda>e. matchesIP cl e clientIP) (cl_list cl) @ filter (\<lambda>e. \<not> matchesIP cl e clientIP) (cl_list cl)"

text \<open>\<^verbatim>\<open>list.MoveToFront\<close> does nothing for an element of another list.\<close>

definition MoveToFront :: "nat list \<Rightarrow> nat \<Rightarrow> nat list" where
  "MoveToFront l e = (if e \<in> set l then e # remove1 e l else l)"

definition MarkUsedByClientIP :: "cipherList \<Rightarrow> nat \<Rightarrow> ip \<Rightarrow> cipherList" where
  "MarkUsedByClientIP cl e clientIP =
     cl\<lparr>cl_list := MoveToFront (cl_list cl) e,
        cl_entry := (cl_entry cl)(e := (cl_entry cl e)\<lparr>lastClientIP := clientIP\<rparr>)\<rparr>"

definition Update :: "cipherList \<Rightarrow> nat list \<Rightarrow> cipherList" where
  "Update cl src = cl\<lparr>cl_list := src\<rparr>"

text \<open>Every key of the list has a usable cipher.\<close>

definition keys_ok :: "crypto \<Rightarrow> cipherList \<Rightarrow> bool" where
  "keys_ok cr cl \<longleftrightarrow> (\<forall>e \<in> set (cl_list cl). cipher_ok cr (entry_Cipher (cl_entry cl e)))"

section \<open>The interface CipherList\<close>

locale cipher_store =
  fixes snapshot :: "'s \<Rightarrow> ip \<Rightarrow> 'e list"
    and mark :: "'s \<Rightarrow> 'e \<Rightarrow> ip \<Rightarrow> 's"
    and update :: "'s \<Rightarrow> 'e list \<Rightarrow> 's"
    and elements :: "'s \<Rightarrow> 'e multiset"
  assumes snapshot_elements: "mset (snapshot s p) = elements s"
    and mark_elements: "elements (mark s e p) = elements s"
    and update_elements: "elements (update s es) = mset es"
begin

lemma snapshot_set: "set (snapshot s p) = set_mset (elements s)"
  using snapshot_elements [of s p] by (metis set_mset_mset)

text \<open>A search over a snapshot finds an element whenever there is one, and the one if it is unique.\<close>

lemma search_complete:
  "List.find P (snapshot s p) = None \<longleftrightarrow> (\<forall>e. e \<in># elements s \<longrightarrow> \<not> P e)"
  by (simp add: find_None_iff snapshot_set)

lemma search_sound:
  "List.find P (snapshot s p) = Some e \<Longrightarrow> e \<in># elements s \<and> P e"
  unfolding snapshot_set [of s p, symmetric] find_Some_iff by (auto intro: nth_mem)

lemma search_unique:
  assumes "e \<in># elements s" and "P e" and "\<And>e'. e' \<in># elements s \<Longrightarrow> P e' \<Longrightarrow> e' = e"
  shows "List.find P (snapshot s p) = Some e"
proof (cases "List.find P (snapshot s p)")
  case None
  with search_complete [of P s p] assms(1,2) show ?thesis by blast
next
  case (Some e')
  with search_sound [OF Some] assms(3) show ?thesis by blast
qed

text \<open>Neither marks by any clients nor the client's address change what a search can find.\<close>

lemma search_after_mark:
  "List.find P (snapshot (mark s e q) p) = None \<longleftrightarrow> List.find P (snapshot s p') = None"
  by (simp add: search_complete mark_elements)

end

interpretation port_ciphers: cipher_store SnapshotForClientIP MarkUsedByClientIP Update "\<lambda>cl. mset (cl_list cl)"
proof
  fix cl p
  show "mset (SnapshotForClientIP cl p) = mset (cl_list cl)"
    by (simp add: SnapshotForClientIP_def)
next
  fix cl e p
  show "mset (cl_list (MarkUsedByClientIP cl e p)) = mset (cl_list cl)"
    by (simp add: MarkUsedByClientIP_def MoveToFront_def)
next
  fix cl es
  show "mset (cl_list (Update cl es)) = mset es" by (simp add: Update_def)
qed

section \<open>Lemmas\<close>

lemma Mark_keeps [simp]:
  "ID (cl_entry (MarkUsedByClientIP cl e p) x) = ID (cl_entry cl x)"
  "entry_Cipher (cl_entry (MarkUsedByClientIP cl e p) x) = entry_Cipher (cl_entry cl x)"
  "entry_SaltGenerator (cl_entry (MarkUsedByClientIP cl e p) x) = entry_SaltGenerator (cl_entry cl x)"
  by (simp_all add: MarkUsedByClientIP_def)

lemma ip_Equal_refl [simp]: "ip_Equal p p"
  by (simp add: ip_Equal_def)

lemma MakeCipherEntry_simps [simp]:
  "ID (MakeCipherEntry cr i c s) = i" "entry_Cipher (MakeCipherEntry cr i c s) = c"
  by (simp_all add: MakeCipherEntry_def)

lemma keys_ok_mark [simp]: "keys_ok cr (MarkUsedByClientIP cl e p) \<longleftrightarrow> keys_ok cr cl"
proof -
  have "set (cl_list (MarkUsedByClientIP cl e p)) = set (cl_list cl)"
    using port_ciphers.mark_elements [of cl e p] by (rule mset_eq_setD)
  then show ?thesis by (simp add: keys_ok_def)
qed

section \<open>Properties\<close>

text \<open>A snapshot contains every access key exactly as often as the list, with the keys last used from the
  client's address before all others and each group in the order of the list.\<close>

lemma snapshot_order:
  "mset (SnapshotForClientIP cl p) = mset (cl_list cl) \<and>
   (\<exists>l1 l2. SnapshotForClientIP cl p = l1 @ l2 \<and>
      list_all (\<lambda>e. matchesIP cl e p) l1 \<and> list_all (\<lambda>e. \<not> matchesIP cl e p) l2 \<and>
      l1 = filter (\<lambda>e. matchesIP cl e p) (cl_list cl) \<and> l2 = filter (\<lambda>e. \<not> matchesIP cl e p) (cl_list cl))"
proof
  show "mset (SnapshotForClientIP cl p) = mset (cl_list cl)"
    by (rule port_ciphers.snapshot_elements)
qed (simp add: SnapshotForClientIP_def list_all_iff)

text \<open>After \<open>MarkUsedByClientIP\<close> on a key of the list, the key is the first of the list and the first of the
  client's next snapshot, the list has the same keys, and all other keys keep their order and their last
  client. On an element that an \<open>Update\<close> has replaced meanwhile, the list stays as it is.\<close>

lemma mark_used_front:
  "if e \<in> set (cl_list cl)
   then hd (cl_list (MarkUsedByClientIP cl e p)) = e \<and> hd (SnapshotForClientIP (MarkUsedByClientIP cl e p) p) = e \<and>
        mset (cl_list (MarkUsedByClientIP cl e p)) = mset (cl_list cl) \<and>
        tl (cl_list (MarkUsedByClientIP cl e p)) = remove1 e (cl_list cl) \<and>
        (x = e \<or> cl_entry (MarkUsedByClientIP cl e p) x = cl_entry cl x)
   else cl_list (MarkUsedByClientIP cl e p) = cl_list cl"
proof (cases "e \<in> set (cl_list cl)")
  case True
  let ?cl = "MarkUsedByClientIP cl e p"
  have l: "cl_list ?cl = e # remove1 e (cl_list cl)"
    using True by (simp add: MarkUsedByClientIP_def MoveToFront_def)
  have "hd (SnapshotForClientIP ?cl p) = e"
  proof (cases "p = []")
    case True
    with l show ?thesis by (simp add: SnapshotForClientIP_def matchesIP_def)
  next
    case False
    then have "matchesIP ?cl e p" by (simp add: matchesIP_def MarkUsedByClientIP_def)
    then show ?thesis by (simp add: SnapshotForClientIP_def l)
  qed
  with True l port_ciphers.mark_elements [of cl e p] show ?thesis
    by (simp add: MarkUsedByClientIP_def)
qed (simp add: MarkUsedByClientIP_def MoveToFront_def)

text \<open>The salts of an access key are marked exactly when the mark leaves at least 16 random bytes: with a 24- or
  32-byte salt every salt the key makes is recognised as a server salt, with a 16-byte salt salts are purely
  random and none is.\<close>

lemma entry_salts:
  assumes "crypto_ok cr" and "supportedAEADs cr = Ok specs" and "NewCipher cr specs nm secret = Ok c"
  shows "\<exists>salt. GetSalt cr (entry_SaltGenerator (MakeCipherEntry cr i c secret)) (Inr f) (make_bytes (SaltSize c)) = Ok salt \<and>
     length salt = SaltSize c \<and>
     (IsServerSalt cr (entry_SaltGenerator (MakeCipherEntry cr i c secret)) salt \<longleftrightarrow> SaltSize c \<noteq> 16) \<and>
     (SaltSize c = 16 \<longrightarrow> salt = map f [0..<16])"
proof -
  have "cipher_ok cr c" using assms by (rule NewCipher_cipher_ok)
  then consider "SaltSize c = 16" | "SaltSize c \<in> {24, 32}" by (auto simp: cipher_ok_def)
  then show ?thesis
  proof cases
    case 1
    then show ?thesis
      by (simp add: MakeCipherEntry_def serverSaltMarkLen_def minSaltEntropy_def
          randomServerSaltGenerator_GetSalt_def randomServerSaltGenerator_IsServerSalt_def)
  next
    case 2
    then have "4 \<le> length (make_bytes (SaltSize c))" by auto
    from server_salts.own_salt_recognised [OF this, of cr _ f] 2 show ?thesis
      by (auto simp: MakeCipherEntry_def serverSaltMarkLen_def minSaltEntropy_def NewServerSaltGenerator_def)
  qed
qed

lemma entry_salts_witness:
  "\<exists>salt. GetSalt toy_crypto (entry_SaltGenerator (MakeCipherEntry toy_crypto ''u'' toy_cipher ''pw'')) (Inr (\<lambda>i. 5))
      (make_bytes 16) = Ok salt \<and>
    \<not> IsServerSalt toy_crypto (entry_SaltGenerator (MakeCipherEntry toy_crypto ''u'' toy_cipher ''pw'')) salt"
  using entry_salts [OF toy_crypto_ok toy_specs toy_NewCipher, of "''u''" "\<lambda>i. 5"] by auto

end
