(* ===== verification/Service_Replay.thy ===== *)
theory Service_Replay
  imports SS_Prelude
begin

text \<open>
  Model of \<^verbatim>\<open>service/replay.go\<close>: the cache of recent handshakes. A Go map with empty values is the set of its
  keys, and its length the size of the set. The mutex makes each \<open>Add\<close> atomic, so that concurrent calls are a
  sequence of calls in some order.
\<close>

section \<open>Definitions\<close>

definition MaxCapacity :: int where
  "MaxCapacity = 20000"

record ReplayCache =
  capacity :: int
  active :: "32 word set"
  archive :: "32 word set"

definition NewReplayCache :: "int \<Rightarrow> ReplayCache result" where
  "NewReplayCache cap =
     (if cap > MaxCapacity then Panic ''ReplayCache capacity would result in too many false positives''
      else Ok \<lparr>capacity = cap, active = {}, archive = {}\<rparr>)"

text \<open>The loops of \<open>preHash\<close>: \<open>buf[i&0x3] ^= v\<close> for the bytes from index \<open>i\<close> on.\<close>

fun xor_loop :: "bytes \<Rightarrow> nat \<Rightarrow> bytes \<Rightarrow> bytes" where
  "xor_loop buf i [] = buf"
| "xor_loop buf i (v # vs) = xor_loop (buf[i mod 4 := buf ! (i mod 4) XOR v]) (Suc i) vs"

text \<open>\<^verbatim>\<open>binary.BigEndian.Uint32\<close> on four bytes.\<close>

definition Uint32 :: "bytes \<Rightarrow> 32 word" where
  "Uint32 b = push_bit 24 (ucast (b ! 0)) OR push_bit 16 (ucast (b ! 1)) OR push_bit 8 (ucast (b ! 2)) OR
     ucast (b ! 3)"

definition preHash :: "string \<Rightarrow> bytes \<Rightarrow> 32 word" where
  "preHash key salt = Uint32 (xor_loop (xor_loop (make_bytes 4) 0 (bytes_of_string key)) 0 salt)"

text \<open>\<open>Add\<close> on a cache that may be a nil pointer.\<close>

definition Add :: "ReplayCache option \<Rightarrow> string \<Rightarrow> bytes \<Rightarrow> bool \<times> ReplayCache option" where
  "Add oc key salt =
     (case oc of
        None \<Rightarrow> (True, None)
      | Some c \<Rightarrow>
          if capacity c = 0 then (True, Some c)
          else
            let hash = preHash key salt in
            if hash \<in> active c then (False, Some c)
            else
              let inArchive = hash \<in> archive c;
                  c1 = (if int (card (active c)) = capacity c
                        then c\<lparr>archive := active c, active := {}\<rparr> else c)
              in (\<not> inArchive, Some (c1\<lparr>active := insert hash (active c1)\<rparr>)))"

fun Add_all :: "ReplayCache option \<Rightarrow> (string \<times> bytes) list \<Rightarrow> ReplayCache option" where
  "Add_all c [] = c"
| "Add_all c ((key, salt) # hs) = Add_all (snd (Add c key salt)) hs"

section \<open>Invariant\<close>

definition cache_inv :: "ReplayCache \<Rightarrow> bool" where
  "cache_inv c \<longleftrightarrow>
     0 < capacity c \<and> finite (active c) \<and> finite (archive c) \<and>
     int (card (active c)) \<le> capacity c \<and> int (card (archive c)) \<le> capacity c"

text \<open>A handshake that the cache will remember for \<open>k\<close> more calls.\<close>

definition kept_for :: "32 word \<Rightarrow> nat \<Rightarrow> ReplayCache \<Rightarrow> bool" where
  "kept_for h k c \<longleftrightarrow> h \<in> active c \<or> h \<in> archive c \<and> int (card (active c) + k) \<le> capacity c"

lemma Add_cases:
  assumes "cache_inv c"
  obtains (replay) "preHash key salt \<in> active c" "Add (Some c) key salt = (False, Some c)"
    | (room) "preHash key salt \<notin> active c" "int (card (active c)) < capacity c"
        "Add (Some c) key salt =
           (preHash key salt \<notin> archive c, Some (c\<lparr>active := insert (preHash key salt) (active c)\<rparr>))"
    | (full) "preHash key salt \<notin> active c" "int (card (active c)) = capacity c"
        "Add (Some c) key salt =
           (preHash key salt \<notin> archive c, Some (c\<lparr>archive := active c, active := {preHash key salt}\<rparr>))"
proof (cases "preHash key salt \<in> active c")
  case True
  with assms replay show thesis by (auto simp: Add_def cache_inv_def Let_def)
next
  case False
  then consider "int (card (active c)) < capacity c" | "int (card (active c)) = capacity c"
    using assms by (fastforce simp: cache_inv_def)
  then show thesis
    using False assms room full by cases (auto simp: Add_def cache_inv_def Let_def)
qed

lemma Add_step:
  assumes inv: "cache_inv c"
  obtains b c' where "Add (Some c) key salt = (b, Some c')" "cache_inv c'" "capacity c' = capacity c"
    "preHash key salt \<in> active c'" "b = (preHash key salt \<notin> active c \<union> archive c)"
    "active c' \<union> archive c' \<subseteq> insert (preHash key salt) (active c \<union> archive c)"
    "\<And>h k. kept_for h (Suc k) c \<Longrightarrow> int (Suc k) \<le> capacity c \<Longrightarrow> kept_for h k c'"
  using inv
proof (cases rule: Add_cases [where key = key and salt = salt])
  case replay
  with inv show thesis by (intro that [of False c]) (auto simp: kept_for_def)
next
  case room
  with inv show thesis
    by (intro that [of "preHash key salt \<notin> archive c" "c\<lparr>active := insert (preHash key salt) (active c)\<rparr>"])
      (auto simp: cache_inv_def kept_for_def)
next
  case full
  with inv show thesis
    by (intro that [of "preHash key salt \<notin> archive c" "c\<lparr>archive := active c, active := {preHash key salt}\<rparr>"])
      (auto simp: cache_inv_def kept_for_def)
qed

lemma Add_all_inv:
  "cache_inv c \<Longrightarrow> \<exists>c'. Add_all (Some c) hs = Some c' \<and> cache_inv c' \<and> capacity c' = capacity c \<and>
     active c' \<union> archive c' \<subseteq> active c \<union> archive c \<union> (\<lambda>(key, salt). preHash key salt) ` set hs"
proof (induction hs arbitrary: c)
  case (Cons x hs)
  obtain key salt where x: "x = (key, salt)" by (cases x)
  from Cons.prems obtain b c' where "Add (Some c) key salt = (b, Some c')" "cache_inv c'" "capacity c' = capacity c"
    "active c' \<union> archive c' \<subseteq> insert (preHash key salt) (active c \<union> archive c)"
    by (rule Add_step [where key = key and salt = salt]) blast
  moreover from Cons.IH [OF this(2)] obtain c'' where "Add_all (Some c') hs = Some c''" "cache_inv c''"
    "capacity c'' = capacity c'"
    "active c'' \<union> archive c'' \<subseteq> active c' \<union> archive c' \<union> (\<lambda>(key, salt). preHash key salt) ` set hs"
    by blast
  ultimately show ?case using x by (intro exI [of _ c'']) auto
qed simp

lemma Add_all_keeps:
  "cache_inv c \<Longrightarrow> kept_for h k c \<Longrightarrow> int k \<le> capacity c \<Longrightarrow> length hs \<le> k \<Longrightarrow>
     \<exists>c'. Add_all (Some c) hs = Some c' \<and> cache_inv c' \<and> h \<in> active c' \<union> archive c'"
proof (induction hs arbitrary: c k)
  case Nil
  then show ?case by (auto simp: kept_for_def)
next
  case (Cons x hs)
  obtain key salt where x: "x = (key, salt)" by (cases x)
  from Cons.prems(4) obtain k' where k: "k = Suc k'" by (cases k) auto
  from Cons.prems(1) obtain b c' where "Add (Some c) key salt = (b, Some c')" "cache_inv c'" "capacity c' = capacity c"
    "kept_for h (Suc k') c \<Longrightarrow> int (Suc k') \<le> capacity c \<Longrightarrow> kept_for h k' c'"
    by (rule Add_step [where key = key and salt = salt]) blast
  with Cons.IH [of c' k'] Cons.prems x k show ?case by auto
qed

lemma NewReplayCache_inv: "NewReplayCache cap = Ok c \<Longrightarrow> 0 < cap \<Longrightarrow> cache_inv c \<and> capacity c = cap \<and> active c \<union> archive c = {}"
  by (auto simp: NewReplayCache_def cache_inv_def split: if_splits)

section \<open>The hash\<close>

lemma length_xor_loop [simp]: "length (xor_loop buf i vs) = length buf"
  by (induction buf i vs rule: xor_loop.induct) simp_all

text \<open>A change of one byte of the input changes the same byte of the buffer, whatever follows.\<close>

lemma xor_loop_lane:
  "length buf = 4 \<Longrightarrow> j < 4 \<Longrightarrow> xor_loop (buf[j := buf ! j XOR d]) i vs = (xor_loop buf i vs)[j := xor_loop buf i vs ! j XOR d]"
proof (induction vs arbitrary: buf i)
  case (Cons v vs)
  show ?case
  proof (cases "i mod 4 = j")
    case True
    with Cons.IH [of "buf[j := buf ! j XOR v]" "Suc i"] Cons.prems show ?thesis
      by (simp add: xor.assoc xor.commute [of d v])
  next
    case False
    with Cons.IH [of "buf[i mod 4 := buf ! (i mod 4) XOR v]" "Suc i"] Cons.prems show ?thesis
      by (simp add: list_update_swap)
  qed
qed simp

lemma xor_loop_change:
  "length buf = 4 \<Longrightarrow> j < length vs \<Longrightarrow>
     xor_loop buf i (vs[j := vs ! j XOR d]) =
       (xor_loop buf i vs)[(i + j) mod 4 := xor_loop buf i vs ! ((i + j) mod 4) XOR d]"
proof (induction vs arbitrary: buf i j)
  case (Cons v vs)
  show ?case
  proof (cases j)
    case 0
    let ?m = "i mod 4"
    have "buf[?m := buf ! ?m XOR (v XOR d)] = (buf[?m := buf ! ?m XOR v])[?m := (buf[?m := buf ! ?m XOR v]) ! ?m XOR d]"
      using Cons.prems by (simp add: xor.assoc)
    with 0 show ?thesis
      using xor_loop_lane [of "buf[?m := buf ! ?m XOR v]" ?m d "Suc i" vs] Cons.prems by simp
  next
    case (Suc j')
    with Cons.IH [of "buf[i mod 4 := buf ! (i mod 4) XOR v]" j' "Suc i"] Cons.prems show ?thesis by simp
  qed
qed simp

lemma no_high_bit [simp]: "\<not> bit (x :: byte) (8 + n)" "\<not> bit (x :: byte) (16 + n)" "\<not> bit (x :: byte) (24 + n)"
  by (auto dest: bit_imp_le_length)

lemma byte_xor_cancel [simp]: "(x :: byte) XOR (x XOR y) = y"
  by (simp flip: xor.assoc)

lemma Uint32_byte:
  assumes "length b = 4" and "j < 4"
  shows "ucast (drop_bit (8 * (3 - j)) (Uint32 b)) = b ! j"
proof -
  consider "j = 0" | "j = 1" | "j = 2" | "j = 3" using assms(2) by linarith
  then show ?thesis
    by cases (auto intro!: bit_word_eqI simp: Uint32_def bit_simps)
qed

lemma Uint32_inj: "length b = 4 \<Longrightarrow> length c = 4 \<Longrightarrow> Uint32 b = Uint32 c \<Longrightarrow> b = c"
  by (rule nth_equalityI) (metis Uint32_byte)+

section \<open>Properties\<close>

text \<open>C21: The cache keeps its promise. In a cache of capacity between 1 and \<open>MaxCapacity\<close>, with any history, a
  handshake that was added is refused when it is presented again after at most \<open>capacity\<close> further handshakes.\<close>

theorem replay_detected:
  assumes "NewReplayCache cap = Ok c0" and "0 < cap" and "int (length ys) \<le> cap"
  shows "fst (Add (Add_all (Some c0) (xs @ (key, salt) # ys)) key salt) = False"
proof -
  have append: "Add_all c (as @ bs) = Add_all (Add_all c as) bs" for c as bs
    by (induction c as rule: Add_all.induct) simp_all
  note new = NewReplayCache_inv [OF assms(1,2)]
  from Add_all_inv [of c0 xs] new obtain c1 where c1: "Add_all (Some c0) xs = Some c1" "cache_inv c1" "capacity c1 = cap"
    by auto
  from c1(2) obtain b c2 where c2: "Add (Some c1) key salt = (b, Some c2)" "cache_inv c2" "capacity c2 = cap"
    "preHash key salt \<in> active c2"
    by (rule Add_step [where key = key and salt = salt]) (use c1(3) in blast)
  have "kept_for (preHash key salt) (nat cap) c2" using c2(4) by (simp add: kept_for_def)
  moreover have "int (nat cap) \<le> capacity c2" "length ys \<le> nat cap" using assms(2,3) c2(3) by linarith+
  ultimately obtain c3 where
    c3: "Add_all (Some c2) ys = Some c3" "cache_inv c3" "preHash key salt \<in> active c3 \<union> archive c3"
    using Add_all_keeps [OF c2(2)] by blast
  from c3(2) obtain b' c4 where "Add (Some c3) key salt = (b', Some c4)"
    "b' = (preHash key salt \<notin> active c3 \<union> archive c3)"
    by (rule Add_step [where key = key and salt = salt]) blast
  with c1 c2 c3 append show ?thesis by simp
qed

theorem replay_detected_witness:
  "fst (Add (Add_all (Some \<lparr>capacity = 2, active = {}, archive = {}\<rparr>)
     ([(''a'', [1])] @ (''b'', [2]) # [(''a'', [3]), (''a'', [4])])) ''b'' [2]) = False"
  using replay_detected [of 2 "\<lparr>capacity = 2, active = {}, archive = {}\<rparr>" "[(''a'', [3]), (''a'', [4])]"
      "[(''a'', [1])]" "''b''" "[2]"]
  by (simp add: NewReplayCache_def MaxCapacity_def)

text \<open>The cache only refuses what it has seen, and stays bounded. After any history, both sets have at most
  \<open>capacity\<close> elements, and a handshake is refused only if some handshake of the history has the same hash.\<close>

lemma replay_sound:
  assumes "NewReplayCache cap = Ok c0" and "0 < cap"
  shows "\<exists>c. Add_all (Some c0) hs = Some c \<and> int (card (active c)) \<le> cap \<and> int (card (archive c)) \<le> cap \<and>
    (fst (Add (Some c) key salt) \<or> (\<exists>(key', salt') \<in> set hs. preHash key' salt' = preHash key salt))"
proof -
  note new = NewReplayCache_inv [OF assms]
  from Add_all_inv [of c0 hs] new obtain c where c: "Add_all (Some c0) hs = Some c" "cache_inv c" "capacity c = cap"
    "active c \<union> archive c \<subseteq> (\<lambda>(key, salt). preHash key salt) ` set hs"
    by auto
  from c(2) obtain b c' where "Add (Some c) key salt = (b, Some c')" "b = (preHash key salt \<notin> active c \<union> archive c)"
    by (rule Add_step [where key = key and salt = salt]) blast
  with c show ?thesis by (fastforce simp: cache_inv_def)
qed

lemma replay_sound_witness:
  "\<exists>c. Add_all (Some \<lparr>capacity = 1, active = {}, archive = {}\<rparr>) [] = Some c \<and> int (card (active c)) \<le> 1 \<and>
     fst (Add (Some c) ''k'' [7])"
  using replay_sound [of 1 "\<lparr>capacity = 1, active = {}, archive = {}\<rparr>" "[]" "''k''" "[7]"]
  by (simp add: NewReplayCache_def MaxCapacity_def)

text \<open>\<open>preHash\<close> depends on every byte of the salt: salts that differ in a single byte, at the same key, never
  collide, so that a counter or a shared prefix or suffix in a client's salts does not make them collide.\<close>

lemma preHash_one_byte:
  assumes "j < length salt" and "v \<noteq> salt ! j"
  shows "preHash key (salt[j := v]) \<noteq> preHash key salt"
proof
  let ?b = "xor_loop (make_bytes 4) 0 (bytes_of_string key)"
  assume "preHash key (salt[j := v]) = preHash key salt"
  then have eq: "xor_loop ?b 0 (salt[j := v]) = xor_loop ?b 0 salt"
    unfolding preHash_def by (rule Uint32_inj [rotated 2]) simp_all
  from xor_loop_change [of ?b j salt 0 "salt ! j XOR v"] assms(1) eq
  have "(xor_loop ?b 0 salt)[j mod 4 := xor_loop ?b 0 salt ! (j mod 4) XOR (salt ! j XOR v)] = xor_loop ?b 0 salt"
    by simp
  moreover have "j mod 4 < length (xor_loop ?b 0 salt)" by simp
  ultimately have "xor_loop ?b 0 salt ! (j mod 4) XOR (salt ! j XOR v) = xor_loop ?b 0 salt ! (j mod 4)"
    by (metis nth_list_update_eq)
  then have "salt ! j XOR v = 0" by (metis byte_xor_cancel xor_self_eq)
  then have "v = salt ! j" by (metis byte_xor_cancel xor.right_neutral)
  with assms(2) show False by simp
qed

lemma preHash_one_byte_witness: "preHash ''id'' ([1, 2, 3, 4, 5][4 := 6]) \<noteq> preHash ''id'' [1, 2, 3, 4, 5]"
  using preHash_one_byte [of 4 "[1, 2, 3, 4, 5]" 6 "''id''"] by simp

end
