(* ===== verification/Api_Traffic.thy ===== *)
theory Api_Traffic
  imports SS_Prelude
begin

text \<open>
  Model of \<^verbatim>\<open>api/model.go\<close> and of \<^verbatim>\<open>api/api.go\<close>: the access keys the server loads and the traffic it reports.

  \<^verbatim>\<open>int64\<close> amounts are \<open>64 word\<close>s, so that additions wrap as they do in Go. A Go map that is only filled and then
  iterated is the association list in order of insertion; the order of the iteration, which Go leaves open, is
  the argument \<open>order\<close> of the report. The database (\<^verbatim>\<open>database/sql\<close> with MySQL), the HTTP client (resty), JSON
  (simplejson) and compression (pgzip) are parameters.
\<close>

section \<open>Keys\<close>

record Key =
  key_ID :: string
  Port :: int
  key_Cipher :: string
  Secret :: string

text \<open>\<^verbatim>\<open>hash/fnv.New32a\<close>: its \<open>Write\<close> and \<open>Sum32\<close>.\<close>

fun fnv32a_Write :: "32 word \<Rightarrow> bytes \<Rightarrow> 32 word" where
  "fnv32a_Write h [] = h"
| "fnv32a_Write h (b # bs) = fnv32a_Write ((h XOR ucast b) * 16777619) bs"

definition Key_Hash :: "Key \<Rightarrow> 32 word" where
  "Key_Hash p =
     fnv32a_Write (fnv32a_Write 2166136261 (bytes_of_string (key_ID p))) (bytes_of_string (Secret p))"

record Keys =
  keys_Port :: int
  keys_Cipher :: string

record Key2 =
  Nid :: string
  WgKey :: string
  key2_Port :: int

definition mergeToUserEntry :: "Keys \<Rightarrow> Key2 \<Rightarrow> Key" where
  "mergeToUserEntry keys key2 =
     \<lparr>key_ID = Nid key2, Port = key2_Port key2, key_Cipher = keys_Cipher keys, Secret = WgKey key2\<rparr>"

subsection \<open>Loading the keys\<close>

text \<open>The rows of a query: what scanning each row gives, and the error after the last of them, if any.
  \<^verbatim>\<open>log.Fatal\<close> ends the process.\<close>

type_synonym 'a rows = "(goerror + 'a) list \<times> goerror option"

record database =
  query_servers :: "string \<Rightarrow> (int \<times> Keys) rows result"
  query_users :: "string \<Rightarrow> Key2 rows result"

fun itoa_loop :: "nat \<Rightarrow> string \<Rightarrow> string" where
  "itoa_loop n acc =
     (let acc' = char_of (48 + n mod 10) # acc in if n < 10 then acc' else itoa_loop (n div 10) acc')"

definition Itoa :: "int \<Rightarrow> string" where
  "Itoa i = (if i < 0 then ''-'' @ itoa_loop (nat (- i)) [] else itoa_loop (nat i) [])"

definition servers_query :: "int \<Rightarrow> string" where
  "servers_query nodeID = ''SELECT group_id,port as conn_port,cipher FROM server_shadowsocks where id ='' @ Itoa nodeID"

definition users_query :: "int \<Rightarrow> string" where
  "users_query groupid =
     ''SELECT nid,wg_key,conn_port as port FROM m_user_ext where sup_id != 0 and sup_id >='' @ Itoa groupid"

definition fatal :: "'a result" where
  "fatal = Panic ''log.Fatal''"

fun scan_users :: "Keys \<Rightarrow> (goerror + Key2) list \<Rightarrow> Key list \<Rightarrow> Key list result" where
  "scan_users key [] acc = Ok acc"
| "scan_users key (Inl e # rs) acc = fatal"
| "scan_users key (Inr key2 # rs) acc = scan_users key rs (acc @ [mergeToUserEntry key key2])"

fun scan_servers :: "database \<Rightarrow> (goerror + int \<times> Keys) list \<Rightarrow> Key list \<Rightarrow> Key list result" where
  "scan_servers db [] acc = Ok acc"
| "scan_servers db (Inl e # rs) acc = fatal"
| "scan_servers db (Inr (groupid, key) # rs) acc =
     (case query_users db (users_query groupid) of
        Ok (rows2, err2) \<Rightarrow> bind_result (scan_users key rows2 acc) (scan_servers db rs)
      | _ \<Rightarrow> fatal)"

definition GetUsers :: "(goerror + database) \<Rightarrow> int \<Rightarrow> Key list result" where
  "GetUsers odb nodeID =
     (case odb of
        Inl e \<Rightarrow> fatal
      | Inr db \<Rightarrow>
          (case query_servers db (servers_query nodeID) of
             Ok (rows1, err1) \<Rightarrow>
               bind_result (scan_servers db rows1 []) (\<lambda>users.
                 case err1 of Some e \<Rightarrow> fatal | None \<Rightarrow> Ok users)
           | _ \<Rightarrow> fatal))"

section \<open>Traffic\<close>

record UserTraffic =
  UID :: string
  ut_U :: "64 word"
  ut_D :: "64 word"

record WwwTraffic =
  UNID :: string
  Host :: string
  Uip :: string
  www_Date :: "64 word"
  IsUdp :: "8 word"
  www_Status :: "8 word"

record RepoTask =
  r_StartTime :: int
  r_RepoList :: "UserTraffic list"

record RepoWwwTask =
  w_StartTime :: int
  w_RepoList :: "WwwTraffic list"

record APIClient =
  NodeID :: int
  api_Port :: int
  api_Cipher :: string
  Rtask :: RepoTask
  Wtask :: RepoWwwTask

text \<open>\<open>New\<close> at time \<open>t\<close>, as far as it does not set up the HTTP client.\<close>

definition api_New :: "int \<Rightarrow> int \<Rightarrow> APIClient" where
  "api_New nodeID t =
     \<lparr>NodeID = nodeID, api_Port = 0, api_Cipher = '''',
      Rtask = \<lparr>r_StartTime = t, r_RepoList = []\<rparr>, Wtask = \<lparr>w_StartTime = t, w_RepoList = []\<rparr>\<rparr>"

definition AddWwwRepo :: "APIClient \<Rightarrow> WwwTraffic \<Rightarrow> APIClient" where
  "AddWwwRepo c traffic =
     (if UNID traffic \<noteq> '''' \<and> Host traffic \<noteq> ''''
      then c\<lparr>Wtask := (Wtask c)\<lparr>w_RepoList := w_RepoList (Wtask c) @ [traffic]\<rparr>\<rparr> else c)"

definition AddRepo :: "APIClient \<Rightarrow> UserTraffic \<Rightarrow> APIClient" where
  "AddRepo c utice =
     (if UID utice \<noteq> '''' \<and> (ut_D utice \<noteq> 0 \<or> ut_U utice \<noteq> 0)
      then c\<lparr>Rtask := (Rtask c)\<lparr>r_RepoList := r_RepoList (Rtask c) @ [utice]\<rparr>\<rparr> else c)"

subsection \<open>Reports\<close>

text \<open>The map \<open>hdata\<close>: one step of its loop, and the loop.\<close>

definition hdata_add :: "(string \<times> UserTraffic) list \<Rightarrow> UserTraffic \<Rightarrow> (string \<times> UserTraffic) list" where
  "hdata_add hdata traffic =
     (case map_of hdata (UID traffic) of
        None \<Rightarrow> hdata @ [(UID traffic, \<lparr>UID = UID traffic, ut_U = ut_U traffic, ut_D = ut_D traffic\<rparr>)]
      | Some p \<Rightarrow>
          let p1 = (if ut_D traffic \<noteq> 0 then p\<lparr>ut_D := ut_D p + ut_D traffic\<rparr> else p);
              p2 = (if ut_U traffic \<noteq> 0 then p1\<lparr>ut_U := ut_U p1 + ut_U traffic\<rparr> else p1)
          in map (\<lambda>(k, v). if k = UID traffic then (k, p2) else (k, v)) hdata)"

fun hdata_loop :: "(string \<times> UserTraffic) list \<Rightarrow> UserTraffic list \<Rightarrow> (string \<times> UserTraffic) list" where
  "hdata_loop hdata [] = hdata"
| "hdata_loop hdata (t # ts) = hdata_loop (hdata_add hdata t) ts"

text \<open>A response of the API: the request's error, or status code and body.\<close>

record Response =
  StatusCode :: int
  Body :: bytes

definition parseResponse ::
  "(bytes \<Rightarrow> bytes result) \<Rightarrow> (bytes \<Rightarrow> 'j result) \<Rightarrow> string \<Rightarrow> string \<Rightarrow> (goerror + Response) \<Rightarrow> 'j result" where
  "parseResponse genDecode newJson host path r =
     (case r of
        Inl e \<Rightarrow> Fail (ErrorWrap (''request '' @ host @ path @ '' failed'') e)
      | Inr res \<Rightarrow>
          if StatusCode res > 400 then Fail (ErrorNew (''request '' @ host @ path @ '' failed''))
          else bind_result (genDecode (Body res)) (\<lambda>dec.
                 case newJson dec of
                   Ok j \<Rightarrow> Ok j
                 | Fail e \<Rightarrow> Fail (ErrorNew ''ret invalid'')
                 | Panic m \<Rightarrow> Panic m))"

text \<open>\<open>ReportUserTraffic\<close>: the records sent, in the order the map is iterated, and the result. \<open>post\<close> encodes and
  sends them.\<close>

definition ReportUserTraffic ::
  "((string \<times> UserTraffic) list \<Rightarrow> (string \<times> UserTraffic) list) \<Rightarrow> (UserTraffic list \<Rightarrow> goerror + Response) \<Rightarrow>
   (bytes \<Rightarrow> bytes result) \<Rightarrow> (bytes \<Rightarrow> 'j result) \<Rightarrow> string \<Rightarrow> UserTraffic list \<Rightarrow> UserTraffic list \<times> unit result" where
  "ReportUserTraffic order post genDecode newJson host traffic =
     (let data = map snd (order (hdata_loop [] traffic))
      in (data, bind_result (parseResponse genDecode newJson host ''/api/SsRepoTice'' (post data)) (\<lambda>_. Ok ())))"

definition ReportWwwTraffic ::
  "(WwwTraffic list \<Rightarrow> goerror option) \<Rightarrow> WwwTraffic list \<Rightarrow> WwwTraffic list \<times> unit result" where
  "ReportWwwTraffic post traffic =
     (let data = traffic in (data, case post data of Some e \<Rightarrow> Fail e | None \<Rightarrow> Ok ()))"

section \<open>Lemmas\<close>

text \<open>The amounts of one user in a list of records.\<close>

definition user_U :: "string \<Rightarrow> UserTraffic list \<Rightarrow> 64 word" where
  "user_U u ts = (\<Sum>t\<leftarrow>ts. if UID t = u then ut_U t else 0)"

definition user_D :: "string \<Rightarrow> UserTraffic list \<Rightarrow> 64 word" where
  "user_D u ts = (\<Sum>t\<leftarrow>ts. if UID t = u then ut_D t else 0)"

text \<open>What the map holds after some records: one entry per user, with the user's sums.\<close>

definition hdata_ok :: "(string \<times> UserTraffic) list \<Rightarrow> UserTraffic list \<Rightarrow> bool" where
  "hdata_ok hdata ts \<longleftrightarrow>
     distinct (map fst hdata) \<and> fst ` set hdata = UID ` set ts \<and>
     (\<forall>(u, t) \<in> set hdata. UID t = u \<and> ut_U t = user_U u ts \<and> ut_D t = user_D u ts)"

lemma user_snoc [simp]:
  "user_U u (ts @ [t]) = user_U u ts + (if UID t = u then ut_U t else 0)"
  "user_D u (ts @ [t]) = user_D u ts + (if UID t = u then ut_D t else 0)"
  by (simp_all add: user_U_def user_D_def)

lemma user_absent: "u \<notin> UID ` set ts \<Longrightarrow> user_U u ts = 0 \<and> user_D u ts = 0"
  by (induction ts) (auto simp: user_U_def user_D_def)

lemma hdata_add_ok:
  assumes "hdata_ok hdata ts"
  shows "hdata_ok (hdata_add hdata t) (ts @ [t])"
proof (cases "map_of hdata (UID t)")
  case None
  then have "UID t \<notin> fst ` set hdata" by (simp add: map_of_eq_None_iff)
  with assms None user_absent [of "UID t" ts] show ?thesis
    by (auto simp: hdata_ok_def hdata_add_def)
next
  case (Some p)
  have p: "(UID t, p) \<in> set hdata" using Some by (rule map_of_SomeD)
  have keys: "map fst (hdata_add hdata t) = map fst hdata"
    using Some by (auto simp: hdata_add_def Let_def)
  from p assms have up: "UID p = UID t" "ut_U p = user_U (UID t) ts" "ut_D p = user_D (UID t) ts"
    by (auto simp: hdata_ok_def)
  have "UID t \<in> fst ` set hdata" using p by force
  with assms have mem: "UID t \<in> UID ` set ts" by (simp add: hdata_ok_def)
  have "UID v = k \<and> ut_U v = user_U k (ts @ [t]) \<and> ut_D v = user_D k (ts @ [t])"
    if "(k, v) \<in> set (hdata_add hdata t)" for k v
    using that Some assms up by (auto simp: hdata_add_def Let_def hdata_ok_def split: if_splits)
  moreover have "fst ` set (hdata_add hdata t) = UID ` set (ts @ [t])"
  proof -
    have "fst ` set (hdata_add hdata t) = fst ` set hdata" using keys by (metis set_map)
    with assms mem show ?thesis by (auto simp: hdata_ok_def)
  qed
  ultimately show ?thesis
    using keys assms by (auto simp: hdata_ok_def)
qed

lemma hdata_loop_ok: "hdata_ok hdata ts0 \<Longrightarrow> hdata_ok (hdata_loop hdata ts) (ts0 @ ts)"
proof (induction ts arbitrary: hdata ts0)
  case (Cons t ts)
  from Cons.IH [OF hdata_add_ok [OF Cons.prems, of t]] show ?case by simp
qed simp

lemma user_distinct:
  "distinct (map UID ds) \<Longrightarrow> t \<in> set ds \<Longrightarrow> user_U (UID t) ds = ut_U t \<and> user_D (UID t) ds = ut_D t"
proof (induction ds)
  case (Cons d ds)
  then show ?case
    using user_absent [of "UID d" ds] by (cases "t = d") (auto simp: user_U_def user_D_def)
qed simp

lemma hdata_values:
  assumes "hdata_ok hdata ts" and "mset ds = mset hdata"
  shows "distinct (map UID (map snd ds))" and "UID ` set (map snd ds) = UID ` set ts"
    and "user_U u (map snd ds) = user_U u ts" and "user_D u (map snd ds) = user_D u ts"
proof -
  from assms(2) have set: "set ds = set hdata" by (rule mset_eq_setD)
  have fst: "map UID (map snd ds) = map fst ds"
    using assms(1) set by (auto simp: hdata_ok_def)
  have "mset (map fst ds) = mset (map fst hdata)" using assms(2) by simp
  with assms(1) have "distinct (map fst ds)" by (metis hdata_ok_def mset_eq_imp_distinct_iff)
  then show d: "distinct (map UID (map snd ds))" unfolding fst .
  show m: "UID ` set (map snd ds) = UID ` set ts"
  proof -
    have "UID ` set (map snd ds) = set (map fst ds)" using fst by (metis set_map)
    with set assms(1) show ?thesis by (simp add: hdata_ok_def)
  qed
  have "user_U u (map snd ds) = user_U u ts \<and> user_D u (map snd ds) = user_D u ts"
  proof (cases "u \<in> UID ` set (map snd ds)")
    case True
    then obtain k t where t: "(k, t) \<in> set ds" "UID t = u" by auto
    with set assms(1) have "ut_U t = user_U u ts" "ut_D t = user_D u ts" by (auto simp: hdata_ok_def)
    moreover have "t \<in> set (map snd ds)" using t(1) by force
    ultimately show ?thesis using user_distinct [OF d] t(2) by fastforce
  next
    case False
    with user_absent [OF False] user_absent [of u ts] m show ?thesis by simp
  qed
  then show "user_U u (map snd ds) = user_U u ts" and "user_D u (map snd ds) = user_D u ts" by blast+
qed

lemma AddRepo_user:
  assumes "u \<noteq> ''''"
  shows "user_U u (r_RepoList (Rtask (AddRepo c t))) = user_U u (r_RepoList (Rtask c)) + (if UID t = u then ut_U t else 0) \<and>
    user_D u (r_RepoList (Rtask (AddRepo c t))) = user_D u (r_RepoList (Rtask c)) + (if UID t = u then ut_D t else 0)"
  using assms by (auto simp: AddRepo_def)

lemma AddRepo_all_user:
  assumes "u \<noteq> ''''"
  shows "user_U u (r_RepoList (Rtask (foldl AddRepo c ts))) = user_U u (r_RepoList (Rtask c)) + user_U u ts \<and>
    user_D u (r_RepoList (Rtask (foldl AddRepo c ts))) = user_D u (r_RepoList (Rtask c)) + user_D u ts"
proof (induction ts arbitrary: c)
  case (Cons t ts)
  with AddRepo_user [OF assms, of c t] show ?case by (simp add: user_U_def user_D_def)
qed (simp add: user_U_def user_D_def)

section \<open>Concurrent calls of AddRepo\<close>

text \<open>\<open>AddRepo\<close> is called from the goroutines of all connections without a lock. Its two accesses to the shared
  pointer are separate steps: it loads the list, and later stores the list with its record appended.\<close>

datatype add_thread = Before UserTraffic | Loaded UserTraffic "UserTraffic list" | After

inductive add_step :: "UserTraffic list \<times> (nat \<Rightarrow> add_thread) \<Rightarrow> UserTraffic list \<times> (nat \<Rightarrow> add_thread) \<Rightarrow> bool" where
  load: "th i = Before t \<Longrightarrow> UID t \<noteq> '''' \<Longrightarrow> ut_D t \<noteq> 0 \<or> ut_U t \<noteq> 0 \<Longrightarrow>
    add_step (l, th) (l, th(i := Loaded t l))"
| skip: "th i = Before t \<Longrightarrow> \<not> (UID t \<noteq> '''' \<and> (ut_D t \<noteq> 0 \<or> ut_U t \<noteq> 0)) \<Longrightarrow> add_step (l, th) (l, th(i := After))"
| store: "th i = Loaded t l' \<Longrightarrow> add_step (l, th) (l' @ [t], th(i := After))"

section \<open>Properties\<close>

text \<open>C28: Reported traffic is exact. If the records of any sequence of connections are added one after the other and
  then reported, the report has exactly one record per user that moved data since the last report, and for
  every user its upload and download amounts are the sums of that user's records (modulo the 64-bit width),
  whatever order Go iterates the map in.\<close>

theorem traffic_report_exact:
  assumes "\<And>xs. mset (order xs) = mset xs" and "r_RepoList (Rtask c) = []" and "u \<noteq> ''''"
  shows "case ReportUserTraffic order post genDecode newJson host (r_RepoList (Rtask (foldl AddRepo c ts))) of
     (data, res) \<Rightarrow> distinct (map UID data) \<and> user_U u data = user_U u ts \<and> user_D u data = user_D u ts \<and>
       UID ` set data = UID ` set (r_RepoList (Rtask (foldl AddRepo c ts)))"
proof -
  let ?l = "r_RepoList (Rtask (foldl AddRepo c ts))"
  have "hdata_ok [] []" by (simp add: hdata_ok_def)
  from hdata_loop_ok [OF this, of ?l] have ok: "hdata_ok (hdata_loop [] ?l) ?l" by simp
  from hdata_values [OF ok assms(1)] AddRepo_all_user [OF assms(3), of c ts] assms(2) show ?thesis
    by (simp add: ReportUserTraffic_def Let_def user_U_def [of u "[]"] user_D_def [of u "[]"])
qed

theorem traffic_report_exact_witness:
  "case ReportUserTraffic rev (\<lambda>_. Inl EOF) Ok (\<lambda>_. Ok ()) ''h''
      (r_RepoList (Rtask (foldl AddRepo (api_New 1 0)
        [\<lparr>UID = ''a'', ut_U = 5, ut_D = 0\<rparr>, \<lparr>UID = ''b'', ut_U = 1, ut_D = 1\<rparr>, \<lparr>UID = ''a'', ut_U = 0, ut_D = 7\<rparr>]))) of
     (data, res) \<Rightarrow> user_U ''a'' data = 5 \<and> user_D ''a'' data = 7"
  using traffic_report_exact [where order = rev and c = "api_New 1 0" and u = "''a''" and post = "\<lambda>_. Inl EOF"
      and genDecode = Ok and newJson = "\<lambda>_. Ok ()" and host = "''h''" and ts =
      "[\<lparr>UID = ''a'', ut_U = 5, ut_D = 0\<rparr>, \<lparr>UID = ''b'', ut_U = 1, ut_D = 1\<rparr>, \<lparr>UID = ''a'', ut_U = 0, ut_D = 7\<rparr>]"]
  by (simp add: api_New_def user_U_def [of _ "[_, _, _]"] user_D_def [of _ "[_, _, _]"] split: prod.splits)

text \<open>Concurrent calls of \<open>AddRepo\<close> can lose traffic: two connections that end at the same time can leave the
  list with the record of only one of them, because loading and storing the list are not one step.\<close>

lemma AddRepo_lost_update:
  assumes "UID t1 \<noteq> ''''" and "ut_U t1 \<noteq> 0" and "UID t2 \<noteq> ''''" and "ut_U t2 \<noteq> 0"
  shows "add_step\<^sup>*\<^sup>* (l, (\<lambda>_. After)(1 := Before t1, 2 := Before t2)) (l @ [t2], \<lambda>_. After)"
proof -
  let ?s0 = "(\<lambda>_. After)(1 := Before t1, 2 := Before t2) :: nat \<Rightarrow> add_thread"
  let ?s1 = "?s0(1 := Loaded t1 l)"
  let ?s2 = "?s1(2 := Loaded t2 l)"
  let ?s3 = "?s2(1 := After)"
  have "add_step\<^sup>*\<^sup>* (l, ?s0) (l, ?s0)" by simp
  also have "add_step (l, ?s0) (l, ?s1)" using assms by (intro add_step.load) simp_all
  also have "add_step (l, ?s1) (l, ?s2)" using assms by (intro add_step.load) simp_all
  also have "add_step (l, ?s2) (l @ [t1], ?s3)" by (rule add_step.store) simp
  also have "add_step (l @ [t1], ?s3) (l @ [t2], ?s3(2 := After))" by (rule add_step.store [where l' = l]) simp
  also have "?s3(2 := After) = (\<lambda>_. After)" by (rule ext) simp
  finally show ?thesis .
qed

lemma AddRepo_lost_update_witness:
  "add_step\<^sup>*\<^sup>* ([], (\<lambda>_. After)(1 := Before \<lparr>UID = ''a'', ut_U = 5, ut_D = 0\<rparr>, 2 := Before \<lparr>UID = ''b'', ut_U = 6, ut_D = 0\<rparr>))
     ([\<lparr>UID = ''b'', ut_U = 6, ut_D = 0\<rparr>], \<lambda>_. After)"
  using AddRepo_lost_update [of "\<lparr>UID = ''a'', ut_U = 5, ut_D = 0\<rparr>" "\<lparr>UID = ''b'', ut_U = 6, ut_D = 0\<rparr>" "[]"] by simp

text \<open>An error that ends the second query early is not noticed: \<open>GetUsers\<close> returns the same key list, without
  the users whose rows did not arrive, whether or not the iteration of a user query ended with an error.\<close>

lemma GetUsers_ignores_row_errors:
  "GetUsers (Inr (db\<lparr>query_users := \<lambda>q. case query_users db q of Ok (rows, err) \<Rightarrow> Ok (rows, f err) | r \<Rightarrow> r\<rparr>)) nodeID =
   GetUsers (Inr db) nodeID"
proof -
  let ?db = "db\<lparr>query_users := \<lambda>q. case query_users db q of Ok (rows, err) \<Rightarrow> Ok (rows, f err) | r \<Rightarrow> r\<rparr>"
  have "scan_servers ?db rs acc = scan_servers db rs acc" for rs acc
  proof (induction rs arbitrary: acc)
    case (Cons r rs)
    have IH: "scan_servers ?db rs = scan_servers db rs" using Cons by (simp add: fun_eq_iff)
    show ?case
    proof (cases r)
      case (Inr gk)
      obtain g k where gk: "gk = (g, k)" by (cases gk)
      show ?thesis
        using IH by (cases "query_users db (users_query g)") (simp_all add: Inr gk split: prod.splits)
    qed simp
  qed simp
  then show ?thesis by (simp add: GetUsers_def cong: result.case_cong prod.case_cong)
qed

text \<open>The key list. If the queries succeed, \<open>GetUsers\<close> returns, for each server row in order, one key per user
  row in order, with the user's ID, secret and port and the server's cipher.\<close>

lemma GetUsers_merge:
  assumes "query_servers db (servers_query nodeID) = Ok (map Inr srv, None)"
    and "\<And>g. query_users db (users_query g) = Ok (map Inr (usr g), None)"
  shows "GetUsers (Inr db) nodeID = Ok (concat (map (\<lambda>(g, k). map (mergeToUserEntry k) (usr g)) srv))"
proof -
  have users: "scan_users k (map Inr us) acc = Ok (acc @ map (mergeToUserEntry k) us)" for k us acc
    by (induction us arbitrary: acc) simp_all
  have "scan_servers db (map Inr ss) acc = Ok (acc @ concat (map (\<lambda>(g, k). map (mergeToUserEntry k) (usr g)) ss))" for ss acc
  proof (induction ss arbitrary: acc)
    case (Cons s ss)
    obtain g k where s: "s = (g, k)" by (cases s)
    show ?case by (simp add: s assms(2) users Cons)
  qed simp
  with assms(1) show ?thesis by (simp add: GetUsers_def)
qed

lemma GetUsers_merge_witness:
  "GetUsers (Inr \<lparr>query_servers = \<lambda>q. Ok ([Inr (3, \<lparr>keys_Port = 1, keys_Cipher = ''aes-128-gcm''\<rparr>)], None),
      query_users = \<lambda>q. Ok ([Inr \<lparr>Nid = ''u'', WgKey = ''s'', key2_Port = 9000\<rparr>], None)\<rparr>) 5 =
   Ok [\<lparr>key_ID = ''u'', Port = 9000, key_Cipher = ''aes-128-gcm'', Secret = ''s''\<rparr>]"
  using GetUsers_merge [of "\<lparr>query_servers = \<lambda>q. Ok ([Inr (3, \<lparr>keys_Port = 1, keys_Cipher = ''aes-128-gcm''\<rparr>)], None),
      query_users = \<lambda>q. Ok ([Inr \<lparr>Nid = ''u'', WgKey = ''s'', key2_Port = 9000\<rparr>], None)\<rparr>" 5
      "[(3, \<lparr>keys_Port = 1, keys_Cipher = ''aes-128-gcm''\<rparr>)]" "\<lambda>g. [\<lparr>Nid = ''u'', WgKey = ''s'', key2_Port = 9000\<rparr>]"]
  by (simp add: mergeToUserEntry_def)

end
