(* ===== verification/Service_TCP.thy ===== *)
theory Service_TCP
  imports Service_CipherList Service_Replay Api_Traffic Metrics SS_Stream_Session SS_Packet
begin

text \<open>
  Model of \<^verbatim>\<open>service/tcp.go\<close>: how the server handles a TCP connection. The client is authenticated by trial
  decryption of its first 50 bytes; probes and replays are absorbed; otherwise the target address is read, the
  target is dialled under the IP validator and the two directions are relayed.

  A connection is what the peer will send and what is written to it. The bytes that arrive before the read
  deadline, and the timeout after them, are \<open>conn_reader\<close>; \<open>lift_deadline\<close> is the call that clears the
  deadline, after which the bytes \<open>conn_later\<close> follow. Third-party code (\<^verbatim>\<open>socks.ReadAddr\<close>, the address
  format), the network (the addresses a name resolves to, what connecting to them gives), the random bytes,
  the clock and the scheduling of the two relay goroutines are the fields of \<open>tcp_env\<close>. Dialling tries the
  addresses one after the other.
\<close>

section \<open>Finding the access key\<close>

datatype net_addr = TCPAddr ip | OtherAddr string

text \<open>\<open>host_ip\<close> is \<^verbatim>\<open>net.SplitHostPort\<close> followed by \<^verbatim>\<open>net.ParseIP\<close>, whose failure is a nil IP.\<close>

definition remoteIP :: "(string \<Rightarrow> ip result) \<Rightarrow> net_addr option \<Rightarrow> ip" where
  "remoteIP host_ip a =
     (case a of
        None \<Rightarrow> []
      | Some (TCPAddr p) \<Rightarrow> p
      | Some (OtherAddr str) \<Rightarrow> (case host_ip str of Ok p \<Rightarrow> p | _ \<Rightarrow> []))"

definition bytesForKeyFinding :: nat where
  "bytesForKeyFinding = 50"

text \<open>\<open>findEntry\<close> returns the element; the entry and its ID are what the element points to. Slicing beyond the
  first bytes panics.\<close>

fun findEntry :: "crypto \<Rightarrow> (nat \<Rightarrow> CipherEntry) \<Rightarrow> bytes \<Rightarrow> nat list \<Rightarrow> nat option result" where
  "findEntry cr entries firstBytes [] = Ok None"
| "findEntry cr entries firstBytes (elt # elts) =
     (let cipher = entry_Cipher (entries elt);
          saltsize = SaltSize cipher;
          cipherTextLength = 2 + TagSize cipher
      in if length firstBytes < saltsize + cipherTextLength then Panic ''slice bounds out of range''
         else case DecryptOnce cr cipher (take saltsize firstBytes) [] 2
                     (subslice firstBytes saltsize (saltsize + cipherTextLength)) of
                Ok _ \<Rightarrow> Ok (Some elt)
              | Fail _ \<Rightarrow> findEntry cr entries firstBytes elts
              | Panic m \<Rightarrow> Panic m)"

record access_key =
  ak_elt :: "nat option"
  ak_reader :: reader
  ak_salt :: bytes
  ak_err :: "goerror option"
  ak_id :: string

definition findAccessKey :: "crypto \<Rightarrow> reader \<Rightarrow> ip \<Rightarrow> cipherList \<Rightarrow> (access_key \<times> cipherList) result" where
  "findAccessKey cr clientReader clientIP cl =
     (let ciphers = SnapshotForClientIP cl clientIP
      in case ReadFull clientReader bytesForKeyFinding of
           (d, Some e, r') \<Rightarrow>
             Ok (\<lparr>ak_elt = None, ak_reader = r', ak_salt = [],
                  ak_err = Some (ErrorWrap ''Reading header failed'' e), ak_id = ''''\<rparr>, cl)
         | (firstBytes, None, r') \<Rightarrow>
             bind_result (findEntry cr (cl_entry cl) firstBytes ciphers) (\<lambda>found.
               case found of
                 None \<Rightarrow>
                   Ok (\<lparr>ak_elt = None, ak_reader = r', ak_salt = [],
                        ak_err = Some (ErrorNew ''Could not find valid TCP cipher''), ak_id = ''''\<rparr>, cl)
               | Some elt \<Rightarrow>
                   Ok (\<lparr>ak_elt = Some elt, ak_reader = MultiReader (BytesReader firstBytes) r',
                        ak_salt = take (SaltSize (entry_Cipher (cl_entry cl elt))) firstBytes,
                        ak_err = None, ak_id = ID (cl_entry cl elt)\<rparr>,
                       MarkUsedByClientIP cl elt clientIP)))"

section \<open>Dialling the target\<close>

text \<open>The attempts of \<^verbatim>\<open>net.Dialer.Dial\<close>: each address with the connection or the error connecting to it gives. The
  \<open>Control\<close> callback runs before each, and its verdict on the last one tried stays in \<open>ipError\<close>.\<close>

record target_conn =
  tgt_reader :: reader
  tgt_writer :: writer

type_synonym attempts = "(ip \<times> (goerror + target_conn)) list"

fun dial_loop :: "TargetIPValidator \<Rightarrow> attempts \<Rightarrow> goerror \<Rightarrow> ConnectionError option \<Rightarrow>
    (goerror + ip \<times> target_conn) \<times> ConnectionError option" where
  "dial_loop validator [] err ipError = (Inl err, ipError)"
| "dial_loop validator ((p, out) # rest) err ipError =
     (case validator p of
        Some ce \<Rightarrow> dial_loop validator rest err (Some ce)
      | None \<Rightarrow>
          (case out of
             Inr conn \<Rightarrow> (Inr (p, conn), None)
           | Inl e \<Rightarrow> dial_loop validator rest err None))"

definition dialTarget ::
  "TargetIPValidator \<Rightarrow> attempts \<Rightarrow> goerror \<Rightarrow> ConnectionError + ip \<times> target_conn" where
  "dialTarget validator atts err =
     (case dial_loop validator atts err None of
        (res, Some ipError) \<Rightarrow> Inl ipError
      | (Inl e, None) \<Rightarrow> Inl (NewConnectionError ''ERR_CONNECT'' (Msg ''Failed to connect to target'') (Some e))
      | (Inr c, None) \<Rightarrow> Inr c)"

section \<open>Handling a connection\<close>

record tcpService =
  tcp_ciphers :: cipherList
  tcp_m :: shadowsocksMetrics
  tcp_replayCache :: "ReplayCache option"
  tcp_targetIPValidator :: TargetIPValidator
  tcp_api :: APIClient

definition tcp_SetTargetIPValidator :: "tcpService \<Rightarrow> TargetIPValidator \<Rightarrow> tcpService" where
  "tcp_SetTargetIPValidator s targetIPValidator = s\<lparr>tcp_targetIPValidator := targetIPValidator\<rparr>"

record client_conn =
  conn_reader :: reader
  conn_later :: "bytes list \<times> goerror"
  conn_writer :: writer
  conn_remote :: "net_addr option"
  conn_remoteStr :: string

type_synonym ss_reader = "chunkReader readConverter"

record tcp_env =
  env_crypto :: crypto
  env_pool :: Pool
  env_pick :: "Pool \<Rightarrow> nat"
  env_entropy :: entropy
  env_host_ip :: "string \<Rightarrow> ip result"
  env_ReadAddr :: "ss_reader \<Rightarrow> bytes result \<times> ss_reader"
  env_addr_String :: "bytes \<Rightarrow> string"
  env_dial :: "string \<Rightarrow> attempts \<times> goerror"
  env_unix :: "64 word"
  env_port :: string
  env_timeToCipher :: int
  env_duration :: int
  env_client_first :: bool

text \<open>Clearing the read deadline of the connection at the bottom of a reader.\<close>

fun lift_deadline :: "bytes list \<times> goerror \<Rightarrow> reader \<Rightarrow> reader" where
  "lift_deadline (later, fin) (ConnReader segs e) =
     (if e = NetError True then ConnReader (segs @ later) fin else ConnReader segs e)"
| "lift_deadline l (BytesReader b) = BytesReader b"
| "lift_deadline l (MultiReader r1 r2) = MultiReader r1 (lift_deadline l r2)"

definition lift_ssr :: "bytes list \<times> goerror \<Rightarrow> ss_reader \<Rightarrow> ss_reader" where
  "lift_ssr l ssr = ssr\<lparr>rc_cr := (rc_cr ssr)\<lparr>cr_reader := lift_deadline l (cr_reader (rc_cr ssr))\<rparr>\<rparr>"

text \<open>The connection itself, which other code reads from directly, and what has been read from it.\<close>

fun conn_of :: "reader \<Rightarrow> reader" where
  "conn_of (MultiReader r1 r2) = conn_of r2"
| "conn_of r = r"

definition consumed :: "reader \<Rightarrow> reader \<Rightarrow> int" where
  "consumed r r' = int (length (contents r)) - int (length (contents r'))"

definition drainErrToString :: "goerror option \<Rightarrow> string" where
  "drainErrToString drainErr =
     (case drainErr of
        None \<Rightarrow> ''eof''
      | Some (NetError True) \<Rightarrow> ''timeout''
      | Some _ \<Rightarrow> ''other'')"

text \<open>How a connection ends: its status, the service, what was written to the client and to the target, the target's
  address if one was connected, and what is left unread of the client's connection.\<close>

record tcp_outcome =
  out_status :: string
  out_service :: tcpService
  out_client :: writer
  out_target :: "(ip \<times> writer) option"
  out_unread :: reader

text \<open>The end of \<open>handleConnection\<close>: the status, the key ID and the metrics.\<close>

definition finish ::
  "tcp_env \<Rightarrow> string \<Rightarrow> string \<Rightarrow> ProxyMetrics \<Rightarrow> tcpService \<Rightarrow> tcpService" where
  "finish env i status data s =
     s\<lparr>tcp_m := AddClosedTCPConnection (tcp_m s) '''' i status data (env_timeToCipher env) (env_duration env)\<rparr>"

definition no_bytes :: ProxyMetrics where
  "no_bytes = \<lparr>ClientProxy = 0, ProxyTarget = 0, TargetProxy = 0, ProxyClient = 0\<rparr>"

text \<open>\<open>absorbProbe\<close> with the return of the error that follows each of its calls.\<close>

definition absorbProbe :: "tcp_env \<Rightarrow> string \<Rightarrow> string \<Rightarrow> tcpService \<Rightarrow> client_conn \<Rightarrow> reader \<Rightarrow> tcp_outcome" where
  "absorbProbe env i status s conn r =
     (case copy_discard r 0 of
        (n, drainErr, r') \<Rightarrow>
          let data = no_bytes\<lparr>ClientProxy := consumed (conn_reader conn) r'\<rparr>;
              s1 = s\<lparr>tcp_m := AddTCPProbe (tcp_m s) status (drainErrToString drainErr) (env_port env) data\<rparr>
          in \<lparr>out_status = status, out_service = finish env i status data s1, out_client = conn_writer conn,
              out_target = None, out_unread = r'\<rparr>)"

text \<open>The two relay goroutines once the target is connected.\<close>

definition relay ::
  "tcp_env \<Rightarrow> CipherEntry \<Rightarrow> string \<Rightarrow> tcpService \<Rightarrow> client_conn \<Rightarrow> ss_reader \<Rightarrow> ip \<times> target_conn \<Rightarrow>
     tcp_outcome result option" where
  "relay env entry uid s conn ssr target =
     (let (p, tgt) = target;
          cr = env_crypto env;
          ssw = SetSaltGenerator (NewShadowsocksWriter (conn_writer conn) (entry_Cipher entry)) (Some (entry_SaltGenerator entry))
      in case conv_WriteTo (\<lambda>x. ReadChunk cr (env_pick env (cr_pool x)) x) ssr (tgt_writer tgt) 0 of
           None \<Rightarrow> None
         | Some (Panic m, ssr', tw) \<Rightarrow> Some (Panic m)
         | Some (Fail e, ssr', tw) \<Rightarrow> Some (Fail e)
         | Some (Ok (i, fromClientErr), ssr', tw) \<Rightarrow>
             (let r1 = conn_of (cr_reader (rc_cr ssr'));
                  r2 = (if fromClientErr \<noteq> None then snd (snd (copy_discard r1 0)) else r1)
              in case ReadFrom cr (env_entropy env) False ssw (tgt_reader tgt) of
                   Panic m \<Rightarrow> Some (Panic m)
                 | Fail e \<Rightarrow> Some (Fail e)
                 | Ok (ri, fromTargetErr, ssw', tr) \<Rightarrow>
                     (let up = \<lparr>UID = uid, ut_U = word_of_nat i, ut_D = 0\<rparr>;
                          down = \<lparr>UID = uid, ut_U = 0, ut_D = word_of_nat ri\<rparr>;
                          api' = (if env_client_first env then AddRepo (AddRepo (tcp_api s) up) down
                                  else AddRepo (AddRepo (tcp_api s) down) up);
                          status = (if fromClientErr \<noteq> None then ''ERR_RELAY_CLIENT''
                                    else if fromTargetErr \<noteq> None then ''ERR_RELAY_TARGET'' else ''OK'');
                          data = \<lparr>ClientProxy = consumed (lift_deadline (conn_later conn) (conn_reader conn)) r2,
                                  ProxyTarget = int (length (concat (wout tw))) - int (length (concat (wout (tgt_writer tgt)))),
                                  TargetProxy = consumed (tgt_reader tgt) tr,
                                  ProxyClient = int (length (concat (wout (sw_writer ssw')))) - int (length (concat (wout (conn_writer conn))))\<rparr>
                      in Some (Ok \<lparr>out_status = status,
                           out_service = finish env (ID entry) status data (s\<lparr>tcp_api := api'\<rparr>),
                           out_client = sw_writer ssw', out_target = Some (p, tw), out_unread = r2\<rparr>))))"

text \<open>After authentication: read the address, clear the deadline, log the visit, dial and relay.\<close>

definition serve_client ::
  "tcp_env \<Rightarrow> CipherEntry \<Rightarrow> string \<Rightarrow> tcpService \<Rightarrow> client_conn \<Rightarrow> reader \<Rightarrow> tcp_outcome result option" where
  "serve_client env entry uid s conn clientReader =
     (case env_ReadAddr env (NewShadowsocksReader (env_pool env) clientReader (entry_Cipher entry)) of
        (Panic m, ssr) \<Rightarrow> Some (Panic m)
      | (Fail e, ssr) \<Rightarrow>
          (case copy_discard (conn_of (cr_reader (rc_cr (lift_ssr (conn_later conn) ssr)))) 0 of
             (n, drainErr, r') \<Rightarrow>
               let data = no_bytes\<lparr>ClientProxy := consumed (lift_deadline (conn_later conn) (conn_reader conn)) r'\<rparr>
               in Some (Ok \<lparr>out_status = ''ERR_READ_ADDRESS'',
                    out_service = finish env (ID entry) ''ERR_READ_ADDRESS'' data s,
                    out_client = conn_writer conn, out_target = None, out_unread = r'\<rparr>))
      | (Ok tgtAddr, ssr0) \<Rightarrow>
          (let ssr = lift_ssr (conn_later conn) ssr0;
               addr = env_addr_String env tgtAddr;
               s1 = s\<lparr>tcp_api := AddWwwRepo (tcp_api s)
                       \<lparr>UNID = uid, Host = addr, Uip = conn_remoteStr conn, www_Date = env_unix env, IsUdp = 0, www_Status = 1\<rparr>\<rparr>;
               (atts, err) = env_dial env addr
           in case dialTarget (tcp_targetIPValidator s) atts err of
                Inl ce \<Rightarrow>
                  (let r' = conn_of (cr_reader (rc_cr ssr));
                       data = no_bytes\<lparr>ClientProxy := consumed (lift_deadline (conn_later conn) (conn_reader conn)) r'\<rparr>
                   in Some (Ok \<lparr>out_status = Status ce, out_service = finish env (ID entry) (Status ce) data s1,
                        out_client = conn_writer conn, out_target = None, out_unread = r'\<rparr>))
              | Inr target \<Rightarrow> relay env entry uid s1 conn ssr target))"

definition handleConnection :: "tcp_env \<Rightarrow> tcpService \<Rightarrow> client_conn \<Rightarrow> tcp_outcome result option" where
  "handleConnection env s conn =
     (case findAccessKey (env_crypto env) (conn_reader conn) (remoteIP (env_host_ip env) (conn_remote conn)) (tcp_ciphers s) of
        Panic m \<Rightarrow> Some (Panic m)
      | Fail e \<Rightarrow> Some (Fail e)
      | Ok (ak, cl') \<Rightarrow>
          (let s1 = s\<lparr>tcp_ciphers := cl'\<rparr>
           in case (ak_err ak, ak_elt ak) of
                (Some keyErr, _) \<Rightarrow> Some (Ok (absorbProbe env '''' ''ERR_CIPHER'' s1 conn (ak_reader ak)))
              | (None, None) \<Rightarrow> Some (Panic ''invalid memory address or nil pointer dereference'')
              | (None, Some elt) \<Rightarrow>
                  (let entry = cl_entry cl' elt
                   in if IsServerSalt (env_crypto env) (entry_SaltGenerator entry) (ak_salt ak) then
                        Some (Ok (absorbProbe env (ID entry) ''ERR_REPLAY_SERVER'' s1 conn (conn_of (ak_reader ak))))
                      else case Add (tcp_replayCache s1) (ID entry) (ak_salt ak) of
                        (False, rc') \<Rightarrow>
                          Some (Ok (absorbProbe env (ID entry) ''ERR_REPLAY_CLIENT'' (s1\<lparr>tcp_replayCache := rc'\<rparr>) conn
                                  (conn_of (ak_reader ak))))
                      | (True, rc') \<Rightarrow>
                          serve_client env entry (ak_id ak) (s1\<lparr>tcp_replayCache := rc'\<rparr>) conn (ak_reader ak))))"

section \<open>Lemmas on finding the key\<close>

text \<open>The first bytes of a connection authenticate under a cipher.\<close>

definition opens :: "crypto \<Rightarrow> bytes \<Rightarrow> Cipher \<Rightarrow> bool" where
  "opens cr firstBytes c =
     (case DecryptOnce cr c (take (SaltSize c) firstBytes) [] 2
             (subslice firstBytes (SaltSize c) (SaltSize c + (2 + TagSize c))) of
        Ok _ \<Rightarrow> True | _ \<Rightarrow> False)"

lemma findEntry_find:
  assumes "\<forall>e \<in> set elts. cipher_ok cr (entry_Cipher (entries e))" and "length firstBytes = 50"
  shows "findEntry cr entries firstBytes elts = Ok (List.find (\<lambda>e. opens cr firstBytes (entry_Cipher (entries e))) elts)"
  using assms
proof (induction elts)
  case (Cons e elts)
  let ?c = "entry_Cipher (entries e)"
  from Cons.prems have ok: "cipher_ok cr ?c" by simp
  then have fits: "SaltSize ?c + (2 + TagSize ?c) \<le> 50" by (auto simp: cipher_ok_def)
  obtain A where A: "NewAEAD cr ?c (take (SaltSize ?c) firstBytes) = Ok A" "NonceSize A = 12" "Overhead A = 16"
    using ok by (rule cipher_okE)
  from A(1,2) have "DecryptOnce cr ?c (take (SaltSize ?c) firstBytes) [] 2 ct \<noteq> Panic m" for ct m
    by (auto simp: DecryptOnce_cases split: option.splits)
  with Cons fits show ?case
    by (auto simp: opens_def Let_def split: result.splits)
qed simp

lemma opens_wire:
  assumes ok: "cipher_ok cr c" and A: "NewAEAD cr c salt = Ok A" and salt: "length salt = SaltSize c"
    and p: "chunk_ok p"
  shows "opens cr (take 50 (wire A salt (p # ps) @ rest)) c" and "50 \<le> length (wire A salt (p # ps))"
    and "take (SaltSize c) (take 50 (wire A salt (p # ps) @ rest)) = salt"
proof -
  obtain A' where "NewAEAD cr c salt = Ok A'" "aead_ok A'" "NonceSize A' = 12" "Overhead A' = 16"
    using ok by (rule cipher_okE)
  with A have a: "aead_ok A" "NonceSize A = 12" "Overhead A = 16" by simp_all
  have sizes: "SaltSize c \<le> 32" "16 \<le> SaltSize c" "TagSize c = 16"
    using ok by (auto simp: cipher_ok_def)
  let ?h = "Seal A (nonce 12 0) (PutUint16 (word_of_nat (length p)))"
  let ?w = "wire A salt (p # ps) @ rest"
  have lh: "length ?h = 18" using a by (simp add: length_Seal)
  have w: "wire A salt (p # ps) = salt @ ?h @ Seal A (nonce 12 (Suc 0)) p @ frames A (Suc (Suc 0)) ps"
    using a by (simp add: wire_def)
  show len: "50 \<le> length (wire A salt (p # ps))"
    unfolding w using a sizes salt lh p by (simp add: length_Seal chunk_ok_def Suc_le_eq)
  show t: "take (SaltSize c) (take 50 ?w) = salt"
    unfolding w using salt sizes by (simp add: min_def)
  have sub: "subslice (take 50 ?w) (SaltSize c) (SaltSize c + (2 + TagSize c)) = ?h"
    unfolding w subslice_def using salt sizes lh by (simp add: drop_take)
  have "Open A zeroNonce ?h = Some (PutUint16 (word_of_nat (length p)))"
    using a by (simp add: Open_Seal zeroNonce_def)
  then show "opens cr (take 50 ?w) c"
    unfolding opens_def t sub using A a lh by (simp add: DecryptOnce_cases)
qed

text \<open>What \<open>findAccessKey\<close> does, by cases of the first 50 bytes.\<close>

lemma findAccessKey_short:
  assumes "eof_chained r" and "length (contents r) < 50"
  shows "\<exists>r' e. findAccessKey cr r p cl =
      Ok (\<lparr>ak_elt = None, ak_reader = r', ak_salt = [], ak_err = Some e, ak_id = ''''\<rparr>, cl) \<and>
    eof_chained r' \<and> contents r' = [] \<and> final_error r' = final_error r"
  by (rule ReadFull_short [OF assms]) (auto simp: findAccessKey_def bytesForKeyFinding_def)

lemma findAccessKey_search:
  assumes "eof_chained r" and "50 \<le> length (contents r)" and "keys_ok cr cl"
  obtains r' where "eof_chained r'" "contents r' = drop 50 (contents r)" "final_error r' = final_error r"
    "ReadFull r 50 = (take 50 (contents r), None, r')"
    "findAccessKey cr r p cl =
      (case List.find (\<lambda>e. opens cr (take 50 (contents r)) (entry_Cipher (cl_entry cl e))) (SnapshotForClientIP cl p) of
         None \<Rightarrow> Ok (\<lparr>ak_elt = None, ak_reader = r', ak_salt = [],
                    ak_err = Some (ErrorNew ''Could not find valid TCP cipher''), ak_id = ''''\<rparr>, cl)
       | Some e \<Rightarrow> Ok (\<lparr>ak_elt = Some e, ak_reader = MultiReader (BytesReader (take 50 (contents r))) r',
                      ak_salt = take (SaltSize (entry_Cipher (cl_entry cl e))) (take 50 (contents r)),
                      ak_err = None, ak_id = ID (cl_entry cl e)\<rparr>, MarkUsedByClientIP cl e p))"
proof -
  obtain r' where r': "ReadFull r 50 = (take 50 (contents r), None, r')" "contents r' = drop 50 (contents r)"
    "final_error r' = final_error r" "eof_chained r'"
    using ReadFull_enough [OF assms(1), of "take 50 (contents r)" "drop 50 (contents r)" 50] assms(2) by auto
  have "\<forall>e \<in> set (SnapshotForClientIP cl p). cipher_ok cr (entry_Cipher (cl_entry cl e))"
    using assms(3) port_ciphers.snapshot_set [of cl p] by (simp add: keys_ok_def)
  from findEntry_find [OF this, of "take 50 (contents r)"] assms(2) r' show ?thesis
    by (intro that [of r']) (simp_all add: findAccessKey_def bytesForKeyFinding_def split: option.splits)
qed

text \<open>A client whose first bytes are those of a stream under the cipher of one key, and authenticate under no other.\<close>

lemma findAccessKey_finds:
  assumes keys: "keys_ok cr cl" and mem: "e \<in> set (cl_list cl)" and ch: "eof_chained r"
    and A: "NewAEAD cr (entry_Cipher (cl_entry cl e)) salt = Ok A"
    and salt: "length salt = SaltSize (entry_Cipher (cl_entry cl e))"
    and q: "chunk_ok q" and len: "50 \<le> length (contents r)"
    and fb: "take 50 (contents r) = take 50 (wire A salt (q # qs) @ rest)"
    and only: "\<And>e'. e' \<in> set (cl_list cl) \<Longrightarrow> opens cr (take 50 (contents r)) (entry_Cipher (cl_entry cl e')) \<Longrightarrow> e' = e"
  shows "\<exists>r'. findAccessKey cr r p cl =
      Ok (\<lparr>ak_elt = Some e, ak_reader = MultiReader (BytesReader (take 50 (contents r))) r', ak_salt = salt,
           ak_err = None, ak_id = ID (cl_entry cl e)\<rparr>, MarkUsedByClientIP cl e p) \<and>
    ReadFull r 50 = (take 50 (contents r), None, r') \<and>
    contents r' = drop 50 (contents r) \<and> final_error r' = final_error r \<and> eof_chained r'"
proof -
  have ok: "cipher_ok cr (entry_Cipher (cl_entry cl e))" using keys mem by (simp add: keys_ok_def)
  have "List.find (\<lambda>e. opens cr (take 50 (contents r)) (entry_Cipher (cl_entry cl e))) (SnapshotForClientIP cl p) = Some e"
  proof (rule port_ciphers.search_unique)
    show "opens cr (take 50 (contents r)) (entry_Cipher (cl_entry cl e))"
      unfolding fb by (rule opens_wire(1) [OF ok A salt q])
  qed (use mem only in simp_all)
  moreover have "take (SaltSize (entry_Cipher (cl_entry cl e))) (take 50 (contents r)) = salt"
    unfolding fb by (rule opens_wire(3) [OF ok A salt q])
  ultimately show ?thesis
    by (rule_tac findAccessKey_search [OF ch len keys, of p]) auto
qed

section \<open>Lemmas on the handler\<close>

lemma absorbProbe_spec:
  assumes "eof_chained r"
  shows "out_status (absorbProbe env i status s conn r) = status"
    and "out_client (absorbProbe env i status s conn r) = conn_writer conn"
    and "out_target (absorbProbe env i status s conn r) = None"
    and "contents (out_unread (absorbProbe env i status s conn r)) = []"
    and "tcp_api (out_service (absorbProbe env i status s conn r)) = tcp_api s"
    and "tcp_ciphers (out_service (absorbProbe env i status s conn r)) = tcp_ciphers s"
    and "tcp_replayCache (out_service (absorbProbe env i status s conn r)) = tcp_replayCache s"
    and "tcpProbes (tcp_m (out_service (absorbProbe env i status s conn r))) =
      tcpProbes (tcp_m s) @ [([env_port env, status,
         drainErrToString (if final_error r = EOF then None else Some (final_error r))],
         int (length (contents (conn_reader conn))))]"
proof -
  obtain r' where r': "copy_discard r 0 = (0 + length (contents r),
      (if final_error r = EOF then None else Some (final_error r)), r')" "contents r' = []"
    using copy_discard_spec [OF assms, of 0] by blast
  show "out_status (absorbProbe env i status s conn r) = status"
    "out_client (absorbProbe env i status s conn r) = conn_writer conn"
    "out_target (absorbProbe env i status s conn r) = None"
    "contents (out_unread (absorbProbe env i status s conn r)) = []"
    "tcp_api (out_service (absorbProbe env i status s conn r)) = tcp_api s"
    "tcp_ciphers (out_service (absorbProbe env i status s conn r)) = tcp_ciphers s"
    "tcp_replayCache (out_service (absorbProbe env i status s conn r)) = tcp_replayCache s"
    "tcpProbes (tcp_m (out_service (absorbProbe env i status s conn r))) =
      tcpProbes (tcp_m s) @ [([env_port env, status,
         drainErrToString (if final_error r = EOF then None else Some (final_error r))],
         int (length (contents (conn_reader conn))))]"
    using r' by (simp_all add: absorbProbe_def Let_def finish_def consumed_def AddTCPProbe_def
        AddClosedTCPConnection_def no_bytes_def)
qed

lemma dial_loop_allowed:
  "dial_loop validator atts err ie = (Inr (p, conn), ie') \<Longrightarrow> validator p = None \<and> ie' = None \<and> (p, Inr conn) \<in> set atts"
  by (induction validator atts err ie rule: dial_loop.induct) (auto split: option.splits sum.splits)

lemma dialTarget_allowed:
  "dialTarget validator atts err = Inr (p, conn) \<Longrightarrow> validator p = None \<and> (p, Inr conn) \<in> set atts"
  using dial_loop_allowed [of validator atts err None p conn]
  by (auto simp: dialTarget_def split: prod.splits option.splits sum.splits)

text \<open>The cases of \<open>handleConnection\<close> after the key is found.\<close>

lemma handleConnection_found:
  assumes "findAccessKey (env_crypto env) (conn_reader conn) (remoteIP (env_host_ip env) (conn_remote conn)) (tcp_ciphers s) =
      Ok (\<lparr>ak_elt = Some e, ak_reader = rd, ak_salt = salt, ak_err = None, ak_id = i\<rparr>, cl')"
  shows "handleConnection env s conn =
     (if IsServerSalt (env_crypto env) (entry_SaltGenerator (cl_entry cl' e)) salt then
        Some (Ok (absorbProbe env (ID (cl_entry cl' e)) ''ERR_REPLAY_SERVER'' (s\<lparr>tcp_ciphers := cl'\<rparr>) conn (conn_of rd)))
      else case Add (tcp_replayCache s) (ID (cl_entry cl' e)) salt of
        (False, rc') \<Rightarrow>
          Some (Ok (absorbProbe env (ID (cl_entry cl' e)) ''ERR_REPLAY_CLIENT''
                  (s\<lparr>tcp_ciphers := cl', tcp_replayCache := rc'\<rparr>) conn (conn_of rd)))
      | (True, rc') \<Rightarrow>
          serve_client env (cl_entry cl' e) i (s\<lparr>tcp_ciphers := cl', tcp_replayCache := rc'\<rparr>) conn rd)"
  using assms by (simp add: handleConnection_def Let_def split: prod.splits bool.splits)

lemma relay_target:
  "relay env entry uid s conn ssr (p, tgt) = Some (Ok out) \<Longrightarrow> \<exists>w. out_target out = Some (p, w)"
  by (auto simp: relay_def Let_def split: option.splits prod.splits result.splits)

lemma serve_client_target:
  assumes "serve_client env entry uid s conn rd = Some (Ok out)" and "out_target out = Some (p, w)"
  shows "tcp_targetIPValidator s p = None"
proof -
  from assms obtain a ssr where ra: "env_ReadAddr env (NewShadowsocksReader (env_pool env) rd (entry_Cipher entry)) = (Ok a, ssr)"
    by (auto simp: serve_client_def Let_def split: prod.splits result.splits)
  obtain atts err where d: "env_dial env (env_addr_String env a) = (atts, err)"
    by (cases "env_dial env (env_addr_String env a)")
  show ?thesis
  proof (cases "dialTarget (tcp_targetIPValidator s) atts err")
    case (Inl ce)
    with assms ra d show ?thesis by (auto simp: serve_client_def Let_def)
  next
    case (Inr t)
    obtain q tgt where t: "t = (q, tgt)" by (cases t)
    from assms(1) ra d Inr t obtain s1 ssr' where "relay env entry uid s1 conn ssr' (q, tgt) = Some (Ok out)"
      by (auto simp: serve_client_def Let_def)
    with assms(2) have "q = p" by (auto dest: relay_target)
    with dialTarget_allowed [of "tcp_targetIPValidator s" atts err q tgt] Inr t show ?thesis by simp
  qed
qed

section \<open>Properties of authentication\<close>

text \<open>C36: The number of bytes read to find the key suits every cipher: it is enough to authenticate the first block
  (salt, length and tag), and no valid connection is shorter. Hence trial decryption never slices out of range,
  and the search over any list of supported ciphers returns.\<close>

theorem key_finding_bounds:
  assumes "crypto_ok cr" and "supportedAEADs cr = Ok specs" and "NewCipher cr specs nm secret = Ok c"
    and "keys_ok cr cl" and "length firstBytes = bytesForKeyFinding"
  shows "SaltSize c + 2 + TagSize c \<le> bytesForKeyFinding \<and> bytesForKeyFinding \<le> SaltSize c + 2 + 2 * TagSize c \<and>
    (\<exists>found. findEntry cr (cl_entry cl) firstBytes (SnapshotForClientIP cl p) = Ok found)"
proof -
  have "cipher_ok cr c" using assms(1-3) by (rule NewCipher_cipher_ok)
  moreover have "\<forall>e \<in> set (SnapshotForClientIP cl p). cipher_ok cr (entry_Cipher (cl_entry cl e))"
    using assms(4) port_ciphers.snapshot_set [of cl p] by (simp add: keys_ok_def)
  ultimately show ?thesis
    using findEntry_find [of "SnapshotForClientIP cl p" cr "cl_entry cl" firstBytes] assms(5)
    by (auto simp: cipher_ok_def bytesForKeyFinding_def)
qed

definition toy_entry :: CipherEntry where
  "toy_entry = MakeCipherEntry toy_crypto ''u1'' toy_cipher ''pw''"

definition toy_list :: cipherList where
  "toy_list = \<lparr>cl_list = [7], cl_entry = \<lambda>_. toy_entry\<rparr>"

lemma toy_keys_ok: "keys_ok toy_crypto toy_list"
  using toy_cipher_ok by (simp add: keys_ok_def toy_list_def toy_entry_def)

theorem key_finding_bounds_witness:
  "\<exists>found. findEntry toy_crypto (cl_entry toy_list) (make_bytes 50) (SnapshotForClientIP toy_list []) = Ok found"
  using key_finding_bounds [OF toy_crypto_ok toy_specs toy_NewCipher toy_keys_ok, of "make_bytes 50" "[]"]
  by (simp add: bytesForKeyFinding_def)

text \<open>A genuine client is recognised. If a client sends a stream encrypted under the cipher of a key of the list,
  and its first 50 bytes authenticate under no other key, then \<open>findAccessKey\<close> returns that key and the stream's
  salt, whatever the order of the list and the client's address, marks the key as used, and hands on a reader
  that has the client's stream from its first byte.\<close>

lemma genuine_client_recognised:
  assumes "keys_ok cr cl" and "e \<in> set (cl_list cl)" and "eof_chained r"
    and "NewAEAD cr (entry_Cipher (cl_entry cl e)) salt = Ok A" and "length salt = SaltSize (entry_Cipher (cl_entry cl e))"
    and "list_all chunk_ok ps" and "ps \<noteq> []" and "contents r = wire A salt ps @ rest"
    and "\<And>e'. e' \<in> set (cl_list cl) \<Longrightarrow> opens cr (take 50 (contents r)) (entry_Cipher (cl_entry cl e')) \<Longrightarrow> e' = e"
  shows "\<exists>rd. findAccessKey cr r p cl =
      Ok (\<lparr>ak_elt = Some e, ak_reader = rd, ak_salt = salt, ak_err = None, ak_id = ID (cl_entry cl e)\<rparr>,
          MarkUsedByClientIP cl e p) \<and>
    contents rd = contents r \<and> final_error rd = final_error r \<and> eof_chained rd"
proof -
  from assms(7) obtain q qs where ps: "ps = q # qs" by (cases ps) auto
  have ok: "cipher_ok cr (entry_Cipher (cl_entry cl e))" using assms(1,2) by (simp add: keys_ok_def)
  from assms(6) ps have q: "chunk_ok q" by simp
  have len: "50 \<le> length (contents r)" using opens_wire(2) [OF ok assms(4,5) q, of qs] assms(8) ps by simp
  have "take 50 (contents r) = take 50 (wire A salt (q # qs) @ rest)" unfolding assms(8) ps ..
  from findAccessKey_finds [OF assms(1-5) q len this assms(9), of p] show ?thesis
    by (auto simp flip: append_assoc)
qed

lemma genuine_client_recognised_witness:
  "\<exists>A rd. findAccessKey toy_crypto (ConnReader [wire A (make_bytes 16) [[1, 2, 3]]] EOF) [1, 2, 3, 4] toy_list =
      Ok (\<lparr>ak_elt = Some 7, ak_reader = rd, ak_salt = make_bytes 16, ak_err = None, ak_id = ''u1''\<rparr>,
          MarkUsedByClientIP toy_list 7 [1, 2, 3, 4]) \<and> contents rd = wire A (make_bytes 16) [[1, 2, 3]]"
proof -
  obtain A where A: "NewAEAD toy_crypto toy_cipher (make_bytes 16) = Ok A"
    using toy_cipher_ok by (rule cipher_okE)
  let ?r = "ConnReader [wire A (make_bytes 16) [[1, 2, 3]]] EOF"
  have mem: "7 \<in> set (cl_list toy_list)" and entry: "cl_entry toy_list 7 = toy_entry" "ID toy_entry = ''u1''"
    "entry_Cipher toy_entry = toy_cipher" and only: "\<And>e'. e' \<in> set (cl_list toy_list) \<Longrightarrow> e' = 7"
    by (simp_all add: toy_list_def toy_entry_def)
  have chunk: "list_all chunk_ok [[1, 2, 3]]" by (simp add: chunk_ok_def payloadSizeMask_def)
  have "contents ?r = wire A (make_bytes 16) [[1, 2, 3]] @ []" by simp
  from genuine_client_recognised [OF toy_keys_ok mem _ _ _ chunk _ this only, unfolded entry, OF _ A]
  have "\<exists>rd. findAccessKey toy_crypto ?r [1, 2, 3, 4] toy_list =
      Ok (\<lparr>ak_elt = Some 7, ak_reader = rd, ak_salt = make_bytes 16, ak_err = None, ak_id = ''u1''\<rparr>,
          MarkUsedByClientIP toy_list 7 [1, 2, 3, 4]) \<and>
    contents rd = contents ?r \<and> final_error rd = final_error ?r \<and> eof_chained rd"
    by simp
  then show ?thesis by auto
qed

lemma handle_probe:
  assumes "keys_ok (env_crypto env) (tcp_ciphers s)" and "eof_chained (conn_reader conn)"
    and "length (contents (conn_reader conn)) < 50 \<or>
      (\<forall>e \<in> set (cl_list (tcp_ciphers s)).
         \<not> opens (env_crypto env) (take 50 (contents (conn_reader conn))) (entry_Cipher (cl_entry (tcp_ciphers s) e)))"
  shows "\<exists>out. handleConnection env s conn = Some (Ok out) \<and> out_status out = ''ERR_CIPHER'' \<and>
     out_client out = conn_writer conn \<and> out_target out = None \<and> contents (out_unread out) = [] \<and>
     tcp_ciphers (out_service out) = tcp_ciphers s \<and> tcp_replayCache (out_service out) = tcp_replayCache s \<and>
     tcp_api (out_service out) = tcp_api s \<and>
     tcpProbes (tcp_m (out_service out)) = tcpProbes (tcp_m s) @
       [([env_port env, ''ERR_CIPHER'',
          drainErrToString (if final_error (conn_reader conn) = EOF then None else Some (final_error (conn_reader conn)))],
         int (length (contents (conn_reader conn))))]"
proof -
  let ?p = "remoteIP (env_host_ip env) (conn_remote conn)"
  have "\<exists>r' e. findAccessKey (env_crypto env) (conn_reader conn) ?p (tcp_ciphers s) =
      Ok (\<lparr>ak_elt = None, ak_reader = r', ak_salt = [], ak_err = Some e, ak_id = ''''\<rparr>, tcp_ciphers s) \<and>
      eof_chained r' \<and> final_error r' = final_error (conn_reader conn)"
  proof (cases "length (contents (conn_reader conn)) < 50")
    case True
    from findAccessKey_short [OF assms(2) this] show ?thesis by metis
  next
    case False
    then have len: "50 \<le> length (contents (conn_reader conn))" by simp
    have "List.find (\<lambda>e. opens (env_crypto env) (take 50 (contents (conn_reader conn)))
        (entry_Cipher (cl_entry (tcp_ciphers s) e))) (SnapshotForClientIP (tcp_ciphers s) ?p) = None"
      unfolding port_ciphers.search_complete using assms(3) False by simp
    then show ?thesis
      by (rule_tac findAccessKey_search [OF assms(2) len assms(1), of ?p]) auto
  qed
  then obtain r' e where "findAccessKey (env_crypto env) (conn_reader conn) ?p (tcp_ciphers s) =
      Ok (\<lparr>ak_elt = None, ak_reader = r', ak_salt = [], ak_err = Some e, ak_id = ''''\<rparr>, tcp_ciphers s)"
    and r': "eof_chained r'" "final_error r' = final_error (conn_reader conn)"
    by blast
  then have "handleConnection env s conn = Some (Ok (absorbProbe env '''' ''ERR_CIPHER'' s conn r'))"
    by (simp add: handleConnection_def)
  with absorbProbe_spec [OF r'(1), of env "''''" "''ERR_CIPHER''" s conn] r'(2) show ?thesis by simp
qed

text \<open>C12: Probes are absorbed. If fewer than 50 bytes arrive before the deadline, or they authenticate under no key,
  the server writes nothing to the client, connects to no target, reads everything that arrives until the end
  or the deadline, and changes neither the keys nor the replay cache nor the traffic records; it records one
  probe with the number of bytes received and how the connection ended.\<close>

theorem probe_absorbed:
  assumes "keys_ok (env_crypto env) (tcp_ciphers s)" and "eof_chained (conn_reader conn)"
    and "length (contents (conn_reader conn)) < 50 \<or>
      (\<forall>e \<in> set (cl_list (tcp_ciphers s)).
         \<not> opens (env_crypto env) (take 50 (contents (conn_reader conn))) (entry_Cipher (cl_entry (tcp_ciphers s) e)))"
  shows "\<exists>out. handleConnection env s conn = Some (Ok out) \<and> out_status out = ''ERR_CIPHER'' \<and>
     out_client out = conn_writer conn \<and> out_target out = None \<and> contents (out_unread out) = [] \<and>
     tcp_ciphers (out_service out) = tcp_ciphers s \<and> tcp_replayCache (out_service out) = tcp_replayCache s \<and>
     tcp_api (out_service out) = tcp_api s \<and>
     tcpProbes (tcp_m (out_service out)) = tcpProbes (tcp_m s) @
       [([env_port env, ''ERR_CIPHER'',
          drainErrToString (if final_error (conn_reader conn) = EOF then None else Some (final_error (conn_reader conn)))],
         int (length (contents (conn_reader conn))))]"
  using assms by (rule handle_probe)

text \<open>An environment and a service for the witnesses: the address is the first byte of the stream, and dialling
  reaches 8.8.8.8, whose answer is two bytes.\<close>

definition toy_ReadAddr :: "ss_reader \<Rightarrow> bytes result \<times> ss_reader" where
  "toy_ReadAddr ssr = conv_Read (\<lambda>x. ReadChunk toy_crypto 0 x) ssr 1"

definition toy_env :: tcp_env where
  "toy_env = \<lparr>env_crypto = toy_crypto, env_pool = readBufPool toy_specs, env_pick = \<lambda>_. 0, env_entropy = Inr (\<lambda>_. 9),
     env_host_ip = \<lambda>_. Ok [], env_ReadAddr = toy_ReadAddr, env_addr_String = \<lambda>_. ''8.8.8.8:53'',
     env_dial = \<lambda>_. ([([8, 8, 8, 8], Inr \<lparr>tgt_reader = ConnReader [[70, 71]] EOF, tgt_writer = \<lparr>wout = [], wplan = []\<rparr>\<rparr>)], EOF),
     env_unix = 0, env_port = ''443'', env_timeToCipher = 0, env_duration = 0, env_client_first = True\<rparr>"

definition toy_service :: tcpService where
  "toy_service = \<lparr>tcp_ciphers = toy_list, tcp_m = newShadowsocksMetrics, tcp_replayCache = None,
     tcp_targetIPValidator = RequirePublicIP, tcp_api = api_New 1 0\<rparr>"

definition toy_conn :: "bytes list \<Rightarrow> goerror \<Rightarrow> client_conn" where
  "toy_conn segs e = \<lparr>conn_reader = ConnReader segs e, conn_later = ([], EOF), conn_writer = \<lparr>wout = [], wplan = []\<rparr>,
     conn_remote = None, conn_remoteStr = ''1.2.3.4:5''\<rparr>"

theorem probe_absorbed_witness:
  "\<exists>out. handleConnection toy_env toy_service (toy_conn [[1, 2], [3]] (NetError True)) = Some (Ok out) \<and>
     out_status out = ''ERR_CIPHER'' \<and> wout (out_client out) = [] \<and>
     tcpProbes (tcp_m (out_service out)) = [([''443'', ''ERR_CIPHER'', ''timeout''], 3)]"
proof -
  have "keys_ok (env_crypto toy_env) (tcp_ciphers toy_service)"
    using toy_keys_ok by (simp add: toy_env_def toy_service_def)
  from probe_absorbed [OF this, of "toy_conn [[1, 2], [3]] (NetError True)"] show ?thesis
    by (auto simp: toy_conn_def toy_env_def toy_service_def drainErrToString_def newShadowsocksMetrics_def)
qed

end
