(* ===== verification/Service_TCP_Relay.thy ===== *)
theory Service_TCP_Relay
  imports Service_TCP
begin

text \<open>
  Correctness of a relayed connection of \<^verbatim>\<open>service/tcp.go\<close>, from the first bytes of the client to the traffic
  records. Clearing the read deadline while a stream is being read does not disturb it: reads that have
  succeeded commute with \<open>lift_deadline\<close>.
\<close>

section \<open>Lifting the deadline commutes with successful reads\<close>

lemma Read_error_empty: "Read r n = (d, Some e, r') \<Longrightarrow> d = []"
  by (induction r n arbitrary: d e r' rule: Read.induct) (auto split: list.splits if_splits prod.splits)

lemma Read_lift: "Read r n = (d, None, r') \<Longrightarrow> Read (lift_deadline l r) n = (d, None, lift_deadline l r')"
proof (induction r n arbitrary: d r' rule: Read.induct)
  case (2 segs e n)
  then show ?case by (cases l) (auto split: list.splits if_splits)
next
  case (3 r1 r2 n)
  obtain d1 e1 s1 where r1: "Read r1 n = (d1, e1, s1)" by (cases "Read r1 n")
  with 3 show ?case by (cases "e1 = Some EOF") (auto dest: Read_error_empty)
qed (auto split: if_splits)

lemma ReadFull_lift:
  "ReadFull r n = (d, None, r') \<Longrightarrow> ReadFull (lift_deadline l r) n = (d, None, lift_deadline l r')"
proof -
  have "read_full r n acc = (d, None, r') \<Longrightarrow> read_full (lift_deadline l r) n acc = (d, None, lift_deadline l r')" for acc
  proof (induction r n acc rule: read_full.induct)
    case (1 r n acc)
    show ?case
    proof (cases "n = 0")
      case True
      with 1 show ?thesis by (simp add: read_full.simps [of _ 0])
    next
      case False
      obtain d1 e1 r1 where rd: "Read r n = (d1, e1, r1)" by (cases "Read r n")
      show ?thesis
      proof (cases e1)
        case None
        with "1.IH" [OF False, of d1 "(None, r1)" None r1] "1.prems" rd False Read_lift [of r n d1 r1 l] show ?thesis
          by (simp add: read_full.simps [of r] read_full.simps [of "lift_deadline l r"])
      next
        case (Some e)
        with rd "1.prems" False Read_error_empty [of r n d1 e r1] show ?thesis
          by (auto simp: read_full.simps [of r] split: if_splits)
      qed
    qed
  qed
  then show "ReadFull r n = (d, None, r') \<Longrightarrow> ReadFull (lift_deadline l r) n = (d, None, lift_deadline l r')"
    by (simp add: ReadFull_def)
qed

definition lift_chunk :: "bytes list \<times> goerror \<Rightarrow> chunkReader \<Rightarrow> chunkReader" where
  "lift_chunk l c = c\<lparr>cr_reader := lift_deadline l (cr_reader c)\<rparr>"

lemma lift_chunk_simps [simp]:
  "cr_reader (lift_chunk l c) = lift_deadline l (cr_reader c)" "cr_ssCipher (lift_chunk l c) = cr_ssCipher c"
  "cr_aead (lift_chunk l c) = cr_aead c" "cr_counter (lift_chunk l c) = cr_counter c"
  "payloadSizeBuf (lift_chunk l c) = payloadSizeBuf c" "cr_payload (lift_chunk l c) = cr_payload c"
  "cr_pool (lift_chunk l c) = cr_pool c"
  "(lift_chunk l c)\<lparr>cr_payload := ls, cr_pool := p\<rparr> = lift_chunk l (c\<lparr>cr_payload := ls, cr_pool := p\<rparr>)"
  "(lift_chunk l c)\<lparr>payloadSizeBuf := sb\<rparr> = lift_chunk l (c\<lparr>payloadSizeBuf := sb\<rparr>)"
  by (simp_all add: lift_chunk_def)

lemma readMessage_lift:
  "readMessage A c n = (Ok x, c') \<Longrightarrow> readMessage A (lift_chunk l c) n = (Ok x, lift_chunk l c')"
  by (auto simp: readMessage_def Let_def lift_chunk_def ReadFull_lift
      split: prod.splits option.splits)

lemma chunk_init_lift:
  "chunk_init cr c = (Ok u, c') \<Longrightarrow> chunk_init cr (lift_chunk l c) = (Ok u, lift_chunk l c')"
  by (auto simp: chunk_init_def lift_chunk_def ReadFull_lift
      split: prod.splits option.splits result.splits)

lemma readPayload_lift:
  "readPayload A k c = (Ok p, c') \<Longrightarrow> readPayload A k (lift_chunk l c) = (Ok p, lift_chunk l c')"
  by (auto simp: readPayload_def Let_def readMessage_lift
      split: prod.splits option.splits result.splits if_splits)

lemma ReadChunk_lift:
  assumes "ReadChunk cr k c = (Ok p, c')"
  shows "ReadChunk cr k (lift_chunk l c) = (Ok p, lift_chunk l c')"
proof -
  from assms obtain c0 ls pool A sb c2 where
    "chunk_init cr c = (Ok (), c0)" "Release (cr_pool c0) (cr_payload c0) = Ok (ls, pool)" "cr_aead c0 = Some A"
    "readMessage A (c0\<lparr>cr_payload := ls, cr_pool := pool\<rparr>) (length (payloadSizeBuf c0)) = (Ok sb, c2)"
    "readPayload A k (c2\<lparr>payloadSizeBuf := sb\<rparr>) = (Ok p, c')"
    by (auto simp: ReadChunk_def Let_def split: prod.splits option.splits result.splits)
  then show ?thesis
    by (simp add: ReadChunk_def chunk_init_lift readMessage_lift readPayload_lift)
qed

text \<open>A sequence of \<open>Read\<close> calls with buffers of the given lengths, all of them successful.\<close>

fun conv_reads :: "'c chunk_fn \<Rightarrow> 'c readConverter \<Rightarrow> nat list \<Rightarrow> (bytes \<times> 'c readConverter) option" where
  "conv_reads rd c [] = Some ([], c)"
| "conv_reads rd c (n # ns) =
     (case conv_Read rd c n of
        (Ok d, c') \<Rightarrow> (case conv_reads rd c' ns of Some (ds, c'') \<Rightarrow> Some (d @ ds, c'') | None \<Rightarrow> None)
      | _ \<Rightarrow> None)"

lemma lift_ssr_chunk: "lift_ssr l ssr = ssr\<lparr>rc_cr := lift_chunk l (rc_cr ssr)\<rparr>"
  by (simp add: lift_ssr_def lift_chunk_def)

lemma conv_Read_lift:
  "conv_Read (\<lambda>x. ReadChunk cr (pick (cr_pool x)) x) ssr n = (Ok d, ssr') \<Longrightarrow>
     conv_Read (\<lambda>x. ReadChunk cr (pick (cr_pool x)) x) (lift_ssr l ssr) n = (Ok d, lift_ssr l ssr')"
  by (auto simp: conv_Read_def ensureLeftover_def lift_ssr_chunk ReadChunk_lift
      split: prod.splits result.splits if_splits)

lemma conv_reads_lift:
  "conv_reads (\<lambda>x. ReadChunk cr (pick (cr_pool x)) x) ssr ns = Some (d, ssr') \<Longrightarrow>
     conv_reads (\<lambda>x. ReadChunk cr (pick (cr_pool x)) x) (lift_ssr l ssr) ns = Some (d, lift_ssr l ssr')"
proof (induction ns arbitrary: ssr d)
  case (Cons n ns)
  then show ?case
    by (auto simp: conv_Read_lift split: prod.splits result.splits option.splits)
qed simp

lemma contents_lift_length: "length (contents r) \<le> length (contents (lift_deadline l r))"
  by (induction l r rule: lift_deadline.induct) auto

lemma eof_chained_lift: "eof_chained r \<Longrightarrow> eof_chained (lift_deadline l r)"
  by (cases l; induction l r rule: lift_deadline.induct) auto

section \<open>The relay\<close>

lemma conv_reads_spec:
  assumes "chunk_inv cr (rc_cr c)" and "conv_reads (\<lambda>x. ReadChunk cr (pick x) x) c ns = Some (d, c')"
  shows "chunk_inv cr (rc_cr c') \<and> ss_chunks.undelivered cr c = d @ ss_chunks.undelivered cr c' \<and>
    snd (chunks_left cr (rc_cr c')) = snd (chunks_left cr (rc_cr c))"
  using assms
proof (induction ns arbitrary: c d)
  case (Cons n ns)
  from Cons.prems(2) obtain d1 c1 ds where 1: "conv_Read (\<lambda>x. ReadChunk cr (pick x) x) c n = (Ok d1, c1)"
    "conv_reads (\<lambda>x. ReadChunk cr (pick x) x) c1 ns = Some (ds, c')" "d = d1 @ ds"
    by (auto split: prod.splits result.splits option.splits)
  with ss_chunks.conv_Read_spec [OF Cons.prems(1), of pick n] have
    "chunk_inv cr (rc_cr c1)" "ss_chunks.undelivered cr c = d1 @ ss_chunks.undelivered cr c1"
    "snd (chunks_left cr (rc_cr c1)) = snd (chunks_left cr (rc_cr c))"
    by auto
  with Cons.IH [of c1 ds] 1 show ?case by simp
qed simp

text \<open>The two relay goroutines over streams that end cleanly.\<close>

lemma relay_ok:
  assumes ok: "cipher_ok (env_crypto env) (entry_Cipher entry)"
    and ssr: "chunk_inv (env_crypto env) (rc_cr ssr)" "snd (chunks_left (env_crypto env) (rc_cr ssr)) = EOF"
    and tw: "writes_all (tgt_writer tgt)" and tr: "eof_chained (tgt_reader tgt)" "final_error (tgt_reader tgt) = EOF"
      "length (contents (tgt_reader tgt)) < 2 ^ 95"
    and cw: "wout (conn_writer conn) = []" "writes_all (conn_writer conn)"
    and salt: "GetSalt (env_crypto env) (entry_SaltGenerator entry) (env_entropy env)
      (make_bytes (SaltSize (entry_Cipher entry))) = Ok salt"
  obtains out w A qs where "relay env entry uid s conn ssr (p, tgt) = Some (Ok out)" "out_status out = ''OK''"
    "out_target out = Some (p, w)"
    "concat (wout w) = concat (wout (tgt_writer tgt)) @ ss_chunks.undelivered (env_crypto env) ssr"
    "NewAEAD (env_crypto env) (entry_Cipher entry) salt = Ok A" "length salt = SaltSize (entry_Cipher entry)"
    "list_all chunk_ok qs" "concat qs = contents (tgt_reader tgt)" "concat (wout (out_client out)) = wire A salt qs"
    "tcp_api (out_service out) =
       (let up = \<lparr>UID = uid, ut_U = word_of_nat (length (ss_chunks.undelivered (env_crypto env) ssr)), ut_D = 0\<rparr>;
            down = \<lparr>UID = uid, ut_U = 0, ut_D = word_of_nat (length (contents (tgt_reader tgt)))\<rparr>
        in if env_client_first env then AddRepo (AddRepo (tcp_api s) up) down
           else AddRepo (AddRepo (tcp_api s) down) up)"
proof -
  let ?cr = "env_crypto env"
  let ?ssw = "SetSaltGenerator (NewShadowsocksWriter (conn_writer conn) (entry_Cipher entry)) (Some (entry_SaltGenerator entry))"
  from ss_chunks.conv_WriteTo_writes [OF ssr(1), of "\<lambda>x. env_pick env (cr_pool x)" "tgt_writer tgt" 0] tw ssr(2)
  obtain c' w where up: "conv_WriteTo (\<lambda>x. ReadChunk ?cr (env_pick env (cr_pool x)) x) ssr (tgt_writer tgt) 0 =
      Some (Ok (length (ss_chunks.undelivered ?cr ssr), None), c', w)"
    "concat (wout w) = concat (wout (tgt_writer tgt)) @ ss_chunks.undelivered ?cr ssr"
    by auto
  have fresh: "fresh_writer (entry_SaltGenerator entry) ?ssw" and c: "ssCipher ?ssw = entry_Cipher entry"
    using cw by (simp_all add: fresh_writer_def SetSaltGenerator_def NewShadowsocksWriter_def)
  have gs: "GetSalt ?cr (entry_SaltGenerator entry) (env_entropy env) (make_bytes (SaltSize (ssCipher ?ssw))) = Ok salt"
    using salt by (simp only: c)
  obtain A sw' r' qs where down: "NewAEAD ?cr (entry_Cipher entry) salt = Ok A"
    "ReadFrom ?cr (env_entropy env) False ?ssw (tgt_reader tgt) = Ok (length (contents (tgt_reader tgt)), None, sw', r')"
    "list_all chunk_ok qs" "concat qs = contents (tgt_reader tgt)" "concat (wout (sw_writer sw')) = wire A salt qs"
    by (rule ReadFrom_fresh [OF _ fresh gs tr(1,3), of False]) (use ok c tr(2) in auto)
  have len: "length salt = SaltSize (entry_Cipher entry)"
    using any_salts.salt_length [OF salt] by simp
  define up_rec where "up_rec = \<lparr>UID = uid, ut_U = word_of_nat (length (ss_chunks.undelivered ?cr ssr)), ut_D = 0\<rparr>"
  define down_rec where "down_rec = \<lparr>UID = uid, ut_U = 0, ut_D = word_of_nat (length (contents (tgt_reader tgt)))\<rparr>"
  have "\<exists>out. relay env entry uid s conn ssr (p, tgt) = Some (Ok out) \<and> out_status out = ''OK'' \<and>
      out_target out = Some (p, w) \<and> out_client out = sw_writer sw' \<and>
      tcp_api (out_service out) = (if env_client_first env then AddRepo (AddRepo (tcp_api s) up_rec) down_rec
        else AddRepo (AddRepo (tcp_api s) down_rec) up_rec)"
    using up(1) down(2) by (simp add: relay_def Let_def finish_def up_rec_def down_rec_def)
  then obtain out where "relay env entry uid s conn ssr (p, tgt) = Some (Ok out)" "out_status out = ''OK''"
      "out_target out = Some (p, w)" "out_client out = sw_writer sw'"
      "tcp_api (out_service out) = (if env_client_first env then AddRepo (AddRepo (tcp_api s) up_rec) down_rec
        else AddRepo (AddRepo (tcp_api s) down_rec) up_rec)"
    by blast
  then show thesis
    by (intro that [of out w A qs]) (use up(2) down(1,3,4,5) len in \<open>simp_all add: up_rec_def down_rec_def\<close>)
qed

text \<open>A client that speaks the protocol: under the cipher of key \<open>e\<close> it sends the chunks \<open>ps\<close>, of which the first 50
  bytes arrive before the deadline, and then closes. No other key of the list authenticates these bytes.\<close>

definition honest_client :: "crypto \<Rightarrow> cipherList \<Rightarrow> client_conn \<Rightarrow> nat \<Rightarrow> bytes \<Rightarrow> aead \<Rightarrow> bytes list \<Rightarrow> bool" where
  "honest_client cr cl conn e salt A ps \<longleftrightarrow>
     e \<in> set (cl_list cl) \<and> eof_chained (conn_reader conn) \<and> 50 \<le> length (contents (conn_reader conn)) \<and>
     contents (lift_deadline (conn_later conn) (conn_reader conn)) = wire A salt ps \<and>
     final_error (lift_deadline (conn_later conn) (conn_reader conn)) = EOF \<and>
     NewAEAD cr (entry_Cipher (cl_entry cl e)) salt = Ok A \<and> length salt = SaltSize (entry_Cipher (cl_entry cl e)) \<and>
     list_all chunk_ok ps \<and> ps \<noteq> [] \<and>
     (\<forall>e' \<in> set (cl_list cl). opens cr (take 50 (contents (conn_reader conn))) (entry_Cipher (cl_entry cl e')) \<longrightarrow> e' = e)"

text \<open>A target that accepts all it is sent and answers with a stream that ends, and a client connection to which
  nothing has been written.\<close>

definition good_target :: "target_conn \<Rightarrow> bool" where
  "good_target tgt \<longleftrightarrow> writes_all (tgt_writer tgt) \<and> wout (tgt_writer tgt) = [] \<and> eof_chained (tgt_reader tgt) \<and>
     final_error (tgt_reader tgt) = EOF \<and> length (contents (tgt_reader tgt)) < 2 ^ 95"

text \<open>The reader that \<open>findAccessKey\<close> hands on for a client whose key it finds.\<close>

definition replayed_reader :: "client_conn \<Rightarrow> reader" where
  "replayed_reader conn =
     MultiReader (BytesReader (take 50 (contents (conn_reader conn)))) (snd (snd (ReadFull (conn_reader conn) 50)))"

lemma honest_client_found:
  assumes keys: "keys_ok cr cl" and hc: "honest_client cr cl conn e salt A ps"
  shows "findAccessKey cr (conn_reader conn) p cl =
      Ok (\<lparr>ak_elt = Some e, ak_reader = replayed_reader conn, ak_salt = salt, ak_err = None, ak_id = ID (cl_entry cl e)\<rparr>,
          MarkUsedByClientIP cl e p)"
    and "contents (lift_deadline (conn_later conn) (replayed_reader conn)) = wire A salt ps"
    and "final_error (lift_deadline (conn_later conn) (replayed_reader conn)) = EOF"
    and "eof_chained (replayed_reader conn)"
proof -
  let ?r = "conn_reader conn" and ?l = "conn_later conn"
  from hc have mem: "e \<in> set (cl_list cl)" and ch: "eof_chained ?r" and len: "50 \<le> length (contents ?r)"
    and cont: "contents (lift_deadline ?l ?r) = wire A salt ps" and fin: "final_error (lift_deadline ?l ?r) = EOF"
    and A: "NewAEAD cr (entry_Cipher (cl_entry cl e)) salt = Ok A"
    and salt: "length salt = SaltSize (entry_Cipher (cl_entry cl e))"
    and only: "\<And>e'. e' \<in> set (cl_list cl) \<Longrightarrow> opens cr (take 50 (contents ?r)) (entry_Cipher (cl_entry cl e')) \<Longrightarrow> e' = e"
    by (auto simp: honest_client_def)
  from hc obtain q qs where ps: "ps = q # qs" "chunk_ok q" by (cases ps) (auto simp: honest_client_def)
  obtain r1 where rf: "ReadFull ?r 50 = (take 50 (contents ?r), None, r1)" "eof_chained r1"
    using ReadFull_enough [OF ch, of "take 50 (contents ?r)" "drop 50 (contents ?r)" 50] len by auto
  have lens: "50 \<le> length (contents (lift_deadline ?l ?r))"
    using opens_wire(2) [OF _ A salt ps(2)] keys mem cont ps(1) by (simp add: keys_ok_def)
  obtain r2 where r2: "ReadFull (lift_deadline ?l ?r) 50 = (take 50 (wire A salt ps), None, r2)"
    "contents r2 = drop 50 (wire A salt ps)" "final_error r2 = EOF"
    using ReadFull_enough [OF eof_chained_lift [OF ch], of ?l "take 50 (wire A salt ps)" "drop 50 (wire A salt ps)" 50]
      lens cont fin by auto
  from ReadFull_lift [OF rf(1), of ?l] r2(1) have eq: "take 50 (contents ?r) = take 50 (wire A salt ps)"
    "r2 = lift_deadline ?l r1" by auto
  have fb: "take 50 (contents ?r) = take 50 (wire A salt (q # qs) @ [])" using eq(1) ps(1) by simp
  from findAccessKey_finds [OF keys mem ch A salt ps(2) len fb only, of p] rf(1)
  show "findAccessKey cr ?r p cl =
      Ok (\<lparr>ak_elt = Some e, ak_reader = replayed_reader conn, ak_salt = salt, ak_err = None, ak_id = ID (cl_entry cl e)\<rparr>,
          MarkUsedByClientIP cl e p)"
    by (auto simp: replayed_reader_def)
  show "contents (lift_deadline ?l (replayed_reader conn)) = wire A salt ps"
    "final_error (lift_deadline ?l (replayed_reader conn)) = EOF" "eof_chained (replayed_reader conn)"
    using r2 eq rf by (simp_all add: replayed_reader_def)
qed

text \<open>After authentication.\<close>

lemma serve_client_ok:
  assumes base: "crypto_ok (env_crypto env)" "supportedAEADs (env_crypto env) = Ok specs" "env_pool env = readBufPool specs"
    and ok: "cipher_ok (env_crypto env) (entry_Cipher entry)"
    and rd: "eof_chained rd" "contents (lift_deadline (conn_later conn) rd) = wire A salt ps"
      "final_error (lift_deadline (conn_later conn) rd) = EOF"
    and A: "NewAEAD (env_crypto env) (entry_Cipher entry) salt = Ok A" "length salt = SaltSize (entry_Cipher entry)"
      "list_all chunk_ok ps"
    and plain: "concat ps = a @ payload"
    and ra: "env_ReadAddr env (NewShadowsocksReader (env_pool env) rd (entry_Cipher entry)) = (Ok a, ssr)"
      "conv_reads (\<lambda>x. ReadChunk (env_crypto env) (env_pick env (cr_pool x)) x)
         (NewShadowsocksReader (env_pool env) rd (entry_Cipher entry)) ns = Some (a, ssr)"
    and dial: "dialTarget (tcp_targetIPValidator s) (fst (env_dial env (env_addr_String env a)))
      (snd (env_dial env (env_addr_String env a))) = Inr (p, tgt)"
    and tgt: "good_target tgt" and cw: "wout (conn_writer conn) = []" "writes_all (conn_writer conn)"
    and salt: "GetSalt (env_crypto env) (entry_SaltGenerator entry) (env_entropy env)
      (make_bytes (SaltSize (entry_Cipher entry))) = Ok salt2"
    and uid: "uid \<noteq> ''''"
  shows "\<exists>out w A2 qs. serve_client env entry uid s conn rd = Some (Ok out) \<and> out_status out = ''OK'' \<and>
    out_target out = Some (p, w) \<and> concat (wout w) = payload \<and>
    NewAEAD (env_crypto env) (entry_Cipher entry) salt2 = Ok A2 \<and> length salt2 = SaltSize (entry_Cipher entry) \<and>
    list_all chunk_ok qs \<and> concat qs = contents (tgt_reader tgt) \<and> concat (wout (out_client out)) = wire A2 salt2 qs \<and>
    user_U uid (r_RepoList (Rtask (tcp_api (out_service out)))) =
      user_U uid (r_RepoList (Rtask (tcp_api s))) + word_of_nat (length payload) \<and>
    user_D uid (r_RepoList (Rtask (tcp_api (out_service out)))) =
      user_D uid (r_RepoList (Rtask (tcp_api s))) + word_of_nat (length (contents (tgt_reader tgt)))"
proof -
  let ?cr = "env_crypto env" and ?l = "conn_later conn"
  let ?new = "\<lambda>r. NewShadowsocksReader (env_pool env) r (entry_Cipher entry)"
  have lift_new: "lift_ssr ?l (?new rd) = ?new (lift_deadline ?l rd)"
    by (simp add: lift_ssr_def NewShadowsocksReader_def newChunkReader_def)
  have inv: "chunk_inv ?cr (rc_cr (?new (lift_deadline ?l rd)))"
    using newChunkReader_inv [OF base(1,2) ok eof_chained_lift [OF rd(1)]] base(3)
    by (simp add: NewShadowsocksReader_def)
  have left: "chunks_left ?cr (rc_cr (?new (lift_deadline ?l rd))) = (ps, EOF)"
    using chunks_left_wire [OF ok A rd(2,3)] by (simp add: NewShadowsocksReader_def)
  from conv_reads_lift [OF ra(2), of ?l] have
    "conv_reads (\<lambda>x. ReadChunk ?cr (env_pick env (cr_pool x)) x) (?new (lift_deadline ?l rd)) ns = Some (a, lift_ssr ?l ssr)"
    by (simp only: lift_new)
  from conv_reads_spec [OF inv this] left plain have
    ssr: "chunk_inv ?cr (rc_cr (lift_ssr ?l ssr))" "snd (chunks_left ?cr (rc_cr (lift_ssr ?l ssr))) = EOF"
    "ss_chunks.undelivered ?cr (lift_ssr ?l ssr) = payload"
    by (simp_all add: ss_chunks.undelivered_def NewShadowsocksReader_def)
  define s1 where "s1 = s\<lparr>tcp_api := AddWwwRepo (tcp_api s)
      \<lparr>UNID = uid, Host = env_addr_String env a, Uip = conn_remoteStr conn, www_Date = env_unix env, IsUdp = 0, www_Status = 1\<rparr>\<rparr>"
  have sc: "serve_client env entry uid s conn rd = relay env entry uid s1 conn (lift_ssr ?l ssr) (p, tgt)"
    using ra(1) dial
    by (cases "env_dial env (env_addr_String env a)") (simp add: serve_client_def Let_def s1_def)
  have rt: "Rtask (tcp_api s1) = Rtask (tcp_api s)" by (simp add: s1_def AddWwwRepo_def)
  obtain out w A2 qs where out: "relay env entry uid s1 conn (lift_ssr ?l ssr) (p, tgt) = Some (Ok out)" "out_status out = ''OK''"
    "out_target out = Some (p, w)" "concat (wout w) = concat (wout (tgt_writer tgt)) @ payload"
    "NewAEAD ?cr (entry_Cipher entry) salt2 = Ok A2" "length salt2 = SaltSize (entry_Cipher entry)"
    "list_all chunk_ok qs" "concat qs = contents (tgt_reader tgt)" "concat (wout (out_client out)) = wire A2 salt2 qs"
    "tcp_api (out_service out) =
       (let up = \<lparr>UID = uid, ut_U = word_of_nat (length payload), ut_D = 0\<rparr>;
            down = \<lparr>UID = uid, ut_U = 0, ut_D = word_of_nat (length (contents (tgt_reader tgt)))\<rparr>
        in if env_client_first env then AddRepo (AddRepo (tcp_api s1) up) down
           else AddRepo (AddRepo (tcp_api s1) down) up)"
    using tgt unfolding good_target_def
    by (rule_tac relay_ok [OF ok ssr(1,2) _ _ _ _ cw salt, where uid = uid and s = s1 and p = p and tgt = tgt])
      (auto simp: ssr(3))
  have "user_U uid (r_RepoList (Rtask (tcp_api (out_service out)))) =
      user_U uid (r_RepoList (Rtask (tcp_api s))) + word_of_nat (length payload) \<and>
    user_D uid (r_RepoList (Rtask (tcp_api (out_service out)))) =
      user_D uid (r_RepoList (Rtask (tcp_api s))) + word_of_nat (length (contents (tgt_reader tgt)))"
    by (simp add: out(10) Let_def AddRepo_user [OF uid] rt)
  with out sc tgt show ?thesis
    by (intro exI [of _ out] exI [of _ w] exI [of _ A2] exI [of _ qs]) (simp add: good_target_def)
qed

lemma handleConnection_target:
  assumes "handleConnection env s conn = Some (Ok out)" and "out_target out = Some (p, w)"
  shows "tcp_targetIPValidator s p = None"
proof -
  from assms(1) obtain ak cl' where fk: "findAccessKey (env_crypto env) (conn_reader conn)
      (remoteIP (env_host_ip env) (conn_remote conn)) (tcp_ciphers s) = Ok (ak, cl')"
    by (auto simp: handleConnection_def split: result.splits)
  have no_target: "out_target (absorbProbe env i status s' conn r) = None" for i status s' r
    by (simp add: absorbProbe_def Let_def split: prod.splits)
  from assms fk no_target obtain entry rc rd where
    "serve_client env entry (ak_id ak) (s\<lparr>tcp_ciphers := cl', tcp_replayCache := rc\<rparr>) conn rd = Some (Ok out)"
    by (auto simp: handleConnection_def Let_def split: option.splits if_splits prod.splits bool.splits)
  from serve_client_target [OF this assms(2)] show ?thesis by simp
qed

section \<open>Properties of relayed connections\<close>

lemma handle_genuine:
  assumes base: "crypto_ok (env_crypto env)" "supportedAEADs (env_crypto env) = Ok specs" "env_pool env = readBufPool specs"
    and keys: "keys_ok (env_crypto env) (tcp_ciphers s)"
    and hc: "honest_client (env_crypto env) (tcp_ciphers s) conn e salt A ps"
    and entry: "entry = cl_entry (MarkUsedByClientIP (tcp_ciphers s) e (remoteIP (env_host_ip env) (conn_remote conn))) e"
      "ID entry \<noteq> ''''"
    and new: "\<not> IsServerSalt (env_crypto env) (entry_SaltGenerator entry) salt"
      "fst (Add (tcp_replayCache s) (ID entry) salt)"
    and plain: "concat ps = a @ payload"
    and contract: "\<And>ssr a' ssr'. env_ReadAddr env ssr = (Ok a', ssr') \<Longrightarrow>
      \<exists>ns. conv_reads (\<lambda>x. ReadChunk (env_crypto env) (env_pick env (cr_pool x)) x) ssr ns = Some (a', ssr')"
    and addr: "fst (env_ReadAddr env (NewShadowsocksReader (env_pool env) (replayed_reader conn) (entry_Cipher entry))) = Ok a"
    and dial: "dialTarget (tcp_targetIPValidator s) (fst (env_dial env (env_addr_String env a)))
      (snd (env_dial env (env_addr_String env a))) = Inr (p, tgt)"
    and tgt: "good_target tgt" and cw: "wout (conn_writer conn) = []" "writes_all (conn_writer conn)"
    and salt: "GetSalt (env_crypto env) (entry_SaltGenerator entry) (env_entropy env)
      (make_bytes (SaltSize (entry_Cipher entry))) = Ok salt2"
  shows "\<exists>out w. handleConnection env s conn = Some (Ok out) \<and> out_status out = ''OK'' \<and>
    out_target out = Some (p, w) \<and> concat (wout w) = payload \<and>
    (\<exists>qs. concat qs = contents (tgt_reader tgt) \<and> (\<forall>segs. concat segs = concat (wout (out_client out)) \<longrightarrow>
       chunks_left (env_crypto env) (newChunkReader (env_pool env) (ConnReader segs EOF) (entry_Cipher entry)) = (qs, EOF))) \<and>
    user_U (ID entry) (r_RepoList (Rtask (tcp_api (out_service out)))) =
      user_U (ID entry) (r_RepoList (Rtask (tcp_api s))) + word_of_nat (length payload) \<and>
    user_D (ID entry) (r_RepoList (Rtask (tcp_api (out_service out)))) =
      user_D (ID entry) (r_RepoList (Rtask (tcp_api s))) + word_of_nat (length (contents (tgt_reader tgt)))"
proof -
  let ?cr = "env_crypto env" and ?p = "remoteIP (env_host_ip env) (conn_remote conn)"
  note found = honest_client_found [OF keys hc]
  have e: "entry_Cipher entry = entry_Cipher (cl_entry (tcp_ciphers s) e)" "ID entry = ID (cl_entry (tcp_ciphers s) e)"
    using entry(1) by simp_all
  from hc have A: "NewAEAD ?cr (entry_Cipher entry) salt = Ok A" "length salt = SaltSize (entry_Cipher entry)"
    "list_all chunk_ok ps" and "e \<in> set (cl_list (tcp_ciphers s))"
    by (simp_all add: honest_client_def e)
  then have ok: "cipher_ok ?cr (entry_Cipher entry)" using keys by (simp add: keys_ok_def e)
  obtain ssr where ra: "env_ReadAddr env (NewShadowsocksReader (env_pool env) (replayed_reader conn) (entry_Cipher entry)) = (Ok a, ssr)"
    using addr by (metis prod.collapse)
  from contract [OF this] obtain ns where ns: "conv_reads (\<lambda>x. ReadChunk ?cr (env_pick env (cr_pool x)) x)
      (NewShadowsocksReader (env_pool env) (replayed_reader conn) (entry_Cipher entry)) ns = Some (a, ssr)"
    by blast
  obtain rc where rc: "Add (tcp_replayCache s) (ID entry) salt = (True, rc)"
    using new(2) by (cases "Add (tcp_replayCache s) (ID entry) salt") auto
  define s1 where "s1 = s\<lparr>tcp_ciphers := MarkUsedByClientIP (tcp_ciphers s) e ?p, tcp_replayCache := rc\<rparr>"
  have hcn: "handleConnection env s conn = serve_client env entry (ID entry) s1 conn (replayed_reader conn)"
    using handleConnection_found [OF found(1)] new(1) rc by (simp add: entry(1) s1_def)
  have dial1: "dialTarget (tcp_targetIPValidator s1) (fst (env_dial env (env_addr_String env a)))
      (snd (env_dial env (env_addr_String env a))) = Inr (p, tgt)"
    using dial by (simp add: s1_def)
  from serve_client_ok [OF base ok found(4,2,3) A plain ra ns dial1 tgt cw salt entry(2)] obtain out w A2 qs where
    out: "handleConnection env s conn = Some (Ok out)" "out_status out = ''OK''" "out_target out = Some (p, w)"
    "concat (wout w) = payload" and
    wire: "NewAEAD ?cr (entry_Cipher entry) salt2 = Ok A2" "length salt2 = SaltSize (entry_Cipher entry)"
    "list_all chunk_ok qs" "concat qs = contents (tgt_reader tgt)" "concat (wout (out_client out)) = wire A2 salt2 qs" and
    traffic: "user_U (ID entry) (r_RepoList (Rtask (tcp_api (out_service out)))) =
      user_U (ID entry) (r_RepoList (Rtask (tcp_api s))) + word_of_nat (length payload)"
    "user_D (ID entry) (r_RepoList (Rtask (tcp_api (out_service out)))) =
      user_D (ID entry) (r_RepoList (Rtask (tcp_api s))) + word_of_nat (length (contents (tgt_reader tgt)))"
    unfolding hcn by (auto simp: s1_def)
  have "chunks_left ?cr (newChunkReader (env_pool env) (ConnReader segs EOF) (entry_Cipher entry)) = (qs, EOF)"
    if "concat segs = concat (wout (out_client out))" for segs
    using chunks_left_wire [OF ok wire(1-3), of "ConnReader segs EOF"] that wire(5) by simp
  with out traffic wire(4) show ?thesis by blast
qed

text \<open>C9: A genuine connection is relayed faithfully. A client that sends an address and a payload, encrypted under
  one key of the list, over a connection that arrives in any segmentation, is served with status \<^verbatim>\<open>OK\<close>: the
  target receives exactly the payload, the bytes written to the client decrypt under the same key to exactly
  what the target answered, and the traffic records of the key's user grow by exactly the payload's and the
  answer's lengths.\<close>

theorem tcp_relay_correct:
  assumes base: "crypto_ok (env_crypto env)" "supportedAEADs (env_crypto env) = Ok specs" "env_pool env = readBufPool specs"
    and keys: "keys_ok (env_crypto env) (tcp_ciphers s)"
    and hc: "honest_client (env_crypto env) (tcp_ciphers s) conn e salt A ps"
    and entry: "entry = cl_entry (MarkUsedByClientIP (tcp_ciphers s) e (remoteIP (env_host_ip env) (conn_remote conn))) e"
      "ID entry \<noteq> ''''"
    and new: "\<not> IsServerSalt (env_crypto env) (entry_SaltGenerator entry) salt"
      "fst (Add (tcp_replayCache s) (ID entry) salt)"
    and plain: "concat ps = a @ payload"
    and contract: "\<And>ssr a' ssr'. env_ReadAddr env ssr = (Ok a', ssr') \<Longrightarrow>
      \<exists>ns. conv_reads (\<lambda>x. ReadChunk (env_crypto env) (env_pick env (cr_pool x)) x) ssr ns = Some (a', ssr')"
    and addr: "fst (env_ReadAddr env (NewShadowsocksReader (env_pool env) (replayed_reader conn) (entry_Cipher entry))) = Ok a"
    and dial: "dialTarget (tcp_targetIPValidator s) (fst (env_dial env (env_addr_String env a)))
      (snd (env_dial env (env_addr_String env a))) = Inr (p, tgt)"
    and tgt: "good_target tgt" and cw: "wout (conn_writer conn) = []" "writes_all (conn_writer conn)"
    and salt: "GetSalt (env_crypto env) (entry_SaltGenerator entry) (env_entropy env)
      (make_bytes (SaltSize (entry_Cipher entry))) = Ok salt2"
  shows "\<exists>out w. handleConnection env s conn = Some (Ok out) \<and> out_status out = ''OK'' \<and>
    out_target out = Some (p, w) \<and> concat (wout w) = payload \<and>
    (\<forall>segs. concat segs = concat (wout (out_client out)) \<longrightarrow>
       concat (fst (chunks_left (env_crypto env) (newChunkReader (env_pool env) (ConnReader segs EOF) (entry_Cipher entry))))
         = contents (tgt_reader tgt)) \<and>
    user_U (ID entry) (r_RepoList (Rtask (tcp_api (out_service out)))) =
      user_U (ID entry) (r_RepoList (Rtask (tcp_api s))) + word_of_nat (length payload) \<and>
    user_D (ID entry) (r_RepoList (Rtask (tcp_api (out_service out)))) =
      user_D (ID entry) (r_RepoList (Rtask (tcp_api s))) + word_of_nat (length (contents (tgt_reader tgt)))"
proof -
  from handle_genuine [OF assms] obtain out w qs where
    "handleConnection env s conn = Some (Ok out)" "out_status out = ''OK''" "out_target out = Some (p, w)"
    "concat (wout w) = payload" "concat qs = contents (tgt_reader tgt)"
    "\<And>segs. concat segs = concat (wout (out_client out)) \<Longrightarrow>
       chunks_left (env_crypto env) (newChunkReader (env_pool env) (ConnReader segs EOF) (entry_Cipher entry)) = (qs, EOF)"
    "user_U (ID entry) (r_RepoList (Rtask (tcp_api (out_service out)))) =
      user_U (ID entry) (r_RepoList (Rtask (tcp_api s))) + word_of_nat (length payload)"
    "user_D (ID entry) (r_RepoList (Rtask (tcp_api (out_service out)))) =
      user_D (ID entry) (r_RepoList (Rtask (tcp_api s))) + word_of_nat (length (contents (tgt_reader tgt)))"
    by blast
  then show ?thesis by (metis fst_conv)
qed

text \<open>The session of the witnesses: one encrypted chunk with the address byte 1 and the payload 2, 3.\<close>

definition toy_session :: "aead \<Rightarrow> client_conn" where
  "toy_session A = toy_conn [wire A (make_bytes 16) [[1, 2, 3]]] EOF"

lemma toy_entry_simps [simp]:
  "ID toy_entry = ''u1''" "entry_Cipher toy_entry = toy_cipher" "entry_SaltGenerator toy_entry = RandomServerSaltGenerator"
  "cl_list toy_list = [7]" "cl_entry toy_list e = toy_entry"
  by (simp_all add: toy_entry_def MakeCipherEntry_def toy_list_def serverSaltMarkLen_def minSaltEntropy_def)

lemma toy_chunk: "list_all chunk_ok [[1, 2, 3]]"
  by (simp add: chunk_ok_def payloadSizeMask_def)

lemma toy_honest:
  assumes "NewAEAD toy_crypto toy_cipher (make_bytes 16) = Ok A"
  shows "honest_client toy_crypto toy_list (toy_session A) 7 (make_bytes 16) A [[1, 2, 3]]"
  using toy_chunk opens_wire(2) [OF toy_cipher_ok assms, of "[1, 2, 3]" "[]"] assms
  by (simp add: honest_client_def toy_session_def toy_conn_def)

lemma toy_address_of:
  assumes hc: "honest_client toy_crypto toy_list (toy_conn segs EOF) 7 salt A ps" and plain: "concat ps = 1 # rest"
  shows "fst (toy_ReadAddr (NewShadowsocksReader (readBufPool toy_specs) (replayed_reader (toy_conn segs EOF)) toy_cipher)) = Ok [1]"
proof -
  let ?conn = "toy_conn segs EOF"
  let ?c = "newChunkReader (readBufPool toy_specs) (replayed_reader ?conn) toy_cipher" and ?r = "conn_reader ?conn"
  note found = honest_client_found [OF toy_keys_ok hc]
  have lift: "lift_deadline (conn_later ?conn) (replayed_reader ?conn) = replayed_reader ?conn"
  proof -
    have "50 \<le> length (contents ?r)" "eof_chained ?r" using hc by (simp_all add: honest_client_def)
    then obtain r' where r': "ReadFull ?r 50 = (take 50 (contents ?r), None, r')"
      by (metis ReadFull_enough append_take_drop_id length_take min.absorb2)
    moreover have "lift_deadline (conn_later ?conn) ?r = ?r" by (simp add: toy_conn_def)
    ultimately have "lift_deadline (conn_later ?conn) r' = r'"
      using ReadFull_lift [OF r', of "conn_later ?conn"] by simp
    with r' show ?thesis by (simp add: replayed_reader_def)
  qed
  have chunks: "list_all chunk_ok ps" and A: "NewAEAD toy_crypto toy_cipher salt = Ok A" "length salt = 16"
    using hc by (simp_all add: honest_client_def)
  from chunks plain obtain p ps' where ps: "ps = (1 # p) # ps'"
    by (cases ps; cases "hd ps") (auto simp: chunk_ok_def)
  have "chunks_left toy_crypto ?c = (ps, EOF)"
    using found(2,3) A(2) unfolding lift by (intro chunks_left_wire [OF toy_cipher_ok A(1) _ chunks]) simp_all
  from ReadChunk_spec [OF newChunkReader_inv [OF toy_crypto_ok toy_specs toy_cipher_ok found(4)] this, of 0] ps
  show ?thesis by (auto simp: toy_ReadAddr_def conv_Read_def ensureLeftover_def NewShadowsocksReader_def)
qed

lemma toy_address:
  assumes "NewAEAD toy_crypto toy_cipher (make_bytes 16) = Ok A"
  shows "fst (toy_ReadAddr (NewShadowsocksReader (readBufPool toy_specs) (replayed_reader (toy_session A)) toy_cipher)) = Ok [1]"
  using toy_address_of [of _ "make_bytes 16" A "[[1, 2, 3]]" "[2, 3]"] toy_honest [OF assms] by (simp add: toy_session_def)

definition toy_target :: target_conn where
  "toy_target = \<lparr>tgt_reader = ConnReader [[70, 71]] EOF, tgt_writer = \<lparr>wout = [], wplan = []\<rparr>\<rparr>"

lemma toy_dial:
  "dialTarget (tcp_targetIPValidator toy_service) (fst (env_dial toy_env (env_addr_String toy_env [1])))
     (snd (env_dial toy_env (env_addr_String toy_env [1]))) = Inr ([8, 8, 8, 8], toy_target)"
proof -
  have "RequirePublicIP [8, 8, 8, 8] = None"
    by (simp add: RequirePublicIP_def IsGlobalUnicast_4 IsPrivate_4)
  then show ?thesis by (simp add: toy_env_def toy_service_def dialTarget_def toy_target_def)
qed

lemma toy_contract:
  "toy_ReadAddr ssr = (Ok a', ssr') \<Longrightarrow> \<exists>ns. conv_reads (\<lambda>x. ReadChunk toy_crypto 0 x) ssr ns = Some (a', ssr')"
  by (intro exI [of _ "[1]"]) (simp add: toy_ReadAddr_def)

lemma toy_target_ok: "good_target toy_target"
  by (simp add: good_target_def writes_all_def toy_target_def)

lemma toy_reply_salt:
  "GetSalt toy_crypto RandomServerSaltGenerator (env_entropy toy_env) (make_bytes (SaltSize toy_cipher)) = Ok (map (\<lambda>_. 9) [0..<16])"
  by (simp add: toy_env_def randomServerSaltGenerator_GetSalt_def)

lemma toy_env_simps:
  "env_crypto toy_env = toy_crypto" "env_pool toy_env = readBufPool toy_specs" "env_ReadAddr toy_env = toy_ReadAddr"
  "env_pick toy_env = (\<lambda>_. 0)" "tcp_ciphers toy_service = toy_list" "tcp_replayCache toy_service = None"
  "remoteIP (env_host_ip toy_env) (conn_remote (toy_conn segs e)) = []"
  by (simp_all add: toy_env_def toy_service_def toy_conn_def remoteIP_def)

theorem tcp_relay_correct_witness:
  "\<exists>A out w. handleConnection toy_env toy_service (toy_session A) = Some (Ok out) \<and> out_status out = ''OK'' \<and>
     out_target out = Some ([8, 8, 8, 8], w) \<and> concat (wout w) = [2, 3] \<and>
     user_U ''u1'' (r_RepoList (Rtask (tcp_api (out_service out)))) = 2 \<and>
     user_D ''u1'' (r_RepoList (Rtask (tcp_api (out_service out)))) = 2"
proof -
  obtain A where A: "NewAEAD toy_crypto toy_cipher (make_bytes 16) = Ok A"
    using toy_cipher_ok by (rule cipher_okE)
  let ?s = toy_service
  let ?entry = "cl_entry (MarkUsedByClientIP toy_list 7 []) 7"
  have env: "remoteIP (env_host_ip toy_env) (conn_remote (toy_session A)) = []"
    by (simp add: toy_session_def toy_env_simps)
  have entry: "ID ?entry = ''u1''" "entry_Cipher ?entry = toy_cipher"
    "entry_SaltGenerator ?entry = RandomServerSaltGenerator"
    by simp_all
  have rest: "wout (conn_writer (toy_session A)) = []" "writes_all (conn_writer (toy_session A))"
    "user_U ''u1'' (r_RepoList (Rtask (tcp_api ?s))) = 0" "user_D ''u1'' (r_RepoList (Rtask (tcp_api ?s))) = 0"
    "fst (Add None ''u1'' (make_bytes 16))" "\<not> IsServerSalt toy_crypto RandomServerSaltGenerator (make_bytes 16)"
    by (simp_all add: toy_session_def toy_conn_def writes_all_def Add_def randomServerSaltGenerator_IsServerSalt_def
        toy_service_def api_New_def user_U_def user_D_def)
  from tcp_relay_correct [of toy_env toy_specs ?s "toy_session A" 7 "make_bytes 16" A "[[1, 2, 3]]" ?entry "[1]" "[2, 3]"
      "[8, 8, 8, 8]" toy_target "map (\<lambda>_. 9) [0..<16]", unfolded env toy_env_simps entry, OF toy_crypto_ok toy_specs refl toy_keys_ok
      toy_honest [OF A] refl _ rest(6,5) _ toy_contract toy_address [OF A] toy_dial toy_target_ok rest(1,2) toy_reply_salt]
  obtain out w where "handleConnection toy_env ?s (toy_session A) = Some (Ok out)" "out_status out = ''OK''"
    "out_target out = Some ([8, 8, 8, 8], w)" "concat (wout w) = [2, 3]"
    "user_U ''u1'' (r_RepoList (Rtask (tcp_api (out_service out)))) = 2"
    "user_D ''u1'' (r_RepoList (Rtask (tcp_api (out_service out)))) = 2"
    unfolding rest(3,4) by (auto simp: toy_target_def)
  then show ?thesis by blast
qed

text \<open>C13: Replays are absorbed. A connection whose key is found is refused if its salt is one of the server's own
  (\<^verbatim>\<open>ERR_REPLAY_SERVER\<close>) or the replay cache knows it (\<^verbatim>\<open>ERR_REPLAY_CLIENT\<close>): the server writes nothing to the
  client, connects to no target, reads everything until the end or the deadline and records no traffic. A
  server salt is not added to the replay cache.\<close>

theorem replay_absorbed:
  assumes "findAccessKey (env_crypto env) (conn_reader conn) (remoteIP (env_host_ip env) (conn_remote conn)) (tcp_ciphers s) =
      Ok (\<lparr>ak_elt = Some e, ak_reader = rd, ak_salt = salt, ak_err = None, ak_id = i\<rparr>, cl')"
    and "eof_chained (conn_of rd)"
    and "IsServerSalt (env_crypto env) (entry_SaltGenerator (cl_entry cl' e)) salt \<or>
      \<not> fst (Add (tcp_replayCache s) (ID (cl_entry cl' e)) salt)"
  shows "\<exists>out. handleConnection env s conn = Some (Ok out) \<and>
     out_status out = (if IsServerSalt (env_crypto env) (entry_SaltGenerator (cl_entry cl' e)) salt
                       then ''ERR_REPLAY_SERVER'' else ''ERR_REPLAY_CLIENT'') \<and>
     out_client out = conn_writer conn \<and> out_target out = None \<and> contents (out_unread out) = [] \<and>
     tcp_api (out_service out) = tcp_api s \<and>
     tcp_replayCache (out_service out) =
       (if IsServerSalt (env_crypto env) (entry_SaltGenerator (cl_entry cl' e)) salt then tcp_replayCache s
        else snd (Add (tcp_replayCache s) (ID (cl_entry cl' e)) salt))"
  using assms(3) absorbProbe_spec [OF assms(2)]
  by (cases "Add (tcp_replayCache s) (ID (cl_entry cl' e)) salt")
    (auto simp: handleConnection_found [OF assms(1)])

lemma eof_chained_conn_of: "eof_chained r \<Longrightarrow> eof_chained (conn_of r)"
  by (induction r rule: conn_of.induct) simp_all

theorem replay_absorbed_witness:
  "\<exists>A out. handleConnection toy_env
       (toy_service\<lparr>tcp_replayCache := Some \<lparr>capacity = 10, active = {preHash ''u1'' (make_bytes 16)}, archive = {}\<rparr>\<rparr>)
       (toy_session A) = Some (Ok out) \<and>
     out_status out = ''ERR_REPLAY_CLIENT'' \<and> wout (out_client out) = [] \<and> out_target out = None"
proof -
  obtain A where A: "NewAEAD toy_crypto toy_cipher (make_bytes 16) = Ok A"
    using toy_cipher_ok by (rule cipher_okE)
  let ?s = "toy_service\<lparr>tcp_replayCache := Some \<lparr>capacity = 10, active = {preHash ''u1'' (make_bytes 16)}, archive = {}\<rparr>\<rparr>"
  note found = honest_client_found [OF toy_keys_ok toy_honest [OF A]]
  have "eof_chained (conn_of (replayed_reader (toy_session A)))"
    using found(4) by (rule eof_chained_conn_of)
  moreover have "findAccessKey (env_crypto toy_env) (conn_reader (toy_session A))
      (remoteIP (env_host_ip toy_env) (conn_remote (toy_session A))) (tcp_ciphers ?s) =
      Ok (\<lparr>ak_elt = Some 7, ak_reader = replayed_reader (toy_session A), ak_salt = make_bytes 16, ak_err = None,
           ak_id = ''u1''\<rparr>, MarkUsedByClientIP toy_list 7 [])"
    using found(1) [of "[]"] by (simp add: toy_env_def toy_service_def toy_session_def toy_conn_def remoteIP_def)
  moreover have "\<not> fst (Add (tcp_replayCache ?s) (ID (cl_entry (MarkUsedByClientIP toy_list 7 []) 7)) (make_bytes 16))"
    "\<not> IsServerSalt (env_crypto toy_env) (entry_SaltGenerator (cl_entry (MarkUsedByClientIP toy_list 7 []) 7)) (make_bytes 16)"
    by (simp_all add: Add_def randomServerSaltGenerator_IsServerSalt_def)
  moreover have "wout (conn_writer (toy_session A)) = []" by (simp add: toy_session_def toy_conn_def)
  ultimately show ?thesis using replay_absorbed [of toy_env "toy_session A" ?s] by fastforce
qed

text \<open>Setting the validator replaces the one that decides, whichever was set before.\<close>

lemma SetTargetIPValidator_decides:
  assumes "handleConnection env (tcp_SetTargetIPValidator s v) conn = Some (Ok out)" and "out_target out = Some (p, w)"
  shows "v p = None"
  using handleConnection_target [of env "tcp_SetTargetIPValidator s v" conn] assms
  by (simp add: tcp_SetTargetIPValidator_def)

text \<open>C14: Only permitted targets are reached. Whatever the client asks for and whatever the name resolves to, the
  target a connection is relayed to has an address that the service's validator accepts; with the default
  validator it is a public address.\<close>

theorem target_permitted:
  "case handleConnection env s conn of
     Some (Ok out) \<Rightarrow> (case out_target out of Some (p, w) \<Rightarrow> tcp_targetIPValidator s p = None | None \<Rightarrow> True)
   | _ \<Rightarrow> True"
  by (simp add: handleConnection_target split: option.split result.split prod.split)

end
