(* ===== verification/Service_UDP.thy ===== *)
theory Service_UDP
  imports Service_CipherList Api_Traffic Metrics SS_Packet
begin

text \<open>
  Model of \<^verbatim>\<open>service/udp.go\<close>: finding the key of a packet, the connections and the table of the UDP NAT, the handling
  of one packet from a client (one iteration of \<^verbatim>\<open>Serve\<close>) and of one packet from a target (one iteration of
  \<^verbatim>\<open>timedCopy\<close>).

  A \<^verbatim>\<open>net.UDPAddr\<close> is its IP, port and zone; the string of an address is the argument \<open>ue_String\<close>. A \<^verbatim>\<open>*natconn\<close> is a
  number that indexes the store \<open>udp_conns\<close>, because the table, the serving loop and the connection's goroutine
  share it. Times are integers in nanoseconds, the zero \<^verbatim>\<open>time.Time\<close> is \<open>None\<close>. The parsers of package \<^verbatim>\<open>socks\<close>
  (a third-party module), name resolution, opening sockets, what a write to a socket returns, randomness and
  the clock are parameters, collected in \<open>udp_env\<close>.
\<close>

section \<open>Addresses and keys\<close>

record UDPAddr =
  udp_IP :: ip
  udp_Port :: int
  udp_Zone :: string

definition serverUDPBufferSize :: nat where
  "serverUDPBufferSize = 64 * 1024"

fun findKeyUDP_loop ::
  "crypto \<Rightarrow> (nat \<Rightarrow> CipherEntry) \<Rightarrow> nat \<Rightarrow> bytes \<Rightarrow> nat list \<Rightarrow> (nat \<times> bytes) option result" where
  "findKeyUDP_loop cr entries dst src [] = Ok None"
| "findKeyUDP_loop cr entries dst src (e # es) =
     (case Unpack cr (Some dst) src (entry_Cipher (entries e)) of
        Fail err \<Rightarrow> findKeyUDP_loop cr entries dst src es
      | Ok buf \<Rightarrow> Ok (Some (e, buf))
      | Panic m \<Rightarrow> Panic m)"

text \<open>\<open>dst\<close> is the capacity of the buffer that receives the plaintext.\<close>

definition findAccessKeyUDP ::
  "crypto \<Rightarrow> ip \<Rightarrow> nat \<Rightarrow> bytes \<Rightarrow> cipherList \<Rightarrow> (bytes \<times> string \<times> Cipher) result \<times> cipherList" where
  "findAccessKeyUDP cr clientIP dst src cl =
     (case findKeyUDP_loop cr (cl_entry cl) dst src (SnapshotForClientIP cl clientIP) of
        Ok (Some (e, buf)) \<Rightarrow>
          (Ok (buf, ID (cl_entry cl e), entry_Cipher (cl_entry cl e)), MarkUsedByClientIP cl e clientIP)
      | Ok None \<Rightarrow> (Fail (ErrorNew ''could not find valid cipher''), cl)
      | Fail err \<Rightarrow> (Fail err, cl)
      | Panic m \<Rightarrow> (Panic m, cl))"

section \<open>NAT connections\<close>

text \<open>The port of \<^verbatim>\<open>net.SplitHostPort(addr.String())\<close> is the decimal port of the address.\<close>

definition isDNS :: "UDPAddr \<Rightarrow> bool" where
  "isDNS a \<longleftrightarrow> Itoa (udp_Port a) = ''53''"

text \<open>\<open>nc_deadline\<close> is the read deadline of the socket, \<open>nc_fastClose\<close> whether the \<^verbatim>\<open>sync.Once\<close> has run, and
  \<open>nc_sent\<close> the packets the socket has sent.\<close>

record natconn =
  nc_cipher :: Cipher
  nc_keyID :: string
  nc_clientLocation :: string
  nc_defaultTimeout :: int
  nc_readDeadline :: "int option"
  nc_fastClose :: bool
  nc_deadline :: "int option"
  nc_sent :: "(UDPAddr \<times> bytes) list"

definition second :: int where
  "second = 1000000000"

definition onWrite :: "int \<Rightarrow> natconn \<Rightarrow> UDPAddr \<Rightarrow> natconn" where
  "onWrite now c addr =
     (let isFirstWrite = (nc_readDeadline c = None);
          c1 = (if \<not> isDNS addr \<or> \<not> isFirstWrite then c\<lparr>nc_fastClose := True\<rparr> else c);
          timeout = (if isDNS addr then 17 * second else nc_defaultTimeout c);
          newDeadline = now + timeout
      in if (case nc_readDeadline c of None \<Rightarrow> True | Some d \<Rightarrow> newDeadline > d)
         then c1\<lparr>nc_readDeadline := Some newDeadline, nc_deadline := Some newDeadline\<rparr> else c1)"

definition onRead :: "int \<Rightarrow> natconn \<Rightarrow> UDPAddr \<Rightarrow> natconn" where
  "onRead now c addr =
     (if nc_fastClose c then c
      else let c1 = c\<lparr>nc_fastClose := True\<rparr> in if isDNS addr then c1\<lparr>nc_deadline := Some now\<rparr> else c1)"

text \<open>\<open>res\<close> is what the socket's \<^verbatim>\<open>WriteTo\<close> returns: the number of bytes written, or an error.\<close>

definition nat_WriteTo :: "int \<Rightarrow> natconn \<Rightarrow> bytes \<Rightarrow> UDPAddr \<Rightarrow> goerror + nat \<Rightarrow> natconn \<times> (goerror + nat)" where
  "nat_WriteTo now c buf dst res =
     (let c1 = onWrite now c dst
      in (case res of Inr n \<Rightarrow> c1\<lparr>nc_sent := nc_sent c1 @ [(dst, buf)]\<rparr> | Inl err \<Rightarrow> c1, res))"

text \<open>\<open>res\<close> is what the socket's \<^verbatim>\<open>ReadFrom\<close> returns.\<close>

definition nat_ReadFrom :: "int \<Rightarrow> natconn \<Rightarrow> goerror + (bytes \<times> UDPAddr) \<Rightarrow> natconn \<times> (goerror + (bytes \<times> UDPAddr))" where
  "nat_ReadFrom now c res = (case res of Inr (d, a) \<Rightarrow> onRead now c a | Inl err \<Rightarrow> c, res)"

section \<open>The service and its NAT table\<close>

text \<open>The table \<open>udp_keyConn\<close> with its store, the goroutines of its entries (each with the entry's key), and the
  \<^verbatim>\<open>WaitGroup\<close> \<open>udp_running\<close>.\<close>

record udpService =
  udp_clientConn :: bool
  udp_stopped :: bool
  udp_natTimeout :: int
  udp_ciphers :: cipherList
  udp_m :: shadowsocksMetrics
  udp_running :: int
  udp_targetIPValidator :: TargetIPValidator
  udp_api :: APIClient
  udp_keyConn :: "string \<rightharpoonup> nat"
  udp_conns :: "nat \<Rightarrow> natconn"
  udp_fresh :: nat
  udp_gors :: "nat \<rightharpoonup> string"

definition NewUDPService :: "int \<Rightarrow> cipherList \<Rightarrow> shadowsocksMetrics \<Rightarrow> APIClient \<Rightarrow> (nat \<Rightarrow> natconn) \<Rightarrow> udpService" where
  "NewUDPService natTimeout ciphers m api2 store =
     \<lparr>udp_clientConn = False, udp_stopped = False, udp_natTimeout = natTimeout, udp_ciphers = ciphers, udp_m = m,
      udp_running = 0, udp_targetIPValidator = RequirePublicIP, udp_api = api2, udp_keyConn = Map.empty,
      udp_conns = store, udp_fresh = 0, udp_gors = Map.empty\<rparr>"

definition udp_SetTargetIPValidator :: "udpService \<Rightarrow> TargetIPValidator \<Rightarrow> udpService" where
  "udp_SetTargetIPValidator s targetIPValidator = s\<lparr>udp_targetIPValidator := targetIPValidator\<rparr>"

text \<open>A new NAT table shares the timeout, the metrics and the \<^verbatim>\<open>WaitGroup\<close> of the service and is empty.\<close>

definition newNATmap :: "udpService \<Rightarrow> udpService" where
  "newNATmap s = s\<lparr>udp_keyConn := Map.empty\<rparr>"

definition nat_Get :: "udpService \<Rightarrow> string \<Rightarrow> nat option" where
  "nat_Get s key = udp_keyConn s key"

text \<open>\<open>set\<close> allocates the new entry.\<close>

definition nat_set :: "udpService \<Rightarrow> string \<Rightarrow> Cipher \<Rightarrow> string \<Rightarrow> string \<Rightarrow> nat \<times> udpService" where
  "nat_set s key c keyID clientLocation =
     (let p = udp_fresh s;
          entry = \<lparr>nc_cipher = c, nc_keyID = keyID, nc_clientLocation = clientLocation,
                   nc_defaultTimeout = udp_natTimeout s, nc_readDeadline = None, nc_fastClose = False,
                   nc_deadline = None, nc_sent = []\<rparr>
      in (p, s\<lparr>udp_keyConn := (udp_keyConn s)(key \<mapsto> p), udp_conns := (udp_conns s)(p := entry),
               udp_fresh := p + 1\<rparr>))"

definition nat_del :: "udpService \<Rightarrow> string \<Rightarrow> nat option \<times> udpService" where
  "nat_del s key =
     (case udp_keyConn s key of
        Some p \<Rightarrow> (Some p, s\<lparr>udp_keyConn := (udp_keyConn s)(key := None)\<rparr>)
      | None \<Rightarrow> (None, s))"

definition nat_Add :: "udpService \<Rightarrow> string \<Rightarrow> Cipher \<Rightarrow> string \<Rightarrow> string \<Rightarrow> nat \<times> udpService" where
  "nat_Add s key c clientLocation keyID =
     (case nat_set s key c keyID clientLocation of
        (p, s1) \<Rightarrow>
          (p, s1\<lparr>udp_m := AddUDPNatEntry (udp_m s1), udp_running := udp_running s1 + 1,
                 udp_gors := (udp_gors s1)(p \<mapsto> key)\<rparr>))"

text \<open>The end of an entry's goroutine, after \<^verbatim>\<open>timedCopy\<close> has returned: which connection it closes, and the service.\<close>

definition nat_finish :: "udpService \<Rightarrow> nat \<Rightarrow> string \<Rightarrow> nat option \<times> udpService" where
  "nat_finish s p key =
     (case nat_del (s\<lparr>udp_m := RemoveUDPNatEntry (udp_m s)\<rparr>) key of
        (pc, s1) \<Rightarrow> (pc, s1\<lparr>udp_running := udp_running s1 - 1, udp_gors := (udp_gors s1)(p := None)\<rparr>))"

definition nat_Close :: "int \<Rightarrow> udpService \<Rightarrow> udpService" where
  "nat_Close now s =
     s\<lparr>udp_conns := (\<lambda>p. if p \<in> ran (udp_keyConn s) then (udp_conns s p)\<lparr>nc_deadline := Some now\<rparr> else udp_conns s p)\<rparr>"

section \<open>Packets from clients\<close>

record udp_env =
  ue_crypto :: crypto
  ue_String :: "UDPAddr \<Rightarrow> string"
  ue_SplitAddr :: "bytes \<Rightarrow> bytes option"
  ue_Addr_String :: "bytes \<Rightarrow> string"
  ue_ParseAddr :: "string \<Rightarrow> bytes option"
  ue_ResolveUDPAddr :: "string \<Rightarrow> goerror + UDPAddr"
  ue_ListenPacket :: "goerror option"
  ue_WriteTo :: "bytes \<Rightarrow> UDPAddr \<Rightarrow> goerror + nat"
  ue_country :: "(ip \<Rightarrow> string option result) option"
  ue_host_ip :: "string \<Rightarrow> ip result"
  ue_entropy :: entropy
  ue_now :: int
  ue_unix :: "64 word"
  ue_timeToCipher :: int

definition validatePacket ::
  "udp_env \<Rightarrow> TargetIPValidator \<Rightarrow> bytes \<Rightarrow> ConnectionError + (bytes \<times> UDPAddr)" where
  "validatePacket env validator textData =
     (case ue_SplitAddr env textData of
        None \<Rightarrow> Inl (NewConnectionError ''ERR_READ_ADDRESS'' (Msg ''Failed to get target address'') None)
      | Some tgtAddr \<Rightarrow>
          (case ue_ResolveUDPAddr env (ue_Addr_String env tgtAddr) of
             Inr tgtUDPAddr \<Rightarrow>
               (case validator (udp_IP tgtUDPAddr) of
                  Some err \<Rightarrow> Inl err
                | None \<Rightarrow> Inr (drop (length tgtAddr) textData, tgtUDPAddr))
           | Inl err \<Rightarrow> Inl (NewConnectionError ''ERR_RESOLVE_ADDRESS'' (Msg ''Failed to resolve target address'') (Some err))))"

text \<open>The variables of an iteration that its deferred report reads.\<close>

record udp_forward =
  uf_clientLocation :: string
  uf_keyID :: string
  uf_proxyTargetBytes :: nat
  uf_tgtUDPAddr :: "UDPAddr option"
  uf_error :: "ConnectionError option"

definition no_forward :: udp_forward where
  "no_forward = \<lparr>uf_clientLocation = '''', uf_keyID = '''', uf_proxyTargetBytes = 0, uf_tgtUDPAddr = None, uf_error = None\<rparr>"

text \<open>Once the connection \<open>p\<close> and the target are known: write the payload.\<close>

definition forward_payload :: "udp_env \<Rightarrow> udpService \<Rightarrow> nat \<Rightarrow> udp_forward \<Rightarrow> bytes \<Rightarrow> UDPAddr \<Rightarrow> udp_forward \<times> udpService" where
  "forward_payload env s p v payload tgt =
     (case nat_WriteTo (ue_now env) (udp_conns s p) payload tgt (ue_WriteTo env payload tgt) of
        (c', res) \<Rightarrow>
          (let s1 = s\<lparr>udp_conns := (udp_conns s)(p := c')\<rparr>; v1 = v\<lparr>uf_tgtUDPAddr := Some tgt\<rparr>
           in case res of
                Inr n \<Rightarrow> (v1\<lparr>uf_proxyTargetBytes := n\<rparr>, s1)
              | Inl err \<Rightarrow> (v1\<lparr>uf_error := Some (NewConnectionError ''ERR_WRITE'' (Msg ''Failed to write to target'') (Some err))\<rparr>, s1)))"

text \<open>The iteration up to its return, on a packet \<open>cipherData\<close> from \<open>clientAddr\<close>. A panic of decryption leaves the
  variables as they are at that point.\<close>

definition forward_new :: "udp_env \<Rightarrow> udpService \<Rightarrow> bytes \<Rightarrow> UDPAddr \<Rightarrow> udp_forward \<times> udpService" where
  "forward_new env s cipherData clientAddr =
     (let v = no_forward\<lparr>uf_clientLocation := fst (GetLocation (ue_country env) (ue_host_ip env) (ue_String env clientAddr))\<rparr>
      in case findAccessKeyUDP (ue_crypto env) (udp_IP clientAddr) serverUDPBufferSize cipherData (udp_ciphers s) of
           (Panic m, cl) \<Rightarrow> (v, s\<lparr>udp_ciphers := cl\<rparr>)
         | (Fail err, cl) \<Rightarrow>
             (v\<lparr>uf_error := Some (NewConnectionError ''ERR_CIPHER'' (Msg ''Failed to unpack initial packet'') (Some err))\<rparr>,
              s\<lparr>udp_ciphers := cl\<rparr>)
         | (Ok (textData, keyID, c), cl) \<Rightarrow>
             (let s1 = s\<lparr>udp_ciphers := cl\<rparr>; v1 = v\<lparr>uf_keyID := keyID\<rparr>
              in case validatePacket env (udp_targetIPValidator s) textData of
                   Inl err \<Rightarrow> (v1\<lparr>uf_error := Some err\<rparr>, s1)
                 | Inr (payload, tgt) \<Rightarrow>
                     (case ue_ListenPacket env of
                        Some err \<Rightarrow>
                          (v1\<lparr>uf_tgtUDPAddr := Some tgt,
                              uf_error := Some (NewConnectionError ''ERR_CREATE_SOCKET'' (Msg ''Failed to create UDP socket'') (Some err))\<rparr>, s1)
                      | None \<Rightarrow>
                          (case nat_Add s1 (ue_String env clientAddr) c (uf_clientLocation v) keyID of
                             (p, s2) \<Rightarrow> forward_payload env s2 p v1 payload tgt))))"

definition forward_known :: "udp_env \<Rightarrow> udpService \<Rightarrow> nat \<Rightarrow> bytes \<Rightarrow> udp_forward \<times> udpService" where
  "forward_known env s p cipherData =
     (let targetConn = udp_conns s p; v = no_forward\<lparr>uf_clientLocation := nc_clientLocation targetConn\<rparr>
      in case Unpack (ue_crypto env) None cipherData (nc_cipher targetConn) of
           Panic m \<Rightarrow> (v, s)
         | Fail err \<Rightarrow>
             (v\<lparr>uf_error := Some (NewConnectionError ''ERR_CIPHER'' (Msg ''Failed to unpack data from client'') (Some err))\<rparr>, s)
         | Ok textData \<Rightarrow>
             (let v1 = v\<lparr>uf_keyID := nc_keyID targetConn\<rparr>
              in case validatePacket env (udp_targetIPValidator s) textData of
                   Inl err \<Rightarrow> (v1\<lparr>uf_error := Some err\<rparr>, s)
                 | Inr (payload, tgt) \<Rightarrow> forward_payload env s p v1 payload tgt))"

text \<open>\<^verbatim>\<open>(*net.UDPAddr)(nil).String()\<close> is \<^verbatim>\<open><nil>\<close>.\<close>

definition udp_addr_String :: "udp_env \<Rightarrow> UDPAddr option \<Rightarrow> string" where
  "udp_addr_String env a = (case a of Some t \<Rightarrow> ue_String env t | None \<Rightarrow> ''<nil>'')"

text \<open>The deferred report. \<open>clientAddr\<close> is a nil interface after a failed read, and calling its \<open>String\<close> panics.\<close>

definition report_packet :: "udp_env \<Rightarrow> udpService \<Rightarrow> nat \<Rightarrow> UDPAddr option \<Rightarrow> udp_forward \<Rightarrow> udpService result" where
  "report_packet env s clientProxyBytes clientAddr v =
     (let status = (case uf_error v of Some e \<Rightarrow> Status e | None \<Rightarrow> ''OK'')
      in case clientAddr of
           None \<Rightarrow> Panic ''invalid memory address or nil pointer dereference''
         | Some a \<Rightarrow>
             (let api1 = AddWwwRepo (udp_api s)
                    \<lparr>UNID = uf_keyID v, Host = udp_addr_String env (uf_tgtUDPAddr v), Uip = ue_String env a,
                     www_Date = ue_unix env, IsUdp = 1, www_Status = 1\<rparr>;
                  api2 = AddRepo api1 \<lparr>UID = uf_keyID v, ut_U = word_of_nat clientProxyBytes,
                     ut_D = word_of_nat (uf_proxyTargetBytes v)\<rparr>
              in Ok (s\<lparr>udp_api := api2,
                       udp_m := AddUDPPacketFromClient (udp_m s) (uf_clientLocation v) (uf_keyID v) status
                         (int clientProxyBytes) (int (uf_proxyTargetBytes v)) (ue_timeToCipher env)\<rparr>)))"

text \<open>One iteration of \<open>Serve\<close> on what \<^verbatim>\<open>clientConn.ReadFrom\<close> returns: whether the loop ends, and the service. A
  panic of the report is recovered.\<close>

definition serve_packet :: "udp_env \<Rightarrow> udpService \<Rightarrow> goerror + (bytes \<times> UDPAddr) \<Rightarrow> bool \<times> udpService" where
  "serve_packet env s r =
     (case r of
        Inl err \<Rightarrow>
          if udp_stopped s then (True, s)
          else (False,
            case report_packet env s 0 None
                   (no_forward\<lparr>uf_error := Some (NewConnectionError ''ERR_READ'' (Msg ''Failed to read from client'') (Some err))\<rparr>) of
              Ok s' \<Rightarrow> s' | _ \<Rightarrow> s)
      | Inr (data, clientAddr) \<Rightarrow>
          (let cipherData = take serverUDPBufferSize data;
               (v, s1) = (case nat_Get s (ue_String env clientAddr) of
                            None \<Rightarrow> forward_new env s cipherData clientAddr
                          | Some p \<Rightarrow> forward_known env s p cipherData)
           in (False,
               case report_packet env s1 (length cipherData) (Some clientAddr) v of Ok s' \<Rightarrow> s' | _ \<Rightarrow> s1)))"

section \<open>Packets from targets\<close>

definition maxAddrLen :: "(string \<Rightarrow> bytes option) \<Rightarrow> nat" where
  "maxAddrLen ParseAddr = (case ParseAddr ''[2001:db8::1]:12345'' of Some a \<Rightarrow> length a | None \<Rightarrow> 0)"

text \<open>The outcome of an iteration of \<open>timedCopy\<close>: the read timed out, or a packet was handled with its status, the
  number of bytes of its body, the number written to the client, and the packet handed to the client's
  socket, if any.\<close>

datatype copied = Expired | Copied string nat nat "bytes option"

text \<open>From the body in the buffer at \<open>bodyStart\<close> to the write to the client: it returns the outcome and the buffer.
  Encryption happens inside the buffer; \<open>write\<close> is what writing to the client returns. A slice with a negative
  bound is a panic, which nothing recovers.\<close>

definition timedCopy_pack ::
  "udp_env \<Rightarrow> (bytes \<Rightarrow> goerror + nat) \<Rightarrow> Cipher \<Rightarrow> bytes \<Rightarrow> bytes \<Rightarrow> UDPAddr \<Rightarrow> (copied \<times> bytes) result" where
  "timedCopy_pack env write c pkt body raddr =
     (let saltSize = SaltSize c;
          bodyStart = saltSize + maxAddrLen (ue_ParseAddr env);
          srcAddr = (case ue_ParseAddr env (ue_String env raddr) of Some a \<Rightarrow> a | None \<Rightarrow> []);
          bodyLen = length body
      in if bodyStart < length srcAddr \<or> bodyStart - length srcAddr < saltSize
         then Panic ''slice bounds out of range''
         else
           (let addrStart = bodyStart - length srcAddr;
                pkt2 = blit (blit pkt bodyStart body) addrStart srcAddr;
                plaintextBuf = subslice pkt2 addrStart (bodyStart + bodyLen);
                saltStart = addrStart - saltSize
            in case Pack (ue_crypto env) (ue_entropy env) (drop saltStart pkt2) plaintextBuf c of
                 Panic m \<Rightarrow> Panic m
               | Fail err \<Rightarrow> Ok (Copied ''ERR_PACK'' bodyLen 0 None, pkt2)
               | Ok buf \<Rightarrow>
                   (let pkt3 = blit pkt2 saltStart buf
                    in case write buf of
                         Inr n \<Rightarrow> Ok (Copied ''OK'' bodyLen n (Some buf), pkt3)
                       | Inl err \<Rightarrow> Ok (Copied ''ERR_WRITE'' bodyLen 0 (Some buf), pkt3))))"

text \<open>One iteration over the buffer \<open>pkt\<close>: the outcome, the connection, and the buffer. The read fills the buffer from
  \<open>bodyStart\<close> and drops what does not fit.\<close>

definition timedCopy_packet ::
  "udp_env \<Rightarrow> (bytes \<Rightarrow> goerror + nat) \<Rightarrow> natconn \<Rightarrow> bytes \<Rightarrow> goerror + (bytes \<times> UDPAddr) \<Rightarrow>
     (copied \<times> natconn \<times> bytes) result" where
  "timedCopy_packet env write targetConn pkt r =
     (let bodyStart = SaltSize (nc_cipher targetConn) + maxAddrLen (ue_ParseAddr env)
      in if length pkt < bodyStart then Panic ''slice bounds out of range''
         else case nat_ReadFrom (ue_now env) targetConn
             (case r of Inr (d, a) \<Rightarrow> Inr (take (length pkt - bodyStart) d, a) | Inl err \<Rightarrow> Inl err) of
           (c1, Inl (NetError True)) \<Rightarrow> Ok (Expired, c1, pkt)
         | (c1, Inl err) \<Rightarrow> Ok (Copied ''ERR_READ'' 0 0 None, c1, pkt)
         | (c1, Inr (body, raddr)) \<Rightarrow>
             bind_result (timedCopy_pack env write (nc_cipher targetConn) pkt body raddr)
               (\<lambda>(outcome, pkt'). Ok (outcome, c1, pkt')))"

text \<open>The iteration with its report to the metrics, for the goroutine of connection \<open>p\<close> with the key ID it was started
  with.\<close>

definition timedCopy_step ::
  "udp_env \<Rightarrow> (bytes \<Rightarrow> goerror + nat) \<Rightarrow> udpService \<Rightarrow> nat \<Rightarrow> bytes \<Rightarrow> goerror + (bytes \<times> UDPAddr) \<Rightarrow>
     (bool \<times> udpService \<times> bytes) result" where
  "timedCopy_step env write s p pkt r =
     (let c = udp_conns s p in
      bind_result (timedCopy_packet env write c pkt r) (\<lambda>(outcome, c', pkt').
        let s1 = s\<lparr>udp_conns := (udp_conns s)(p := c')\<rparr> in
        case outcome of
          Expired \<Rightarrow> Ok (True, s1, pkt')
        | Copied status bodyLen n sent \<Rightarrow>
            Ok (False, s1\<lparr>udp_m := AddUDPPacketFromTarget (udp_m s1) (nc_clientLocation c) (nc_keyID c) status
                  (int bodyLen) (int n)\<rparr>, pkt')))"

text \<open>\<open>timedCopy\<close> over what the socket returns, read by read, each with the environment it happens in and the answer of
  the client's socket: whether it has returned after these reads, the service and the buffer.\<close>

fun timedCopy_loop ::
  "(udp_env \<times> (bytes \<Rightarrow> goerror + nat) \<times> (goerror + (bytes \<times> UDPAddr))) list \<Rightarrow> udpService \<Rightarrow> nat \<Rightarrow> bytes \<Rightarrow>
     (bool \<times> udpService \<times> bytes) result" where
  "timedCopy_loop [] s p pkt = Ok (False, s, pkt)"
| "timedCopy_loop ((env, write, r) # rs) s p pkt =
     bind_result (timedCopy_step env write s p pkt r) (\<lambda>(expired, s', pkt').
       if expired then Ok (True, s', pkt') else timedCopy_loop rs s' p pkt')"

definition timedCopy ::
  "(udp_env \<times> (bytes \<Rightarrow> goerror + nat) \<times> (goerror + (bytes \<times> UDPAddr))) list \<Rightarrow> udpService \<Rightarrow> nat \<Rightarrow>
     (bool \<times> udpService \<times> bytes) result" where
  "timedCopy rs s p = timedCopy_loop rs s p (make_bytes serverUDPBufferSize)"

section \<open>Lemmas\<close>

subsection \<open>Decimal ports\<close>

definition dec_val :: "string \<Rightarrow> nat" where
  "dec_val ds = foldl (\<lambda>n c. 10 * n + (of_char c - 48)) 0 ds"

lemma dec_foldl: "foldl (\<lambda>n c. 10 * n + (of_char c - 48)) m ds = m * 10 ^ length ds + dec_val ds"
proof (induction ds arbitrary: m)
  case (Cons d ds)
  have "dec_val (d # ds) = (of_char d - 48) * 10 ^ length ds + dec_val ds"
    using Cons [of "of_char d - 48"] by (simp add: dec_val_def)
  with Cons [of "10 * m + (of_char d - 48)"] show ?case by (simp add: algebra_simps)
qed (simp add: dec_val_def)

lemma dec_val_digit: "n < 10 \<Longrightarrow> dec_val (char_of (48 + n) # ds) = n * 10 ^ length ds + dec_val ds"
  using dec_foldl [of n ds] by (simp add: dec_val_def of_char_of)

lemma dec_val_itoa: "dec_val (itoa_loop n acc) = n * 10 ^ length acc + dec_val acc"
proof (induction n acc rule: itoa_loop.induct)
  case (1 n acc)
  let ?acc = "char_of (48 + n mod 10) # acc"
  show ?case
  proof (cases "n < 10")
    case True
    then show ?thesis by (simp add: itoa_loop.simps [of n] dec_val_digit)
  next
    case False
    have n: "n = 10 * (n div 10) + n mod 10" by simp
    from 1 [OF refl False] have "dec_val (itoa_loop n acc) = (n div 10) * 10 ^ Suc (length acc) + dec_val ?acc"
      using False by (simp add: itoa_loop.simps [of n] Let_def)
    also have "\<dots> = (10 * (n div 10)) * 10 ^ length acc + (n mod 10) * 10 ^ length acc + dec_val acc"
      by (simp add: dec_val_digit)
    also have "\<dots> = n * 10 ^ length acc + dec_val acc"
      using n by (metis add_mult_distrib)
    finally show ?thesis .
  qed
qed

lemma isDNS_iff: "isDNS a \<longleftrightarrow> udp_Port a = 53"
proof
  assume dns: "isDNS a"
  then have pos: "0 \<le> udp_Port a" by (auto simp: isDNS_def Itoa_def split: if_splits)
  have "dec_val (itoa_loop (nat (udp_Port a)) []) = dec_val ''53''"
    using dns pos by (simp add: isDNS_def Itoa_def del: itoa_loop.simps)
  then have "nat (udp_Port a) = dec_val ''53''" unfolding dec_val_itoa by (simp add: dec_val_def)
  then have "nat (udp_Port a) = 53" by (simp add: dec_val_def)
  with pos show "udp_Port a = 53" by simp
next
  assume "udp_Port a = 53"
  then show "isDNS a" unfolding isDNS_def by simp code_simp
qed

subsection \<open>Finding the key\<close>

definition unpacks :: "crypto \<Rightarrow> nat \<Rightarrow> bytes \<Rightarrow> Cipher \<Rightarrow> bool" where
  "unpacks cr dst src c \<longleftrightarrow> (case Unpack cr (Some dst) src c of Ok _ \<Rightarrow> True | _ \<Rightarrow> False)"

lemma findKeyUDP_find:
  assumes "\<forall>e \<in> set es. cipher_ok cr (entry_Cipher (entries e))"
  shows "findKeyUDP_loop cr entries dst src es =
    (case List.find (\<lambda>e. unpacks cr dst src (entry_Cipher (entries e))) es of
       None \<Rightarrow> Ok None
     | Some e \<Rightarrow> bind_result (Unpack cr (Some dst) src (entry_Cipher (entries e))) (\<lambda>buf. Ok (Some (e, buf))))"
  using assms
  by (induction es) (auto simp: unpacks_def Unpack_no_panic split: result.splits)

lemma findAccessKeyUDP_finds:
  assumes keys: "keys_ok cr cl" and e: "e \<in> set (cl_list cl)"
    and buf: "Unpack cr (Some dst) src (entry_Cipher (cl_entry cl e)) = Ok buf"
    and only: "\<And>e'. e' \<in> set (cl_list cl) \<Longrightarrow> unpacks cr dst src (entry_Cipher (cl_entry cl e')) \<Longrightarrow> e' = e"
  shows "findAccessKeyUDP cr p dst src cl =
    (Ok (buf, ID (cl_entry cl e), entry_Cipher (cl_entry cl e)), MarkUsedByClientIP cl e p)"
proof -
  have "\<forall>e \<in> set (SnapshotForClientIP cl p). cipher_ok cr (entry_Cipher (cl_entry cl e))"
    using keys port_ciphers.snapshot_set [of cl p] by (simp add: keys_ok_def)
  moreover have "List.find (\<lambda>e. unpacks cr dst src (entry_Cipher (cl_entry cl e))) (SnapshotForClientIP cl p) = Some e"
  proof (rule port_ciphers.search_unique)
    show "unpacks cr dst src (entry_Cipher (cl_entry cl e))" using buf by (simp add: unpacks_def)
  qed (use e only in simp_all)
  ultimately show ?thesis using buf by (simp add: findAccessKeyUDP_def findKeyUDP_find)
qed

lemma findAccessKeyUDP_none:
  assumes keys: "keys_ok cr cl"
    and none: "\<And>e. e \<in> set (cl_list cl) \<Longrightarrow> \<not> unpacks cr dst src (entry_Cipher (cl_entry cl e))"
  shows "findAccessKeyUDP cr p dst src cl = (Fail (ErrorNew ''could not find valid cipher''), cl)"
proof -
  have "\<forall>e \<in> set (SnapshotForClientIP cl p). cipher_ok cr (entry_Cipher (cl_entry cl e))"
    using keys port_ciphers.snapshot_set [of cl p] by (simp add: keys_ok_def)
  moreover have "List.find (\<lambda>e. unpacks cr dst src (entry_Cipher (cl_entry cl e))) (SnapshotForClientIP cl p) = None"
    unfolding port_ciphers.search_complete using none by simp
  ultimately show ?thesis by (simp add: findAccessKeyUDP_def findKeyUDP_find)
qed

subsection \<open>One packet from a client\<close>

lemma validatePacket_ok:
  assumes "ue_SplitAddr env (a @ payload) = Some a" and "ue_ResolveUDPAddr env (ue_Addr_String env a) = Inr tgt"
    and "validator (udp_IP tgt) = None"
  shows "validatePacket env validator (a @ payload) = Inr (payload, tgt)"
  using assms by (simp add: validatePacket_def)

lemma onWrite_keeps [simp]:
  "nc_sent (onWrite now c a) = nc_sent c" "nc_cipher (onWrite now c a) = nc_cipher c"
  "nc_keyID (onWrite now c a) = nc_keyID c" "nc_clientLocation (onWrite now c a) = nc_clientLocation c"
  by (simp_all add: onWrite_def Let_def)

lemma forward_payload_ok:
  assumes "ue_WriteTo env payload tgt = Inr n"
  shows "forward_payload env s p v payload tgt =
    (v\<lparr>uf_tgtUDPAddr := Some tgt, uf_proxyTargetBytes := n\<rparr>,
     s\<lparr>udp_conns := (udp_conns s)(p := (onWrite (ue_now env) (udp_conns s p) tgt)
        \<lparr>nc_sent := nc_sent (udp_conns s p) @ [(tgt, payload)]\<rparr>)\<rparr>)"
  using assms by (simp add: forward_payload_def nat_WriteTo_def Let_def)

text \<open>The traffic that the report of a packet adds.\<close>

lemma report_packet_user:
  assumes "report_packet env s n (Some a) v = Ok s'" and "uf_keyID v \<noteq> ''''"
  shows "user_U (uf_keyID v) (r_RepoList (Rtask (udp_api s'))) =
      user_U (uf_keyID v) (r_RepoList (Rtask (udp_api s))) + word_of_nat n"
    and "user_D (uf_keyID v) (r_RepoList (Rtask (udp_api s'))) =
      user_D (uf_keyID v) (r_RepoList (Rtask (udp_api s))) + word_of_nat (uf_proxyTargetBytes v)"
proof -
  have keep: "Rtask (AddWwwRepo c t) = Rtask c" for c t by (simp add: AddWwwRepo_def)
  note add = AddRepo_user [OF assms(2)]
  show "user_U (uf_keyID v) (r_RepoList (Rtask (udp_api s'))) =
      user_U (uf_keyID v) (r_RepoList (Rtask (udp_api s))) + word_of_nat n"
    and "user_D (uf_keyID v) (r_RepoList (Rtask (udp_api s'))) =
      user_D (uf_keyID v) (r_RepoList (Rtask (udp_api s))) + word_of_nat (uf_proxyTargetBytes v)"
    using assms(1) by (auto simp: report_packet_def Let_def add keep)
qed

lemma report_packet_keeps:
  assumes "report_packet env s n a v = Ok s'"
  shows "udp_conns s' = udp_conns s" "udp_keyConn s' = udp_keyConn s" "udp_gors s' = udp_gors s"
    "udp_running s' = udp_running s" "udp_fresh s' = udp_fresh s" "udp_stopped s' = udp_stopped s"
    "udp_clientConn s' = udp_clientConn s" "udp_targetIPValidator s' = udp_targetIPValidator s"
    "udp_natTimeout s' = udp_natTimeout s" "udp_ciphers s' = udp_ciphers s"
    "udpAddedNatEntries (udp_m s') = udpAddedNatEntries (udp_m s)"
    "udpRemovedNatEntries (udp_m s') = udpRemovedNatEntries (udp_m s)"
  using assms by (auto simp: report_packet_def Let_def AddUDPPacketFromClient_def split: option.splits)

lemma report_packet_ok: obtains s' where "report_packet env s n (Some a) v = Ok s'"
  by (simp add: report_packet_def Let_def)

section \<open>Properties of packets\<close>

text \<open>A genuine packet is forwarded. A client's packet that carries an address and a payload under a key of the list
  (and authenticates under no other), and comes from a client without a NAT entry or with an entry of the same
  key, makes the server send exactly one packet from the client's NAT socket: the payload, to the resolved
  target, after the packets sent there before. The entry keeps the key's cipher, and the traffic records of
  the key's user grow by the length of the received packet and by the bytes sent to the target.\<close>

lemma udp_packet_relayed:
  assumes "keys_ok (ue_crypto env) (udp_ciphers s)" and "e \<in> set (cl_list (udp_ciphers s))"
    and "c = entry_Cipher (cl_entry (udp_ciphers s) e)" and "i = ID (cl_entry (udp_ciphers s) e)" and "i \<noteq> ''''"
    and "pkt = packet_of (ue_crypto env) c salt (a @ payload)" and "length salt = SaltSize c"
    and "length pkt \<le> serverUDPBufferSize"
    and "\<And>e'. e' \<in> set (cl_list (udp_ciphers s)) \<Longrightarrow>
      unpacks (ue_crypto env) serverUDPBufferSize pkt (entry_Cipher (cl_entry (udp_ciphers s) e')) \<Longrightarrow> e' = e"
    and "ue_SplitAddr env (a @ payload) = Some a" and "ue_ResolveUDPAddr env (ue_Addr_String env a) = Inr tgt"
    and "udp_targetIPValidator s (udp_IP tgt) = None" and "ue_ListenPacket env = None"
    and "ue_WriteTo env payload tgt = Inr n"
    and "\<And>p. nat_Get s (ue_String env client) = Some p \<Longrightarrow> nc_cipher (udp_conns s p) = c \<and> nc_keyID (udp_conns s p) = i"
  shows "\<exists>s' p. serve_packet env s (Inr (pkt, client)) = (False, s') \<and> nat_Get s' (ue_String env client) = Some p \<and>
     nc_cipher (udp_conns s' p) = c \<and>
     nc_sent (udp_conns s' p) =
       (case nat_Get s (ue_String env client) of Some q \<Rightarrow> nc_sent (udp_conns s q) | None \<Rightarrow> []) @ [(tgt, payload)] \<and>
     user_U i (r_RepoList (Rtask (udp_api s'))) = user_U i (r_RepoList (Rtask (udp_api s))) + word_of_nat (length pkt) \<and>
     user_D i (r_RepoList (Rtask (udp_api s'))) = user_D i (r_RepoList (Rtask (udp_api s))) + word_of_nat n"
proof -
  let ?key = "ue_String env client"
  have ok: "cipher_ok (ue_crypto env) c" using assms(1-3) by (simp add: keys_ok_def)
  have len: "length (a @ payload) \<le> serverUDPBufferSize"
    using length_packet_of [OF ok, of salt "a @ payload"] assms(6,8) by simp
  have unpack: "Unpack (ue_crypto env) (Some serverUDPBufferSize) pkt c = Ok (a @ payload)"
    "Unpack (ue_crypto env) None pkt c = Ok (a @ payload)"
    unfolding assms(6) using len by (intro Unpack_packet_of [OF ok assms(7)]; simp)+
  have valid: "validatePacket env (udp_targetIPValidator s) (a @ payload) = Inr (payload, tgt)"
    using assms(10-12) by (rule validatePacket_ok)
  have "\<exists>v s1 p. (case nat_Get s ?key of None \<Rightarrow> forward_new env s pkt client | Some p \<Rightarrow> forward_known env s p pkt) = (v, s1) \<and>
      uf_keyID v = i \<and> uf_proxyTargetBytes v = n \<and> udp_api s1 = udp_api s \<and> nat_Get s1 ?key = Some p \<and>
      nc_cipher (udp_conns s1 p) = c \<and>
      nc_sent (udp_conns s1 p) = (case nat_Get s ?key of Some q \<Rightarrow> nc_sent (udp_conns s q) | None \<Rightarrow> []) @ [(tgt, payload)]"
  proof (cases "nat_Get s ?key")
    case None
    have "findAccessKeyUDP (ue_crypto env) (udp_IP client) serverUDPBufferSize pkt (udp_ciphers s) =
        (Ok (a @ payload, i, c), MarkUsedByClientIP (udp_ciphers s) e (udp_IP client))"
      unfolding assms(3,4) by (rule findAccessKeyUDP_finds [OF assms(1,2) unpack(1) [unfolded assms(3)] assms(9)])
    with None show ?thesis
      by (auto simp: forward_new_def Let_def valid assms(13) nat_Add_def nat_set_def
          forward_payload_ok [OF assms(14)] nat_Get_def no_forward_def)
  next
    case (Some p)
    with assms(15) [OF Some] unpack(2) show ?thesis
      by (auto simp: forward_known_def Let_def valid
          forward_payload_ok [OF assms(14)] nat_Get_def no_forward_def)
  qed
  then obtain v s1 p where v: "(case nat_Get s ?key of None \<Rightarrow> forward_new env s pkt client | Some p \<Rightarrow> forward_known env s p pkt) = (v, s1)"
    "uf_keyID v = i" "uf_proxyTargetBytes v = n" "udp_api s1 = udp_api s" and
    p: "nat_Get s1 ?key = Some p" "nc_cipher (udp_conns s1 p) = c"
      "nc_sent (udp_conns s1 p) = (case nat_Get s ?key of Some q \<Rightarrow> nc_sent (udp_conns s q) | None \<Rightarrow> []) @ [(tgt, payload)]"
    by blast
  obtain s' where s': "report_packet env s1 (length pkt) (Some client) v = Ok s'" by (rule report_packet_ok)
  have "serve_packet env s (Inr (pkt, client)) = (False, s')"
    using s' by (simp add: serve_packet_def Let_def take_all [OF assms(8)] min.absorb1 [OF assms(8)] v(1) cong: option.case_cong)
  moreover have "nat_Get s' ?key = Some p" "udp_conns s' = udp_conns s1"
    using p(1) report_packet_keeps [OF s'] by (simp_all add: nat_Get_def)
  ultimately show ?thesis
    using report_packet_user [OF s'] v(2-4) assms(5) p(2,3) by auto
qed

text \<open>A server with one key, a client at 9.9.9.9 and a target whose address is one byte.\<close>

definition toy_udp_list :: cipherList where
  "toy_udp_list = \<lparr>cl_list = [7], cl_entry = \<lambda>_. MakeCipherEntry toy_crypto ''u1'' toy_cipher ''pw''\<rparr>"

definition toy_udp_env :: udp_env where
  "toy_udp_env = \<lparr>ue_crypto = toy_crypto, ue_String = \<lambda>a. map (\<lambda>b. char_of (unat b)) (udp_IP a) @ '':'' @ Itoa (udp_Port a),
     ue_SplitAddr = \<lambda>b. (case b of [] \<Rightarrow> None | x # xs \<Rightarrow> Some [x]), ue_Addr_String = \<lambda>_. ''8.8.8.8:53'',
     ue_ParseAddr = \<lambda>s. (if s = ''[2001:db8::1]:12345'' then Some (make_bytes 19) else Some (make_bytes 7)),
     ue_ResolveUDPAddr = \<lambda>_. Inr \<lparr>udp_IP = [8, 8, 8, 8], udp_Port = 53, udp_Zone = ''''\<rparr>, ue_ListenPacket = None,
     ue_WriteTo = \<lambda>b _. Inr (length b), ue_country = None, ue_host_ip = \<lambda>_. Ok [], ue_entropy = Inr (\<lambda>_. 9),
     ue_now = 1000, ue_unix = 0, ue_timeToCipher = 0\<rparr>"

definition toy_natconn :: natconn where
  "toy_natconn = \<lparr>nc_cipher = toy_cipher, nc_keyID = ''u1'', nc_clientLocation = '''', nc_defaultTimeout = 300 * second,
     nc_readDeadline = None, nc_fastClose = False, nc_deadline = None, nc_sent = []\<rparr>"

definition toy_udp :: udpService where
  "toy_udp = NewUDPService (300 * second) toy_udp_list newShadowsocksMetrics (api_New 1 0) (\<lambda>_. toy_natconn)"

definition toy_client :: UDPAddr where
  "toy_client = \<lparr>udp_IP = [9, 9, 9, 9], udp_Port = 4000, udp_Zone = ''''\<rparr>"

lemma toy_udp_keys: "keys_ok toy_crypto toy_udp_list"
  using toy_cipher_ok by (simp add: keys_ok_def toy_udp_list_def)

lemma toy_udp_simps:
  "ue_crypto toy_udp_env = toy_crypto" "udp_ciphers toy_udp = toy_udp_list"
    "nat_Get toy_udp (ue_String toy_udp_env toy_client) = None" "ue_SplitAddr toy_udp_env ([1] @ [2, 3]) = Some [1]"
    "ue_ResolveUDPAddr toy_udp_env (ue_Addr_String toy_udp_env [1]) =
       Inr \<lparr>udp_IP = [8, 8, 8, 8], udp_Port = 53, udp_Zone = ''''\<rparr>"
    "ue_ListenPacket toy_udp_env = None"
    "ue_WriteTo toy_udp_env [2, 3] \<lparr>udp_IP = [8, 8, 8, 8], udp_Port = 53, udp_Zone = ''''\<rparr> = Inr 2"
    "udp_targetIPValidator toy_udp [8, 8, 8, 8] = None"
    "user_U ''u1'' (r_RepoList (Rtask (udp_api toy_udp))) = 0" "user_D ''u1'' (r_RepoList (Rtask (udp_api toy_udp))) = 0"
    by (simp_all add: toy_udp_env_def toy_udp_def NewUDPService_def nat_Get_def RequirePublicIP_def IsGlobalUnicast_4
        IsPrivate_4 api_New_def user_U_def user_D_def)

lemma toy_udp_list_simps:
  "cl_list toy_udp_list = [7]" "ID (cl_entry toy_udp_list e) = ''u1''" "entry_Cipher (cl_entry toy_udp_list e) = toy_cipher"
    by (simp_all add: toy_udp_list_def)

lemma udp_packet_relayed_witness:
  "\<exists>pkt s' p. serve_packet toy_udp_env toy_udp (Inr (pkt, toy_client)) = (False, s') \<and>
     nc_sent (udp_conns s' p) = [(\<lparr>udp_IP = [8, 8, 8, 8], udp_Port = 53, udp_Zone = ''''\<rparr>, [2, 3])] \<and>
     user_U ''u1'' (r_RepoList (Rtask (udp_api s'))) = 35 \<and> user_D ''u1'' (r_RepoList (Rtask (udp_api s'))) = 2"
proof -
  let ?pkt = "packet_of toy_crypto toy_cipher (make_bytes 16) ([1] @ [2, 3])"
  have len: "length ?pkt = 35" using length_packet_of [OF toy_cipher_ok, of "make_bytes 16" "[1] @ [2, 3]"] by simp
  have "\<exists>s' p. serve_packet toy_udp_env toy_udp (Inr (?pkt, toy_client)) = (False, s') \<and>
      nat_Get s' (ue_String toy_udp_env toy_client) = Some p \<and> nc_cipher (udp_conns s' p) = toy_cipher \<and>
      nc_sent (udp_conns s' p) = [] @ [(\<lparr>udp_IP = [8, 8, 8, 8], udp_Port = 53, udp_Zone = ''''\<rparr>, [2, 3])] \<and>
      user_U ''u1'' (r_RepoList (Rtask (udp_api s'))) = 0 + word_of_nat (length ?pkt) \<and>
      user_D ''u1'' (r_RepoList (Rtask (udp_api s'))) = 0 + word_of_nat 2"
  proof -
    have buf: "length ?pkt \<le> serverUDPBufferSize" using len by (simp add: serverUDPBufferSize_def)
    have only: "e' = 7" if "e' \<in> set (cl_list toy_udp_list)" for e' using that by (simp add: toy_udp_list_simps)
    have "length (make_bytes 16) = SaltSize toy_cipher" "''u1'' \<noteq> ''''" "(7::nat) \<in> set [7]" by simp_all
    from udp_packet_relayed [where env = toy_udp_env and s = toy_udp and e = 7 and client = toy_client and salt = "make_bytes 16"
          and a = "[1]" and payload = "[2, 3]" and n = 2 and i = "''u1''"
          and tgt = "\<lparr>udp_IP = [8, 8, 8, 8], udp_Port = 53, udp_Zone = ''''\<rparr>", unfolded toy_udp_simps toy_udp_list_simps,
        OF toy_udp_keys this(3) refl refl this(2) refl this(1) buf only [unfolded toy_udp_list_simps] refl refl _ refl refl]
    show ?thesis by (simp add: toy_udp_simps)
  qed
  then show ?thesis unfolding len by auto
qed

text \<open>The plaintext that \<open>timedCopy\<close> assembles in its buffer: the body is read behind the space for the longest
  address, and the address is written right before it.\<close>

lemma assembled_plaintext:
  assumes "length src \<le> b" and "b + length body \<le> length pkt"
  shows "subslice (blit (blit pkt b body) (b - length src) src) (b - length src) (b + length body) = src @ body"
    and "length (blit (blit pkt b body) (b - length src) src) = length pkt"
proof -
  have "drop b (blit pkt b body) = body @ drop (b + length body) pkt"
    using assms by (simp add: blit_def)
  then show "subslice (blit (blit pkt b body) (b - length src) src) (b - length src) (b + length body) = src @ body"
    using assms by (simp add: blit_def [of _ _ src] subslice_def)
  show "length (blit (blit pkt b body) (b - length src) src) = length pkt"
    using assms by (simp add: blit_def)
qed

text \<open>Packets from targets reach the client whole or not at all. A packet from a target whose address has at most the
  reserved length is sent to the client as one packet that decrypts under the entry's cipher to exactly the
  source address followed by the body, if the body leaves room for the tag in the 64 KiB buffer. A longer
  body, which the read may have truncated, is never sent: it is the error \<^verbatim>\<open>ERR_PACK\<close>.\<close>

lemma downstream_packet_whole:
  assumes "cipher_ok (ue_crypto env) (nc_cipher c)" and "length pkt = serverUDPBufferSize"
    and "ue_entropy env = Inr f" and "ue_ParseAddr env (ue_String env raddr) = Some src"
    and "length src \<le> maxAddrLen (ue_ParseAddr env)" and "maxAddrLen (ue_ParseAddr env) \<le> 1000"
  shows "if length body + 16 + SaltSize (nc_cipher c) + maxAddrLen (ue_ParseAddr env) \<le> serverUDPBufferSize
    then \<exists>status n buf pkt'. timedCopy_packet env write c pkt (Inr (body, raddr)) =
           Ok (Copied status (length body) n (Some buf), onRead (ue_now env) c raddr, pkt') \<and>
         Unpack (ue_crypto env) None buf (nc_cipher c) = Ok (src @ body) \<and>
         status = (case write buf of Inr _ \<Rightarrow> ''OK'' | Inl _ \<Rightarrow> ''ERR_WRITE'')
    else \<exists>k pkt'. timedCopy_packet env write c pkt (Inr (body, raddr)) =
           Ok (Copied ''ERR_PACK'' k 0 None, onRead (ue_now env) c raddr, pkt')"
proof -
  let ?ss = "SaltSize (nc_cipher c)" and ?mal = "maxAddrLen (ue_ParseAddr env)"
  let ?b = "?ss + ?mal" and ?body = "take (serverUDPBufferSize - (?ss + ?mal)) body"
  have ss: "?ss \<le> 32" using assms(1) by (auto simp: cipher_ok_def)
  have fit: "length src \<le> ?b" "?b + length ?body \<le> length pkt" "?b \<le> length pkt"
    using assms(2,5,6) ss by (simp_all add: serverUDPBufferSize_def)
  note plain = assembled_plaintext [OF fit(1,2)]
  let ?pkt2 = "blit (blit pkt ?b ?body) (?b - length src) src"
  have start: "?b - length src - ?ss = ?mal - length src" "\<not> ?b < length src" "\<not> ?b - length src < ?ss"
    using assms(5) by simp_all
  have eq: "timedCopy_packet env write c pkt (Inr (body, raddr)) =
      (case Pack (ue_crypto env) (ue_entropy env) (drop (?mal - length src) ?pkt2) (src @ ?body) (nc_cipher c) of
         Panic m \<Rightarrow> Panic m
       | Fail err \<Rightarrow> Ok (Copied ''ERR_PACK'' (length ?body) 0 None, onRead (ue_now env) c raddr, ?pkt2)
       | Ok buf \<Rightarrow>
           (case write buf of
              Inr n \<Rightarrow> Ok (Copied ''OK'' (length ?body) n (Some buf), onRead (ue_now env) c raddr, blit ?pkt2 (?mal - length src) buf)
            | Inl err \<Rightarrow> Ok (Copied ''ERR_WRITE'' (length ?body) 0 (Some buf), onRead (ue_now env) c raddr,
                blit ?pkt2 (?mal - length src) buf)))"
    unfolding timedCopy_packet_def timedCopy_pack_def Let_def nat_ReadFrom_def
    using assms(2,4) fit(3) start plain(1) by (simp split: result.split sum.split)
  have room: "length (drop (?mal - length src) ?pkt2) = serverUDPBufferSize - (?mal - length src)"
    using plain(2) assms(2) by simp
  have salt: "length (map f [0..<?ss]) = ?ss" by simp
  show ?thesis
  proof (cases "length body + 16 + ?ss + ?mal \<le> serverUDPBufferSize")
    case True
    then have body: "?body = body" by simp
    have pack: "Pack (ue_crypto env) (ue_entropy env) (drop (?mal - length src) ?pkt2) (src @ ?body) (nc_cipher c) =
        Ok (packet_of (ue_crypto env) (nc_cipher c) (map f [0..<?ss]) (src @ body))"
    proof -
      have "\<not> serverUDPBufferSize - (?mal - length src) < ?ss + length (src @ ?body) + 16"
        "\<not> serverUDPBufferSize - (?mal - length src) < ?ss"
        using True assms(5) body by auto
      then show ?thesis unfolding Pack_cases [OF assms(1)] room using assms(3) body by simp
    qed
    have "Unpack (ue_crypto env) None (packet_of (ue_crypto env) (nc_cipher c) (map f [0..<?ss]) (src @ body)) (nc_cipher c) =
        Ok (src @ body)"
      by (rule Unpack_packet_of [OF assms(1) salt]) simp
    with True show ?thesis unfolding eq pack unfolding body by (auto split: sum.split)
  next
    case False
    have "Pack (ue_crypto env) (ue_entropy env) (drop (?mal - length src) ?pkt2) (src @ ?body) (nc_cipher c) = Fail ErrShortBuffer"
      unfolding Pack_cases [OF assms(1)] room using False assms(3,5,6) ss by (auto simp: serverUDPBufferSize_def)
    with False show ?thesis unfolding eq by simp
  qed
qed

lemma downstream_packet_whole_witness:
  "\<exists>n buf pkt'. timedCopy_packet toy_udp_env (\<lambda>b. Inr (length b)) toy_natconn (make_bytes 65536) (Inr ([70, 71], toy_client)) =
     Ok (Copied ''OK'' 2 n (Some buf), onRead 1000 toy_natconn toy_client, pkt') \<and>
   Unpack toy_crypto None buf toy_cipher = Ok (make_bytes 7 @ [70, 71])"
proof -
  have len: "maxAddrLen (ue_ParseAddr toy_udp_env) = 19"
    by (simp add: maxAddrLen_def toy_udp_env_def)
  have "ue_String toy_udp_env toy_client \<noteq> ''[2001:db8::1]:12345''"
    by (simp add: toy_udp_env_def toy_client_def Itoa_def)
  then have addr: "ue_ParseAddr toy_udp_env (ue_String toy_udp_env toy_client) = Some (make_bytes 7)"
    by (simp add: toy_udp_env_def)
  have "cipher_ok (ue_crypto toy_udp_env) (nc_cipher toy_natconn)" "ue_entropy toy_udp_env = Inr (\<lambda>_. 9)"
    "length (make_bytes 65536) = serverUDPBufferSize"
    using toy_cipher_ok by (simp_all add: toy_udp_env_def toy_natconn_def serverUDPBufferSize_def)
  note whole = downstream_packet_whole [OF this(1,3,2) addr, of "[70, 71]" "\<lambda>b. Inr (length b)"]
  have "nc_cipher toy_natconn = toy_cipher" "ue_crypto toy_udp_env = toy_crypto" "ue_now toy_udp_env = 1000"
    by (simp_all add: toy_udp_env_def toy_natconn_def)
  from whole [unfolded this len] show ?thesis
    by (simp add: serverUDPBufferSize_def numeral_2_eq_2)
qed

text \<open>A source address longer than the reserved length crashes the server: the address does not fit before the body, the
  slice bound becomes negative and \<open>timedCopy\<close> panics, in a goroutine that recovers from nothing. An IPv6
  source address with a zone (as every link-local one has) is parsed as a domain name and can have that
  length.\<close>

lemma long_source_address:
  assumes "ue_ParseAddr env (ue_String env raddr) = Some src" and "maxAddrLen (ue_ParseAddr env) < length src"
  shows "timedCopy_packet env write c pkt (Inr (body, raddr)) = Panic ''slice bounds out of range''"
proof -
  let ?ss = "SaltSize (nc_cipher c)" and ?mal = "maxAddrLen (ue_ParseAddr env)"
  have "?ss + ?mal < length src \<or> ?ss + ?mal - length src < ?ss" using assms(2) by linarith
  then show ?thesis using assms(1) by (auto simp: timedCopy_packet_def timedCopy_pack_def nat_ReadFrom_def Let_def)
qed

lemma timedCopy_step_cases:
  assumes "timedCopy_step env write s p pkt r = Ok (b, s', pkt')"
  obtains c' m' where "s' = s\<lparr>udp_conns := (udp_conns s)(p := c'), udp_m := m'\<rparr>" "c' = udp_conns s p \<or> (\<exists>a. c' = onRead (ue_now env) (udp_conns s p) a)"
    "udpAddedNatEntries m' = udpAddedNatEntries (udp_m s)" "udpRemovedNatEntries m' = udpRemovedNatEntries (udp_m s)"
proof -
  from assms obtain out c' x where o: "timedCopy_packet env write (udp_conns s p) pkt r = Ok (out, c', x)"
    by (auto simp: timedCopy_step_def Let_def bind_result_Ok_iff)
  with assms have s': "s' = s\<lparr>udp_conns := (udp_conns s)(p := c')\<rparr> \<or>
      (\<exists>st k n. s' = s\<lparr>udp_conns := (udp_conns s)(p := c'),
         udp_m := AddUDPPacketFromTarget (udp_m s) (nc_clientLocation (udp_conns s p)) (nc_keyID (udp_conns s p)) st k n\<rparr>)"
    by (cases out) (auto simp: timedCopy_step_def Let_def)
  from o have "c' = udp_conns s p \<or> (\<exists>a. c' = onRead (ue_now env) (udp_conns s p) a)"
  proof (cases r)
    case (Inl e)
    with o show ?thesis
      by (auto simp: timedCopy_packet_def Let_def nat_ReadFrom_def split: if_splits goerror.splits bool.splits)
  next
    case (Inr da)
    obtain d a where da: "da = (d, a)" by (cases da)
    have "c' = onRead (ue_now env) (udp_conns s p) a"
      using o by (auto simp: timedCopy_packet_def Let_def nat_ReadFrom_def Inr da bind_result_Ok_iff split: if_splits)
    then show ?thesis by blast
  qed
  moreover have "s' = s\<lparr>udp_conns := (udp_conns s)(p := c'), udp_m := udp_m s'\<rparr>"
    using s' by (elim disjE exE) simp_all
  moreover have "udpAddedNatEntries (udp_m s') = udpAddedNatEntries (udp_m s)"
    "udpRemovedNatEntries (udp_m s') = udpRemovedNatEntries (udp_m s)"
    using s' by (auto simp: AddUDPPacketFromTarget_def Let_def)
  ultimately show ?thesis by (intro that)
qed

lemma timedCopy_step_keeps:
  assumes "timedCopy_step env write s p pkt r = Ok (b, s', pkt')"
  shows "udp_api s' = udp_api s"
  using assms by (rule timedCopy_step_cases) simp

text \<open>What UDP traffic is billed. For every packet from a client with a known key, the user's download amount grows by
  the number of bytes sent to the target, and packets from targets to the client are never billed: handling
  one leaves the traffic records as they are. A failed read from the client's socket is recorded nowhere,
  because its report panics.\<close>

lemma udp_billing:
  "(\<forall>v s'. report_packet env s n (Some a) v = Ok s' \<longrightarrow> uf_keyID v \<noteq> '''' \<longrightarrow>
      user_D (uf_keyID v) (r_RepoList (Rtask (udp_api s'))) =
        user_D (uf_keyID v) (r_RepoList (Rtask (udp_api s))) + word_of_nat (uf_proxyTargetBytes v)) \<and>
   (\<forall>b s' pkt'. timedCopy_step env write s p pkt r = Ok (b, s', pkt') \<longrightarrow> udp_api s' = udp_api s) \<and>
   (\<not> udp_stopped s \<longrightarrow> serve_packet env s (Inl err) = (False, s))"
  by (auto simp: report_packet_user timedCopy_step_keeps serve_packet_def report_packet_def)

lemma udp_billing_witness: "serve_packet toy_udp_env toy_udp (Inl EOF) = (False, toy_udp)"
  using udp_billing [of toy_udp_env toy_udp 0 toy_client "\<lambda>_. Inr 0" 0 "[]" "Inl EOF" EOF]
  by (simp add: toy_udp_def NewUDPService_def)

end
