(* ===== verification/End_to_End.thy ===== *)
theory End_to_End
  imports SS_Client Service_TCP_Relay Service_UDP
begin

text \<open>
  The client of \<^verbatim>\<open>shadowsocks/client\<close> and the server of \<^verbatim>\<open>service\<close> together: what an application writes into a
  dialled connection reaches the target, what the target answers reaches the application, and the same for
  packets. The two ends share nothing but the cipher and the encoding of addresses.
\<close>

section \<open>Streams\<close>

lemma tunnel_ok:
  assumes base: "crypto_ok (env_crypto env)" "supportedAEADs (env_crypto env) = Ok specs" "env_pool env = readBufPool specs"
      "ce_crypto ce = env_crypto env" "ce_pool ce = readBufPool specs"
    and keys: "keys_ok (env_crypto env) (tcp_ciphers s)" "e \<in> set (cl_list (tcp_ciphers s))"
    and entry: "entry = cl_entry (MarkUsedByClientIP (tcp_ciphers s) e (remoteIP (env_host_ip env) (conn_remote conn))) e"
      "ID entry \<noteq> ''''" "sd_cipher d = entry_Cipher entry"
    and client: "ce_ParseAddr ce remoteAddr = Some a"
      "sd_endpoint d = Inr \<lparr>px_reader = ConnReader segs EOF, px_writer = \<lparr>wout = [], wplan = []\<rparr>, px_closed = False\<rparr>"
      "GetSalt (ce_crypto ce) (dial_salter d) ent (make_bytes (SaltSize (sd_cipher d))) = Ok salt"
      "client_Dial ce ent d remoteAddr = (Ok (duplexConnAdaptor k ssr ssw), px)"
    and ops: "list_all op_ok xs" "length (a @ concat (map op_input xs)) < 2 ^ 95"
      "writer_run (ce_crypto ce) ent (xs @ [OpFlush]) ssw = Ok sw'"
    and link: "contents (lift_deadline (conn_later conn) (conn_reader conn)) = concat (wout (sw_writer sw'))"
      "final_error (lift_deadline (conn_later conn) (conn_reader conn)) = EOF"
      "eof_chained (conn_reader conn)" "50 \<le> length (contents (conn_reader conn))"
      "\<And>e'. e' \<in> set (cl_list (tcp_ciphers s)) \<Longrightarrow>
         opens (env_crypto env) (take 50 (contents (conn_reader conn))) (entry_Cipher (cl_entry (tcp_ciphers s) e')) \<Longrightarrow> e' = e"
    and new: "\<not> IsServerSalt (env_crypto env) (entry_SaltGenerator entry) salt" "fst (Add (tcp_replayCache s) (ID entry) salt)"
    and contract: "\<And>r a' r'. env_ReadAddr env r = (Ok a', r') \<Longrightarrow>
      \<exists>ns. conv_reads (\<lambda>x. ReadChunk (env_crypto env) (env_pick env (cr_pool x)) x) r ns = Some (a', r')"
    and addr: "fst (env_ReadAddr env (NewShadowsocksReader (env_pool env) (replayed_reader conn) (entry_Cipher entry))) = Ok a"
    and dial: "dialTarget (tcp_targetIPValidator s) (fst (env_dial env (env_addr_String env a)))
      (snd (env_dial env (env_addr_String env a))) = Inr (p, tgt)"
    and tgt: "good_target tgt" and cw: "wout (conn_writer conn) = []" "writes_all (conn_writer conn)"
    and salt2: "GetSalt (env_crypto env) (entry_SaltGenerator entry) (env_entropy env)
      (make_bytes (SaltSize (entry_Cipher entry))) = Ok salt2"
  shows "\<exists>out w. handleConnection env s conn = Some (Ok out) \<and> out_status out = ''OK'' \<and>
    out_target out = Some (p, w) \<and> concat (wout w) = concat (map op_input xs) \<and>
    (concat segs = concat (wout (out_client out)) \<longrightarrow> writes_all app \<longrightarrow>
       (\<exists>c' app'. conv_WriteTo (\<lambda>x. ReadChunk (ce_crypto ce) (pick x) x) ssr app 0 =
            Some (Ok (length (contents (tgt_reader tgt)), None), c', app') \<and>
          concat (wout app') = concat (wout app) @ contents (tgt_reader tgt))) \<and>
    user_U (ID entry) (r_RepoList (Rtask (tcp_api (out_service out)))) =
      user_U (ID entry) (r_RepoList (Rtask (tcp_api s))) + word_of_nat (length (concat (map op_input xs))) \<and>
    user_D (ID entry) (r_RepoList (Rtask (tcp_api (out_service out)))) =
      user_D (ID entry) (r_RepoList (Rtask (tcp_api s))) + word_of_nat (length (contents (tgt_reader tgt)))"
proof -
  let ?cr = "env_crypto env" and ?c = "entry_Cipher entry"
  have e: "entry_Cipher entry = entry_Cipher (cl_entry (tcp_ciphers s) e)" using entry(1) by simp
  have ok: "cipher_ok ?cr ?c" using keys by (simp add: keys_ok_def e)
  have "length a < 2 ^ 95" using ops(2) by simp
  then obtain A ssw0 where d: "NewAEAD ?cr ?c salt = Ok A" "NonceSize A = 12" "in_session A salt a ssw0"
    "client_Dial ce ent d remoteAddr = (Ok (duplexConnAdaptor
       (NetConn \<lparr>px_reader = ConnReader segs EOF, px_writer = \<lparr>wout = [], wplan = []\<rparr>, px_closed = False\<rparr>)
       (NewShadowsocksReader (ce_pool ce) (ConnReader segs EOF) ?c) ssw0),
     Some \<lparr>px_reader = ConnReader segs EOF, px_writer = \<lparr>wout = [], wplan = []\<rparr>, px_closed = False\<rparr>)"
    using client_Dial_ok [of ce d remoteAddr a _ ent salt, OF _ client(1,2) _ _ client(3)] ok base(4) entry(3)
    by (auto simp: writes_all_def)
  have ssw: "ssw = ssw0" and ssr: "ssr = NewShadowsocksReader (readBufPool specs) (ConnReader segs EOF) ?c"
    using d(4) client(4) base(5) by simp_all
  obtain ps where sent: "list_all chunk_ok ps" "concat ps = a @ concat (map op_input xs)"
    "concat (wout (sw_writer sw')) = wire A salt ps"
    by (rule session_flushed [OF d(3,2) ops(1,2), of "ce_crypto ce" ent]) (use ops(3) ssw in auto)
  have len: "length salt = SaltSize ?c"
    using any_salts.salt_length [OF client(3)] entry(3) by simp
  have "ps \<noteq> []"
  proof
    assume "ps = []"
    with link(1) sent(3) have "length (contents (lift_deadline (conn_later conn) (conn_reader conn))) = 0"
      by (simp add: wire_def)
    moreover have "length (contents (conn_reader conn)) \<le> length (contents (lift_deadline (conn_later conn) (conn_reader conn)))"
      by (rule contents_lift_length)
    ultimately show False using link(4) by simp
  qed
  then have hc: "honest_client ?cr (tcp_ciphers s) conn e salt A ps"
    using keys(2) link sent d(1) len by (auto simp: honest_client_def e)
  from handle_genuine [OF base(1-3) keys(1) hc entry(1,2) new sent(2) contract addr dial tgt cw salt2] obtain out w qs where
    out: "handleConnection env s conn = Some (Ok out)" "out_status out = ''OK''" "out_target out = Some (p, w)"
    "concat (wout w) = concat (map op_input xs)" "concat qs = contents (tgt_reader tgt)"
    "\<And>segs. concat segs = concat (wout (out_client out)) \<Longrightarrow>
       chunks_left ?cr (newChunkReader (readBufPool specs) (ConnReader segs EOF) ?c) = (qs, EOF)"
    "user_U (ID entry) (r_RepoList (Rtask (tcp_api (out_service out)))) =
      user_U (ID entry) (r_RepoList (Rtask (tcp_api s))) + word_of_nat (length (concat (map op_input xs)))"
    "user_D (ID entry) (r_RepoList (Rtask (tcp_api (out_service out)))) =
      user_D (ID entry) (r_RepoList (Rtask (tcp_api s))) + word_of_nat (length (contents (tgt_reader tgt)))"
    unfolding base(3) by blast
  have "\<exists>c' app'. conv_WriteTo (\<lambda>x. ReadChunk (ce_crypto ce) (pick x) x) ssr app 0 =
            Some (Ok (length (contents (tgt_reader tgt)), None), c', app') \<and>
          concat (wout app') = concat (wout app) @ contents (tgt_reader tgt)"
    if "concat segs = concat (wout (out_client out))" "writes_all app"
    using WriteTo_delivers [OF base(1,2) ok that(2) _ out(6) [OF that(1)], of pick] out(5) by (simp add: ssr base(4))
  with out show ?thesis by blast
qed

text \<open>C2: The tunnel for streams. An application dials a target through the client and then performs any sequence of
  writes, with the timer's flush anywhere between them. When the server, which has the client's key and can
  reach the target, handles a connection that carries the bytes the client sent, in any segmentation, the
  connection ends with status OK, the target receives exactly what the application wrote after the address,
  and the reader of the dialled connection delivers exactly what the target answered, whatever the
  segmentation of the way back.\<close>

theorem tunnel_tcp:
  assumes base: "crypto_ok (env_crypto env)" "supportedAEADs (env_crypto env) = Ok specs" "env_pool env = readBufPool specs"
      "ce_crypto ce = env_crypto env" "ce_pool ce = readBufPool specs"
    and keys: "keys_ok (env_crypto env) (tcp_ciphers s)" "e \<in> set (cl_list (tcp_ciphers s))"
    and entry: "entry = cl_entry (MarkUsedByClientIP (tcp_ciphers s) e (remoteIP (env_host_ip env) (conn_remote conn))) e"
      "ID entry \<noteq> ''''" "sd_cipher d = entry_Cipher entry"
    and client: "ce_ParseAddr ce remoteAddr = Some a"
      "sd_endpoint d = Inr \<lparr>px_reader = ConnReader segs EOF, px_writer = \<lparr>wout = [], wplan = []\<rparr>, px_closed = False\<rparr>"
      "GetSalt (ce_crypto ce) (dial_salter d) ent (make_bytes (SaltSize (sd_cipher d))) = Ok salt"
      "client_Dial ce ent d remoteAddr = (Ok (duplexConnAdaptor k ssr ssw), px)"
    and ops: "list_all op_ok xs" "length (a @ concat (map op_input xs)) < 2 ^ 95"
      "writer_run (ce_crypto ce) ent (xs @ [OpFlush]) ssw = Ok sw'"
    and link: "contents (lift_deadline (conn_later conn) (conn_reader conn)) = concat (wout (sw_writer sw'))"
      "final_error (lift_deadline (conn_later conn) (conn_reader conn)) = EOF"
      "eof_chained (conn_reader conn)" "50 \<le> length (contents (conn_reader conn))"
      "\<And>e'. e' \<in> set (cl_list (tcp_ciphers s)) \<Longrightarrow>
         opens (env_crypto env) (take 50 (contents (conn_reader conn))) (entry_Cipher (cl_entry (tcp_ciphers s) e')) \<Longrightarrow> e' = e"
    and new: "\<not> IsServerSalt (env_crypto env) (entry_SaltGenerator entry) salt" "fst (Add (tcp_replayCache s) (ID entry) salt)"
    and contract: "\<And>r a' r'. env_ReadAddr env r = (Ok a', r') \<Longrightarrow>
      \<exists>ns. conv_reads (\<lambda>x. ReadChunk (env_crypto env) (env_pick env (cr_pool x)) x) r ns = Some (a', r')"
    and addr: "fst (env_ReadAddr env (NewShadowsocksReader (env_pool env) (replayed_reader conn) (entry_Cipher entry))) = Ok a"
    and dial: "dialTarget (tcp_targetIPValidator s) (fst (env_dial env (env_addr_String env a)))
      (snd (env_dial env (env_addr_String env a))) = Inr (p, tgt)"
    and tgt: "good_target tgt" and cw: "wout (conn_writer conn) = []" "writes_all (conn_writer conn)"
    and salt2: "GetSalt (env_crypto env) (entry_SaltGenerator entry) (env_entropy env)
      (make_bytes (SaltSize (entry_Cipher entry))) = Ok salt2"
  shows "\<exists>out w. handleConnection env s conn = Some (Ok out) \<and> out_status out = ''OK'' \<and>
    out_target out = Some (p, w) \<and> concat (wout w) = concat (map op_input xs) \<and>
    (concat segs = concat (wout (out_client out)) \<longrightarrow> writes_all app \<longrightarrow>
       (\<exists>c' app'. conv_WriteTo (\<lambda>x. ReadChunk (ce_crypto ce) (pick x) x) ssr app 0 =
            Some (Ok (length (contents (tgt_reader tgt)), None), c', app') \<and>
          concat (wout app') = concat (wout app) @ contents (tgt_reader tgt)))"
  using tunnel_ok [OF assms, of app pick] by blast

definition toy_dialer :: streamDialer where
  "toy_dialer = \<lparr>sd_endpoint = Inr \<lparr>px_reader = ConnReader [] EOF, px_writer = \<lparr>wout = [], wplan = []\<rparr>, px_closed = False\<rparr>,
     sd_cipher = toy_cipher, sd_salter = None\<rparr>"

text \<open>A session of the toy client: it sends the address \<open>[1]\<close> and the bytes 2 and 3.\<close>

lemma toy_client_simps:
  "ce_crypto toy_client_env = toy_crypto" "ce_pool toy_client_env = readBufPool toy_specs"
  "ce_ParseAddr toy_client_env ''dns:53'' = Some [1]" "dial_salter toy_dialer = RandomSaltGenerator"
  "sd_cipher toy_dialer = toy_cipher"
  "sd_endpoint toy_dialer = Inr \<lparr>px_reader = ConnReader [] EOF, px_writer = \<lparr>wout = [], wplan = []\<rparr>, px_closed = False\<rparr>"
  by (simp_all add: toy_client_env_def toy_dialer_def dial_salter_def)

abbreviation toy_client_salt :: bytes where
  "toy_client_salt \<equiv> map (\<lambda>_. 0) [0..<16]"

lemma toy_client_salt: "GetSalt toy_crypto RandomSaltGenerator (Inr (\<lambda>_. 0)) (make_bytes (SaltSize toy_cipher)) = Ok toy_client_salt"
  by (simp add: randomSaltGenerator_GetSalt_def)

lemma toy_client_session:
  obtains A ssw sw' ps k px where "NewAEAD toy_crypto toy_cipher toy_client_salt = Ok A"
    "client_Dial toy_client_env (Inr (\<lambda>_. 0)) toy_dialer ''dns:53'' =
       (Ok (duplexConnAdaptor k (NewShadowsocksReader (readBufPool toy_specs) (ConnReader [] EOF) toy_cipher) ssw), px)"
    "writer_run toy_crypto (Inr (\<lambda>_. 0)) ([OpWrite False [2, 3]] @ [OpFlush]) ssw = Ok sw'"
    "list_all chunk_ok ps" "ps \<noteq> []" "concat ps = [1] @ [2, 3]" "concat (wout (sw_writer sw')) = wire A toy_client_salt ps"
    "50 \<le> length (wire A toy_client_salt ps)" "\<And>rest. opens toy_crypto (take 50 (wire A toy_client_salt ps @ rest)) toy_cipher"
proof -
  obtain A ssw where dial: "NewAEAD toy_crypto toy_cipher toy_client_salt = Ok A" "NonceSize A = 12" "in_session A toy_client_salt [1] ssw"
    "client_Dial toy_client_env (Inr (\<lambda>_. 0)) toy_dialer ''dns:53'' =
       (Ok (duplexConnAdaptor (NetConn \<lparr>px_reader = ConnReader [] EOF, px_writer = \<lparr>wout = [], wplan = []\<rparr>, px_closed = False\<rparr>)
          (NewShadowsocksReader (readBufPool toy_specs) (ConnReader [] EOF) toy_cipher) ssw),
        Some \<lparr>px_reader = ConnReader [] EOF, px_writer = \<lparr>wout = [], wplan = []\<rparr>, px_closed = False\<rparr>)"
    using client_Dial_ok [of toy_client_env toy_dialer "''dns:53''" "[1]" _ "Inr (\<lambda>_. 0)" toy_client_salt, unfolded toy_client_simps,
      OF toy_cipher_ok refl refl _ _ toy_client_salt]
    by (auto simp: writes_all_def)
  obtain sw' ps where run: "writer_run toy_crypto (Inr (\<lambda>_. 0)) ([OpWrite False [2, 3]] @ [OpFlush]) ssw = Ok sw'"
    "list_all chunk_ok ps" "concat ps = [1] @ [2, 3]" "concat (wout (sw_writer sw')) = wire A toy_client_salt ps"
    by (rule session_flushed [OF dial(3,2), of "[OpWrite False [2, 3]]" toy_crypto "Inr (\<lambda>_. 0)"]) auto
  from run(2,3) obtain q qs where ps: "ps = q # qs" "chunk_ok q" by (cases ps) auto
  show ?thesis
    using dial(1,4) run opens_wire [OF toy_cipher_ok dial(1) _ ps(2)] by (intro that [of A _ ssw _ sw' ps]) (simp_all add: ps(1))
qed

theorem tunnel_tcp_witness:
  "\<exists>ssr ssw sw' k px out w. client_Dial toy_client_env (Inr (\<lambda>_. 0)) toy_dialer ''dns:53'' = (Ok (duplexConnAdaptor k ssr ssw), px) \<and>
     writer_run toy_crypto (Inr (\<lambda>_. 0)) ([OpWrite False [2, 3]] @ [OpFlush]) ssw = Ok sw' \<and>
     handleConnection toy_env toy_service (toy_conn [concat (wout (sw_writer sw'))] EOF) = Some (Ok out) \<and>
     out_target out = Some ([8, 8, 8, 8], w) \<and> concat (wout w) = [2, 3]"
proof -
  obtain A ssw sw' ps k px where run: "NewAEAD toy_crypto toy_cipher toy_client_salt = Ok A"
    "client_Dial toy_client_env (Inr (\<lambda>_. 0)) toy_dialer ''dns:53'' =
       (Ok (duplexConnAdaptor k (NewShadowsocksReader (readBufPool toy_specs) (ConnReader [] EOF) toy_cipher) ssw), px)"
    "writer_run toy_crypto (Inr (\<lambda>_. 0)) ([OpWrite False [2, 3]] @ [OpFlush]) ssw = Ok sw'"
    "list_all chunk_ok ps" "ps \<noteq> []" "concat ps = [1] @ [2, 3]" "concat (wout (sw_writer sw')) = wire A toy_client_salt ps"
    "50 \<le> length (wire A toy_client_salt ps)"
    by (rule toy_client_session)
  let ?conn = "toy_conn [concat (wout (sw_writer sw'))] EOF"
  have hc: "honest_client toy_crypto toy_list ?conn 7 toy_client_salt A ps"
    using run by (simp add: honest_client_def toy_conn_def)
  have addr: "fst (toy_ReadAddr (NewShadowsocksReader (readBufPool toy_specs) (replayed_reader ?conn) toy_cipher)) = Ok [1]"
    using toy_address_of [OF hc, of "[2, 3]"] run(6) by simp
  have link: "contents (lift_deadline (conn_later ?conn) (conn_reader ?conn)) = concat (wout (sw_writer sw'))"
    "final_error (lift_deadline (conn_later ?conn) (conn_reader ?conn)) = EOF" "50 \<le> length (contents (conn_reader ?conn))"
    using run(7,8) by (simp_all add: toy_conn_def)
  have new: "\<not> IsServerSalt toy_crypto RandomServerSaltGenerator toy_client_salt" "fst (Add None ''u1'' toy_client_salt)"
    by (simp_all add: Add_def randomServerSaltGenerator_IsServerSalt_def)
  let ?entry = "cl_entry (MarkUsedByClientIP toy_list 7 []) 7"
  have entry: "ID ?entry = ''u1''" "entry_Cipher ?entry = toy_cipher" "entry_SaltGenerator ?entry = RandomServerSaltGenerator"
    by simp_all
  have "\<exists>out w. handleConnection toy_env toy_service ?conn = Some (Ok out) \<and> out_status out = ''OK'' \<and>
    out_target out = Some ([8, 8, 8, 8], w) \<and> concat (wout w) = concat (map op_input [OpWrite False [2, 3]]) \<and>
    (concat [] = concat (wout (out_client out)) \<longrightarrow> writes_all \<lparr>wout = [], wplan = []\<rparr> \<longrightarrow>
       (\<exists>c' app'. conv_WriteTo (\<lambda>x. ReadChunk toy_crypto 0 x)
            (NewShadowsocksReader (readBufPool toy_specs) (ConnReader [] EOF) toy_cipher) \<lparr>wout = [], wplan = []\<rparr> 0 =
            Some (Ok (length (contents (tgt_reader toy_target)), None), c', app') \<and>
          concat (wout app') = concat (wout \<lparr>wout = [], wplan = []\<rparr>) @ contents (tgt_reader toy_target)))"
    by (rule tunnel_tcp [where ce = toy_client_env and specs = toy_specs and e = 7 and d = toy_dialer and remoteAddr = "''dns:53''"
          and a = "[1]" and ent = "Inr (\<lambda>_. 0)" and salt = toy_client_salt and ssw = ssw and sw' = sw' and entry = ?entry
          and ?salt2.0 = "map (\<lambda>_. 9) [0..<16]" and env = toy_env and s = toy_service and conn = ?conn,
        unfolded toy_env_simps toy_client_simps entry,
        OF toy_crypto_ok toy_specs refl refl refl toy_keys_ok _ refl _ refl refl refl toy_client_salt run(2) _ _ run(3) link(1,2) _ link(3) _ new
          toy_contract addr toy_dial toy_target_ok _ _ toy_reply_salt])
      (simp_all add: toy_conn_def writes_all_def)
  with run(2,3) show ?thesis by (auto 4 4)
qed

section \<open>Packets\<close>

text \<open>C18: The tunnel for packets, towards the target. When the packet connection of a client with key \<open>i\<close> sends a
  payload to an address, the datagram it hands to its socket makes the server send exactly one packet from the
  client's NAT socket: the payload, to the target the address resolves to, after the packets sent there before.
  The traffic records of the key's user grow by the length of the datagram and by the bytes sent to the target.\<close>

theorem tunnel_udp_up:
  assumes base: "ce_crypto ce = ue_crypto env" "pool_wf pool" "pool_len pool = clientUDPBufferSize"
    and keys: "keys_ok (ue_crypto env) (udp_ciphers s)" "e \<in> set (cl_list (udp_ciphers s))"
      "c = entry_Cipher (cl_entry (udp_ciphers s) e)" "i = ID (cl_entry (udp_ciphers s) e)" "i \<noteq> ''''"
    and client: "ce_ParseAddr ce remote = Some a"
      "packetConn_WriteTo ce ent send c pool k payload remote = Ok (((m, err), Some pkt), pool')"
    and only: "\<And>e'. e' \<in> set (cl_list (udp_ciphers s)) \<Longrightarrow>
      unpacks (ue_crypto env) serverUDPBufferSize pkt (entry_Cipher (cl_entry (udp_ciphers s) e')) \<Longrightarrow> e' = e"
    and target: "ue_SplitAddr env (a @ payload) = Some a" "ue_ResolveUDPAddr env (ue_Addr_String env a) = Inr tgt"
      "udp_targetIPValidator s (udp_IP tgt) = None" "ue_ListenPacket env = None" "ue_WriteTo env payload tgt = Inr n"
    and known: "\<And>p. nat_Get s (ue_String env client) = Some p \<Longrightarrow> nc_cipher (udp_conns s p) = c \<and> nc_keyID (udp_conns s p) = i"
  shows "m = length payload \<and> err = send pkt \<and>
    (\<exists>s' p. serve_packet env s (Inr (pkt, client)) = (False, s') \<and> nat_Get s' (ue_String env client) = Some p \<and>
     nc_cipher (udp_conns s' p) = c \<and>
     nc_sent (udp_conns s' p) =
       (case nat_Get s (ue_String env client) of Some q \<Rightarrow> nc_sent (udp_conns s q) | None \<Rightarrow> []) @ [(tgt, payload)] \<and>
     user_U i (r_RepoList (Rtask (udp_api s'))) = user_U i (r_RepoList (Rtask (udp_api s))) + word_of_nat (length pkt) \<and>
     user_D i (r_RepoList (Rtask (udp_api s'))) = user_D i (r_RepoList (Rtask (udp_api s))) + word_of_nat n)"
proof -
  have ok: "cipher_ok (ce_crypto ce) c" using keys base(1) by (simp add: keys_ok_def)
  obtain salt where sent: "length salt = SaltSize c" "pkt = packet_of (ce_crypto ce) c salt (a @ payload)"
    "m = length payload" "err = send pkt" "length pkt \<le> clientUDPBufferSize"
    by (rule packetConn_WriteTo_sent [OF ok base(2,3) client])
  have "length pkt \<le> serverUDPBufferSize"
    using sent(5) by (simp add: clientUDPBufferSize_def serverUDPBufferSize_def)
  from udp_packet_relayed [OF keys sent(2) [unfolded base(1)] sent(1) this only target known] sent(3,4)
  show ?thesis by simp
qed

theorem tunnel_udp_up_witness:
  "\<exists>m err pkt pool' s' p. packetConn_WriteTo toy_client_env (Inr (\<lambda>_. 0)) (\<lambda>_. None) toy_cipher udpPool 0 [2, 3] ''dns:53'' =
       Ok (((m, err), Some pkt), pool') \<and> m = 2 \<and> serve_packet toy_udp_env toy_udp (Inr (pkt, toy_client)) = (False, s') \<and>
     nc_sent (udp_conns s' p) = [(\<lparr>udp_IP = [8, 8, 8, 8], udp_Port = 53, udp_Zone = ''''\<rparr>, [2, 3])]"
proof -
  have pool: "pool_wf udpPool" "pool_len udpPool = clientUDPBufferSize"
    by (simp_all add: udpPool_def MakePool_def pool_wf_def)
  have ce: "ce_crypto toy_client_env = toy_crypto" "ce_ParseAddr toy_client_env ''dns:53'' = Some [1]"
    by (simp_all add: toy_client_env_def)
  note ok = toy_cipher_ok [folded ce(1)]
  obtain buf0 res pool2 where w: "packetConn_WriteTo toy_client_env (Inr (\<lambda>_. 0)) (\<lambda>_. None) toy_cipher udpPool 0 [2, 3] ''dns:53'' = Ok (res, pool2)"
    "length buf0 = clientUDPBufferSize" "write_packet toy_client_env (Inr (\<lambda>_. 0)) (\<lambda>_. None) toy_cipher buf0 [1] [2, 3] = Ok res"
    by (rule with_buffer [OF pool(1), of "\<lambda>cb. write_packet toy_client_env (Inr (\<lambda>_. 0)) (\<lambda>_. None) toy_cipher cb [1] [2, 3]" 0])
      (use write_packet_total [OF ok, of _ "Inr (\<lambda>_. 0)" "\<lambda>_. None" "[1]" "[2, 3]"] pool(2) ce(2) in \<open>auto simp: packetConn_WriteTo_def\<close>)
  obtain m err pkt where res: "res = ((m, err), Some pkt)"
    using w(3) unfolding write_packet_spec [OF ok w(2)] by (auto simp: clientUDPBufferSize_def Let_def)
  have only: "e' = 7" if "e' \<in> set [7]" for e' :: nat using that by simp
  from tunnel_udp_up [where ce = toy_client_env and env = toy_udp_env and s = toy_udp and e = 7 and client = toy_client
        and a = "[1]" and payload = "[2, 3]" and remote = "''dns:53''" and n = 2
        and tgt = "\<lparr>udp_IP = [8, 8, 8, 8], udp_Port = 53, udp_Zone = ''''\<rparr>", unfolded toy_udp_simps toy_udp_list_simps,
      OF ce(1) pool toy_udp_keys _ refl refl _ ce(2) w(1) [unfolded res] only refl refl _ refl refl] w(1) res
  show ?thesis by (auto simp: toy_udp_simps)
qed

text \<open>C19: The tunnel for packets, back to the client. A packet that the goroutine of a NAT entry sends to the client, and
  that fits the client's buffer of 16 KiB, is returned by the client's \<open>ReadFrom\<close> as the body the target sent,
  with the target's address; if the application's buffer is shorter, it receives the start of the body and
  \<open>ErrShortBuffer\<close>.\<close>

theorem tunnel_udp_down:
  assumes base: "ce_crypto ce = ue_crypto env" "pool_wf pool" "pool_len pool = clientUDPBufferSize"
    and server: "cipher_ok (ue_crypto env) (nc_cipher nc)" "length buffer = serverUDPBufferSize" "ue_entropy env = Inr f"
      "ue_ParseAddr env (ue_String env raddr) = Some src" "length src \<le> maxAddrLen (ue_ParseAddr env)"
      "maxAddrLen (ue_ParseAddr env) \<le> 1000"
    and sent: "timedCopy_packet env write nc buffer (Inr (body, raddr)) = Ok (Copied status l n (Some pkt), nc', buffer')"
    and fits: "length pkt \<le> clientUDPBufferSize" and split: "ce_SplitAddr ce (src @ body) = Some src"
  shows "l = length body \<and>
    (\<exists>pool'. packetConn_ReadFrom ce (nc_cipher nc) pool k (Inr pkt) room =
       Ok ((take room body, Some (newAddr (ce_Addr_String ce src) ''udp''),
            if room < length body then Some ErrShortBuffer else None), pool'))"
proof -
  note whole = downstream_packet_whole [OF server, of body "write"]
  have fit: "length body + 16 + SaltSize (nc_cipher nc) + maxAddrLen (ue_ParseAddr env) \<le> serverUDPBufferSize"
    by (rule ccontr) (use whole sent in auto)
  with whole sent have "l = length body" "Unpack (ce_crypto ce) None pkt (nc_cipher nc) = Ok (src @ body)"
    using base(1) by auto
  with packetConn_ReadFrom_received [OF _ base(2,3) _ fits split, of "nc_cipher nc" k room] server(1) base(1)
  show ?thesis by simp
qed

theorem tunnel_udp_down_witness:
  "\<exists>l n pkt nc' buffer' pool' src. timedCopy_packet toy_udp_env (\<lambda>b. Inr (length b)) toy_natconn (make_bytes 65536) (Inr ([70, 71], toy_client)) =
       Ok (Copied ''OK'' l n (Some pkt), nc', buffer') \<and> l = 2 \<and>
     packetConn_ReadFrom (toy_client_env\<lparr>ce_SplitAddr := \<lambda>b. Some (take 7 b)\<rparr>) toy_cipher udpPool 0 (Inr pkt) 100 =
       Ok (([70, 71], src, None), pool')"
proof -
  let ?ce = "toy_client_env\<lparr>ce_SplitAddr := \<lambda>b. Some (take 7 b)\<rparr>"
  obtain n pkt buffer' where up: "timedCopy_packet toy_udp_env (\<lambda>b. Inr (length b)) toy_natconn (make_bytes 65536) (Inr ([70, 71], toy_client)) =
     Ok (Copied ''OK'' 2 n (Some pkt), onRead 1000 toy_natconn toy_client, buffer')"
    "Unpack toy_crypto None pkt toy_cipher = Ok (make_bytes 7 @ [70, 71])"
    using downstream_packet_whole_witness by blast
  have pool: "pool_wf udpPool" "pool_len udpPool = clientUDPBufferSize"
    by (simp_all add: udpPool_def MakePool_def pool_wf_def)
  have nc: "nc_cipher toy_natconn = toy_cipher" "ue_crypto toy_udp_env = toy_crypto" "ue_entropy toy_udp_env = Inr (\<lambda>_. 9)"
    "ce_crypto ?ce = toy_crypto" "maxAddrLen (ue_ParseAddr toy_udp_env) = 19"
    by (simp_all add: toy_natconn_def toy_udp_env_def toy_client_env_def maxAddrLen_def)
  have len: "length pkt \<le> clientUDPBufferSize"
    using Unpack_length [OF toy_cipher_ok up(2)] by (simp add: clientUDPBufferSize_def)
  have "ue_String toy_udp_env toy_client \<noteq> ''[2001:db8::1]:12345''"
    by (simp add: toy_udp_env_def toy_client_def Itoa_def)
  then have addr: "ue_ParseAddr toy_udp_env (ue_String toy_udp_env toy_client) = Some (make_bytes 7)"
    by (simp add: toy_udp_env_def)
  have "\<exists>pool'. packetConn_ReadFrom ?ce toy_cipher udpPool 0 (Inr pkt) 100 =
      Ok (([70, 71], Some (newAddr (ce_Addr_String ?ce (make_bytes 7)) ''udp''), None), pool')"
    using tunnel_udp_down [where ce = ?ce and env = toy_udp_env and nc = toy_natconn and raddr = toy_client and src = "make_bytes 7"
        and room = 100 and k = 0, unfolded nc, OF refl pool toy_cipher_ok _ refl addr _ _ up(1) len]
    by (simp add: serverUDPBufferSize_def)
  with up(1) show ?thesis by blast
qed

end
