(* ===== verification/Client_Endpoints.thy ===== *)
theory Client_Endpoints
  imports SS_Client
begin

text \<open>
  The endpoints of \<^verbatim>\<open>net/stream.go\<close> and \<^verbatim>\<open>net/packet.go\<close>, through which the client reaches the proxy. The operating
  system's dialer is a parameter: \<^verbatim>\<open>DialContext\<close> of a network and an address.
\<close>

record TCPEndpoint =
  te_DialContext :: "string \<Rightarrow> string \<Rightarrow> goerror + proxy_conn"
  te_RemoteAddr :: string

definition TCPEndpoint_Connect :: "TCPEndpoint \<Rightarrow> goerror + proxy_conn" where
  "TCPEndpoint_Connect e =
     (case te_DialContext e ''tcp'' (te_RemoteAddr e) of Inl err \<Rightarrow> Inl err | Inr conn \<Rightarrow> Inr conn)"

text \<open>Of a packet socket only whether it could be made is kept, as in \<open>packetListener\<close>.\<close>

record UDPEndpoint =
  ude_DialContext :: "string \<Rightarrow> string \<Rightarrow> goerror option"
  ude_RemoteAddr :: string

definition UDPEndpoint_Connect :: "UDPEndpoint \<Rightarrow> goerror option" where
  "UDPEndpoint_Connect e =
     (case ude_DialContext e ''udp'' (ude_RemoteAddr e) of Some err \<Rightarrow> Some err | None \<Rightarrow> None)"

text \<open>A client made of an endpoint and a cipher dials the endpoint's address: if the dialer fails, so does \<open>Dial\<close>, with
  the dialer's error, and no stream is made; a packet listener wraps the error.\<close>

lemma Dial_endpoint_error:
  assumes "NewShadowsocksStreamDialer (Some (TCPEndpoint_Connect e)) (Some c) = Ok d"
    and "te_DialContext e ''tcp'' (te_RemoteAddr e) = Inl err" and "ce_ParseAddr env remoteAddr = Some a"
  shows "client_Dial env ent d remoteAddr = (Fail err, None)"
  using assms by (auto simp: NewShadowsocksStreamDialer_def TCPEndpoint_Connect_def client_Dial_def)

lemma ListenPacket_endpoint:
  assumes "NewShadowsocksPacketListener (Some (UDPEndpoint_Connect e)) (Some c) = Ok l"
  shows "ListenPacket l = (case ude_DialContext e ''udp'' (ude_RemoteAddr e) of
    Some err \<Rightarrow> Fail (ErrorWrap ''Could not connect to endpoint'' err) | None \<Rightarrow> Ok c)"
  using assms by (cases "ude_DialContext e ''udp'' (ude_RemoteAddr e)")
    (auto simp: NewShadowsocksPacketListener_def UDPEndpoint_Connect_def ListenPacket_def)

end
