(* ===== verification/Service_Lifecycle.thy ===== *)
theory Service_Lifecycle
  imports SS_Prelude
begin

text \<open>
  The life of a service: the contract that \<^verbatim>\<open>GracefulStop\<close> relies on, as a locale that the TCP service
  (here) and the UDP service (theory \<^verbatim>\<open>Service_UDP_Run\<close>) both meet, and the model of \<^verbatim>\<open>Serve\<close>, \<^verbatim>\<open>Stop\<close> and
  \<^verbatim>\<open>GracefulStop\<close> of \<^verbatim>\<open>service/tcp.go\<close> as a step relation over the listener, the flag \<^verbatim>\<open>stopped\<close>, the
  \<^verbatim>\<open>WaitGroup\<close> and the goroutines.

  Each critical section of the mutex is one step; accepting a connection and starting its handler are two. A connection's handler is a goroutine that ends at some step;
  what it does meanwhile is the subject of theory \<^verbatim>\<open>Service_TCP\<close>.
\<close>

section \<open>Draining goroutines\<close>

text \<open>A system whose remaining work is counted, where some step always reduces the work that is left. \<^verbatim>\<open>running.Wait\<close>
  returns in the states without work.\<close>

locale draining =
  fixes step :: "'s \<Rightarrow> 's \<Rightarrow> bool" and drain :: "'s \<Rightarrow> bool" and remaining :: "'s \<Rightarrow> nat"
  assumes drain_step: "drain s \<Longrightarrow> step s s' \<Longrightarrow> drain s'"
    and drain_progress: "drain s \<Longrightarrow> 0 < remaining s \<Longrightarrow> \<exists>s'. step s s' \<and> remaining s' < remaining s"
begin

lemma drain_steps: "step\<^sup>*\<^sup>* s s' \<Longrightarrow> drain s \<Longrightarrow> drain s'"
  by (induction rule: rtranclp_induct) (auto intro: drain_step)

lemma drained: "drain s \<Longrightarrow> \<exists>s'. step\<^sup>*\<^sup>* s s' \<and> drain s' \<and> remaining s' = 0"
proof (induction "remaining s" arbitrary: s rule: less_induct)
  case less
  show ?case
  proof (cases "remaining s = 0")
    case True
    with less.prems show ?thesis by blast
  next
    case False
    with drain_progress [OF less.prems] obtain s1 where s1: "step s s1" "remaining s1 < remaining s" by blast
    from less.hyps [OF s1(2) drain_step [OF less.prems s1(1)]] s1(1) show ?thesis
      by (meson converse_rtranclp_into_rtranclp)
  qed
qed

end

text \<open>Where moreover no step adds work, every run is finite up to steps that do no work.\<close>

locale bounded_draining = draining +
  assumes drain_bound: "drain s \<Longrightarrow> step s s' \<Longrightarrow> remaining s' \<le> remaining s"
begin

lemma remaining_steps: "step\<^sup>*\<^sup>* s s' \<Longrightarrow> drain s \<Longrightarrow> remaining s' \<le> remaining s"
proof (induction rule: rtranclp_induct)
  case (step y z)
  then have "drain y" using drain_steps by blast
  from drain_bound [OF this step.hyps(2)] step.IH [OF step.prems] show ?case by simp
qed simp

lemma stays_drained: "step\<^sup>*\<^sup>* s s' \<Longrightarrow> drain s \<Longrightarrow> remaining s = 0 \<Longrightarrow> remaining s' = 0"
  using remaining_steps by fastforce

end

section \<open>The TCP service\<close>

text \<open>The fields of \<^verbatim>\<open>tcpService\<close> that the life cycle uses, the phase of the goroutine that called \<open>Serve\<close>, whether this
  goroutine has a connection for which it has not started a handler, and the number of handlers that have not ended. A listener is \<open>Some False\<close> when it is open and
  \<open>Some True\<close> when it is closed.\<close>

datatype serve_phase = NotServing | Accepting | Served

record tcp_life =
  tl_listener :: "bool option"
  tl_stopped :: bool
  tl_running :: int
  tl_phase :: serve_phase
  tl_accepted :: bool
  tl_handlers :: nat

definition NewTCPService :: tcp_life where
  "NewTCPService = \<lparr>tl_listener = None, tl_stopped = False, tl_running = 0, tl_phase = NotServing, tl_accepted = False, tl_handlers = 0\<rparr>"

text \<open>What \<open>Serve\<close> does before its loop: it closes the listener it was given and returns, or starts to accept.\<close>

datatype serve_start = ServeTwice goerror | ServeStopped | ServeLoop

definition tcp_Serve :: "tcp_life \<Rightarrow> serve_start \<times> tcp_life" where
  "tcp_Serve s =
     (if tl_listener s \<noteq> None then (ServeTwice (ErrorNew ''Serve can only be called once''), s)
      else if tl_stopped s then (ServeStopped, s)
      else (ServeLoop, s\<lparr>tl_listener := Some False, tl_running := tl_running s + 1, tl_phase := Accepting\<rparr>))"

text \<open>An iteration of the loop of \<open>Serve\<close>, in two steps. \<open>ok\<close> is whether \<^verbatim>\<open>AcceptTCP\<close> returned a connection, which a closed
  listener never does. A failed accept ends the loop if the service is stopped and is otherwise only logged. Adding to the
  \<^verbatim>\<open>WaitGroup\<close> and starting the handler comes later: a \<open>Stop\<close> may fall between the two.\<close>

definition tcp_accept :: "tcp_life \<Rightarrow> bool \<Rightarrow> tcp_life" where
  "tcp_accept s ok =
     (if ok then s\<lparr>tl_accepted := True\<rparr>
      else if tl_stopped s then s\<lparr>tl_running := tl_running s - 1, tl_phase := Served\<rparr>
      else s)"

definition tcp_spawn :: "tcp_life \<Rightarrow> tcp_life" where
  "tcp_spawn s = s\<lparr>tl_accepted := False, tl_running := tl_running s + 1, tl_handlers := tl_handlers s + 1\<rparr>"

definition tcp_handled :: "tcp_life \<Rightarrow> tcp_life" where
  "tcp_handled s = s\<lparr>tl_running := tl_running s - 1, tl_handlers := tl_handlers s - 1\<rparr>"

text \<open>\<open>Stop\<close>: whether it closes a listener, and the service.\<close>

definition tcp_Stop :: "tcp_life \<Rightarrow> bool \<times> tcp_life" where
  "tcp_Stop s =
     (let s1 = s\<lparr>tl_stopped := True\<rparr>
      in if tl_listener s1 = None then (False, s1) else (True, s1\<lparr>tl_listener := Some True\<rparr>))"

text \<open>\<open>GracefulStop\<close> returns in a state after \<open>Stop\<close> where the \<^verbatim>\<open>WaitGroup\<close> is zero.\<close>

definition tcp_GracefulStop_returns :: "tcp_life \<Rightarrow> bool" where
  "tcp_GracefulStop_returns s \<longleftrightarrow> tl_stopped s \<and> tl_running s = 0"

inductive tcp_step :: "tcp_life \<Rightarrow> tcp_life \<Rightarrow> bool" where
  serve: "tcp_step s (snd (tcp_Serve s))"
| accepted: "tl_phase s = Accepting \<Longrightarrow> \<not> tl_accepted s \<Longrightarrow> tl_listener s = Some False \<Longrightarrow> tcp_step s (tcp_accept s True)"
| accept_failed: "tl_phase s = Accepting \<Longrightarrow> \<not> tl_accepted s \<Longrightarrow> tcp_step s (tcp_accept s False)"
| spawn: "tl_accepted s \<Longrightarrow> tcp_step s (tcp_spawn s)"
| handled: "0 < tl_handlers s \<Longrightarrow> tcp_step s (tcp_handled s)"
| stop: "tcp_step s (snd (tcp_Stop s))"

inductive_cases tcp_stepE: "tcp_step s s'"

definition tcp_inv :: "tcp_life \<Rightarrow> bool" where
  "tcp_inv s \<longleftrightarrow>
     tl_running s = int (tl_handlers s) + (if tl_phase s = Accepting then 1 else 0) \<and>
     (tl_phase s = NotServing \<longleftrightarrow> tl_listener s = None) \<and>
     (tl_phase s = NotServing \<longrightarrow> tl_handlers s = 0) \<and>
     (tl_accepted s \<longrightarrow> tl_phase s = Accepting) \<and>
     (tl_stopped s \<longrightarrow> tl_listener s \<noteq> Some False) \<and>
     (tl_phase s = Served \<longrightarrow> tl_stopped s)"

lemma tcp_inv_new: "tcp_inv NewTCPService"
  by (simp add: tcp_inv_def NewTCPService_def)

lemma tcp_inv_step: "tcp_step s s' \<Longrightarrow> tcp_inv s \<Longrightarrow> tcp_inv s'"
  by (erule tcp_stepE)
    (auto simp: tcp_inv_def tcp_Serve_def tcp_accept_def tcp_spawn_def tcp_handled_def tcp_Stop_def Let_def split: if_splits)

lemma tcp_reachable_inv: "tcp_step\<^sup>*\<^sup>* NewTCPService s \<Longrightarrow> tcp_inv s"
  by (induction rule: rtranclp_induct) (auto intro: tcp_inv_new tcp_inv_step)

definition tcp_draining :: "tcp_life \<Rightarrow> bool" where
  "tcp_draining s \<longleftrightarrow> tcp_inv s \<and> tl_stopped s"

text \<open>What is left to do: every handler and the loop have to end, and a connection that was accepted has to become a handler first.\<close>

definition tcp_left :: "tcp_life \<Rightarrow> nat" where
  "tcp_left s = nat (tl_running s) + (if tl_accepted s then 2 else 0)"

definition tcp_connections :: "tcp_life \<Rightarrow> nat" where
  "tcp_connections s = tl_handlers s + (if tl_accepted s then 1 else 0)"

lemma tcp_draining_step:
  assumes "tcp_draining s" and "tcp_step s s'"
  shows "tcp_draining s'" "tcp_left s' \<le> tcp_left s" "tcp_connections s' \<le> tcp_connections s"
proof -
  show "tcp_draining s'"
    using assms unfolding tcp_draining_def
    by (auto intro: tcp_inv_step elim!: tcp_stepE)
      (auto simp: tcp_inv_def tcp_Serve_def tcp_accept_def tcp_spawn_def tcp_handled_def tcp_Stop_def Let_def split: if_splits)
  show "tcp_left s' \<le> tcp_left s" "tcp_connections s' \<le> tcp_connections s"
    using assms unfolding tcp_draining_def
    by (auto elim!: tcp_stepE simp: tcp_left_def tcp_connections_def tcp_inv_def tcp_Serve_def tcp_accept_def tcp_spawn_def tcp_handled_def
        tcp_Stop_def Let_def split: if_splits)
qed

interpretation tcp_life: bounded_draining tcp_step tcp_draining tcp_left
proof
  fix s s'
  assume "tcp_draining s" and "tcp_step s s'"
  from tcp_draining_step [OF this] show "tcp_draining s'" and "tcp_left s' \<le> tcp_left s" by simp_all
next
  fix s
  assume s: "tcp_draining s" and "0 < tcp_left s"
  then consider (spawn) "tl_accepted s" | (handler) "0 < tl_handlers s" "\<not> tl_accepted s"
    | (loop) "tl_phase s = Accepting" "tl_handlers s = 0" "\<not> tl_accepted s"
    by (auto simp: tcp_draining_def tcp_inv_def tcp_left_def split: if_splits)
  then show "\<exists>s'. tcp_step s s' \<and> tcp_left s' < tcp_left s"
  proof cases
    case spawn
    with s have "0 < tl_running s" by (simp add: tcp_draining_def tcp_inv_def)
    with tcp_step.spawn [OF spawn] spawn show ?thesis by (force simp: tcp_spawn_def tcp_left_def)
  next
    case handler
    then have "0 < tl_running s" using s by (auto simp: tcp_draining_def tcp_inv_def)
    with tcp_step.handled [OF handler(1)] handler(2) show ?thesis by (force simp: tcp_handled_def tcp_left_def)
  next
    case loop
    then have "0 < tl_running s" using s by (auto simp: tcp_draining_def tcp_inv_def)
    with tcp_step.accept_failed [OF loop(1,3)] loop(3) s show ?thesis by (force simp: tcp_draining_def tcp_accept_def tcp_left_def)
  qed
qed

lemma tcp_left_zero: "tcp_draining s \<Longrightarrow> tcp_left s = 0 \<longleftrightarrow> tl_running s = 0"
  by (auto simp: tcp_draining_def tcp_inv_def tcp_left_def split: if_splits)

section \<open>Properties\<close>

text \<open>C26: The TCP service can always be stopped gracefully. In every state that calls of \<open>Serve\<close> and \<open>Stop\<close>, accepted and
  failed connections and ending handlers can reach, the \<^verbatim>\<open>WaitGroup\<close> counts exactly the serving loop and the
  unfinished handlers and never goes negative. After \<open>Stop\<close> no connection is accepted, and no handler starts but that of a
  connection that had been accepted before; and the service can reach a state where \<open>GracefulStop\<close> returns, after which it stays
  there.\<close>

theorem tcp_graceful_stop:
  assumes "tcp_step\<^sup>*\<^sup>* NewTCPService s"
  shows "tl_running s = int (tl_handlers s) + (if tl_phase s = Accepting then 1 else 0) \<and>
    (tl_stopped s \<longrightarrow>
       (\<forall>s'. tcp_step\<^sup>*\<^sup>* s s' \<longrightarrow> tl_stopped s' \<and>
          tl_handlers s' + (if tl_accepted s' then 1 else 0) \<le> tl_handlers s + (if tl_accepted s then 1 else 0) \<and>
          tl_running s' \<le> tl_running s + (if tl_accepted s then 1 else 0)) \<and>
       (\<exists>s'. tcp_step\<^sup>*\<^sup>* s s' \<and> tcp_GracefulStop_returns s' \<and> (\<forall>s''. tcp_step\<^sup>*\<^sup>* s' s'' \<longrightarrow> tcp_GracefulStop_returns s'')))"
proof (intro conjI impI)
  have inv: "tcp_inv s" using assms by (rule tcp_reachable_inv)
  then show "tl_running s = int (tl_handlers s) + (if tl_phase s = Accepting then 1 else 0)"
    by (simp add: tcp_inv_def)
  assume "tl_stopped s"
  with inv have d: "tcp_draining s" by (simp add: tcp_draining_def)
  show "\<forall>s'. tcp_step\<^sup>*\<^sup>* s s' \<longrightarrow> tl_stopped s' \<and>
      tl_handlers s' + (if tl_accepted s' then 1 else 0) \<le> tl_handlers s + (if tl_accepted s then 1 else 0) \<and>
      tl_running s' \<le> tl_running s + (if tl_accepted s then 1 else 0)"
  proof (intro allI impI)
    fix s' assume "tcp_step\<^sup>*\<^sup>* s s'"
    then have "tcp_draining s' \<and> tcp_connections s' \<le> tcp_connections s \<and> (tl_phase s' = Accepting \<longrightarrow> tl_phase s = Accepting)"
    proof (induction rule: rtranclp_induct)
      case (step y z)
      then have dy: "tcp_draining y" by blast
      have "tl_phase z = Accepting \<longrightarrow> tl_phase y = Accepting"
        using step.hyps(2) dy
        by (auto elim!: tcp_stepE simp: tcp_draining_def tcp_Serve_def tcp_accept_def tcp_spawn_def tcp_handled_def tcp_Stop_def Let_def split: if_splits)
      with tcp_draining_step [OF dy step.hyps(2)] step.IH show ?case by auto
    qed (simp add: d)
    then have "tcp_inv s'" "tl_stopped s'" "tcp_connections s' \<le> tcp_connections s" "tl_phase s' = Accepting \<longrightarrow> tl_phase s = Accepting"
      by (simp_all add: tcp_draining_def)
    with inv show "tl_stopped s' \<and>
        tl_handlers s' + (if tl_accepted s' then 1 else 0) \<le> tl_handlers s + (if tl_accepted s then 1 else 0) \<and>
        tl_running s' \<le> tl_running s + (if tl_accepted s then 1 else 0)"
      by (auto simp: tcp_inv_def tcp_connections_def)
  qed
  from tcp_life.drained [OF d] obtain s' where s': "tcp_step\<^sup>*\<^sup>* s s'" "tcp_draining s'" "tcp_left s' = 0" by blast
  have "tcp_GracefulStop_returns s''" if "tcp_step\<^sup>*\<^sup>* s' s''" for s''
    using tcp_life.stays_drained [OF that s'(2,3)] tcp_life.drain_steps [OF that s'(2)] tcp_left_zero
    by (simp add: tcp_GracefulStop_returns_def tcp_draining_def)
  with s'(1) show "\<exists>s'. tcp_step\<^sup>*\<^sup>* s s' \<and> tcp_GracefulStop_returns s' \<and> (\<forall>s''. tcp_step\<^sup>*\<^sup>* s' s'' \<longrightarrow> tcp_GracefulStop_returns s'')"
    by blast
qed

text \<open>One handler runs and a second connection was accepted when \<open>Stop\<close> is called.\<close>

theorem tcp_graceful_stop_witness:
  "\<exists>s'. tcp_step\<^sup>*\<^sup>* \<lparr>tl_listener = Some True, tl_stopped = True, tl_running = 2, tl_phase = Accepting, tl_accepted = True, tl_handlers = 1\<rparr> s' \<and>
     tcp_GracefulStop_returns s'"
proof -
  let ?s1 = "snd (tcp_Serve NewTCPService)"
  let ?s2 = "tcp_spawn (tcp_accept ?s1 True)"
  let ?s3 = "tcp_accept ?s2 True"
  note defs = tcp_Serve_def NewTCPService_def tcp_accept_def tcp_spawn_def
  have "tcp_step NewTCPService ?s1" by (rule tcp_step.serve)
  moreover have "tcp_step ?s1 (tcp_accept ?s1 True)" by (rule tcp_step.accepted) (simp_all add: defs)
  moreover have "tcp_step (tcp_accept ?s1 True) ?s2" by (rule tcp_step.spawn) (simp add: defs)
  moreover have "tcp_step ?s2 ?s3" by (rule tcp_step.accepted) (simp_all add: defs)
  moreover have "tcp_step ?s3 (snd (tcp_Stop ?s3))" by (rule tcp_step.stop)
  ultimately have "tcp_step\<^sup>*\<^sup>* NewTCPService (snd (tcp_Stop ?s3))" by auto
  from tcp_graceful_stop [OF this] show ?thesis by (auto simp: tcp_Stop_def defs Let_def)
qed

end
