(* ===== verification/Service_UDP_Run.thy ===== *)
theory Service_UDP_Run
  imports Service_UDP Service_Lifecycle
begin

text \<open>
  The UDP service of \<^verbatim>\<open>service/udp.go\<close> over time: the deadlines of a NAT connection over any sequence of packets, and the
  service as a step relation between the serving loop, the goroutines of the NAT entries and \<^verbatim>\<open>Stop\<close>, with the
  invariant of the NAT table and the proof that \<^verbatim>\<open>GracefulStop\<close> gets to return.
\<close>

section \<open>Deadlines of a NAT connection\<close>

datatype nat_event = WriteEv int UDPAddr | ReadEv int UDPAddr

fun apply_event :: "natconn \<Rightarrow> nat_event \<Rightarrow> natconn" where
  "apply_event c (WriteEv t a) = onWrite t c a"
| "apply_event c (ReadEv t a) = onRead t c a"

fun event_time :: "nat_event \<Rightarrow> int" where
  "event_time (WriteEv t a) = t"
| "event_time (ReadEv t a) = t"

abbreviation nat_events :: "natconn \<Rightarrow> nat_event list \<Rightarrow> natconn" where
  "nat_events \<equiv> foldl apply_event"

definition fresh_natconn :: "natconn \<Rightarrow> bool" where
  "fresh_natconn c \<longleftrightarrow> nc_readDeadline c = None \<and> \<not> nc_fastClose c \<and> nc_deadline c = None"

text \<open>What holds after some events, the last not after \<open>now\<close>: while only DNS queries were sent the recorded deadline is
  at most 17 seconds away; from the first other packet on the connection cannot be closed early, and its
  deadline is at least the NAT timeout after every such packet.\<close>

definition nat_deadline_inv :: "int \<Rightarrow> int \<Rightarrow> nat_event list \<Rightarrow> natconn \<Rightarrow> bool" where
  "nat_deadline_inv T now evs c \<longleftrightarrow>
     nc_defaultTimeout c = T \<and>
     (if \<exists>t a. WriteEv t a \<in> set evs \<and> \<not> isDNS a
      then nc_fastClose c \<and> nc_deadline c = nc_readDeadline c \<and>
           (\<exists>d. nc_readDeadline c = Some d \<and> (\<forall>t a. WriteEv t a \<in> set evs \<and> \<not> isDNS a \<longrightarrow> t + T \<le> d))
      else \<forall>d. nc_readDeadline c = Some d \<longrightarrow> d \<le> now + 17 * second)"

lemma nat_deadline_inv_step:
  assumes "nat_deadline_inv T now evs c" and "17 * second < T" and "now \<le> event_time ev"
  shows "nat_deadline_inv T (event_time ev) (evs @ [ev]) (apply_event c ev)"
proof (cases ev)
  case (WriteEv t a)
  show ?thesis
  proof (cases "\<exists>t a. WriteEv t a \<in> set evs \<and> \<not> isDNS a")
    case True
    with assms WriteEv show ?thesis
      by (auto simp: nat_deadline_inv_def onWrite_def Let_def) (blast, blast)
  next
    case False
    with assms WriteEv show ?thesis
      by (auto simp: nat_deadline_inv_def onWrite_def Let_def split: option.splits)
  qed
next
  case (ReadEv t a)
  with assms show ?thesis
    by (auto simp: nat_deadline_inv_def onRead_def Let_def split: if_splits)
qed

lemma nat_deadline_inv_run:
  assumes "nat_deadline_inv T now evs0 c" and "17 * second < T" and "sorted (now # map event_time evs)"
  shows "\<exists>now'. nat_deadline_inv T now' (evs0 @ evs) (nat_events c evs)"
  using assms
proof (induction evs arbitrary: now evs0 c)
  case (Cons ev evs)
  have "nat_deadline_inv T (event_time ev) (evs0 @ [ev]) (apply_event c ev)"
    using Cons.prems by (intro nat_deadline_inv_step) auto
  from Cons.IH [OF this Cons.prems(2)] Cons.prems(3) show ?case by simp
qed auto

text \<open>C37: The deadlines of a NAT connection. Over any sequence of packets in time order, with a NAT timeout of more than 17
  seconds: (1) after a packet to a port other than 53 the connection stays open for at least the NAT timeout,
  whatever else is sent and received; (2) a connection that has sent one DNS query is due 17 seconds later, and
  is due at once when the first packet it receives comes from port 53; (3) after a second packet, or one that is
  not a DNS query, no answer shortens the deadline.\<close>

theorem nat_deadlines:
  assumes "fresh_natconn c" and "nc_defaultTimeout c = T" and "17 * second < T" and "sorted (map event_time evs)"
  shows "(WriteEv t a \<in> set evs \<longrightarrow> \<not> isDNS a \<longrightarrow> (\<exists>d. nc_deadline (nat_events c evs) = Some d \<and> t + T \<le> d)) \<and>
    (isDNS a \<longrightarrow> nc_deadline (nat_events c [WriteEv t a]) = Some (t + 17 * second)) \<and>
    (isDNS a \<longrightarrow> isDNS b \<longrightarrow> nc_deadline (nat_events c [WriteEv t a, ReadEv t' b]) = Some t') \<and>
    (nc_readDeadline (nat_events c evs) \<noteq> None \<or> \<not> isDNS a \<longrightarrow>
       nc_deadline (onRead t' (nat_events c (evs @ [WriteEv t a])) b) = nc_deadline (nat_events c (evs @ [WriteEv t a])))"
proof (intro conjI impI)
  show "\<exists>d. nc_deadline (nat_events c evs) = Some d \<and> t + T \<le> d" if "WriteEv t a \<in> set evs" "\<not> isDNS a"
  proof -
    let ?now = "event_time (hd evs)"
    have "nat_deadline_inv T ?now [] c"
      using assms(1,2) by (simp add: nat_deadline_inv_def fresh_natconn_def)
    moreover have "sorted (?now # map event_time evs)"
      using assms(4) by (cases evs) auto
    ultimately obtain now' where "nat_deadline_inv T now' evs (nat_events c evs)"
      using nat_deadline_inv_run [of T ?now "[]" c evs] assms(3) by auto
    with that show ?thesis by (auto simp: nat_deadline_inv_def split: if_splits)
  qed
qed (use assms(1) in \<open>auto simp: fresh_natconn_def onWrite_def onRead_def Let_def\<close>)

theorem nat_deadlines_witness:
  "nc_deadline (nat_events toy_natconn [WriteEv 5 \<lparr>udp_IP = [8, 8, 8, 8], udp_Port = 53, udp_Zone = ''''\<rparr>,
      ReadEv 9 \<lparr>udp_IP = [8, 8, 8, 8], udp_Port = 53, udp_Zone = ''''\<rparr>]) = Some 9"
  using nat_deadlines [of toy_natconn "300 * second" "[]" 5 "\<lparr>udp_IP = [8, 8, 8, 8], udp_Port = 53, udp_Zone = ''''\<rparr>"
      "\<lparr>udp_IP = [8, 8, 8, 8], udp_Port = 53, udp_Zone = ''''\<rparr>" 9]
  by (simp add: isDNS_iff fresh_natconn_def toy_natconn_def second_def)

section \<open>The service over time\<close>

text \<open>The service, the phase of the goroutine that called \<open>Serve\<close>, the goroutines of NAT entries whose \<open>timedCopy\<close> has
  returned but which have not removed their entry yet, their buffers, and the clock.\<close>

record udp_run =
  ur_service :: udpService
  ur_phase :: serve_phase
  ur_exiting :: "nat set"
  ur_bufs :: "nat \<Rightarrow> bytes"
  ur_clock :: int

definition udp_Serve :: "udpService \<Rightarrow> serve_start \<times> udpService" where
  "udp_Serve s =
     (if udp_clientConn s then (ServeTwice (ErrorNew ''Serve can only be called once''), s)
      else if udp_stopped s then (ServeStopped, s)
      else (ServeLoop, newNATmap (s\<lparr>udp_clientConn := True, udp_running := udp_running s + 1\<rparr>)))"

lemma udp_Serve_start:
  "udp_keyConn s = Map.empty \<Longrightarrow> udp_Serve s =
     (if udp_clientConn s then (ServeTwice (ErrorNew ''Serve can only be called once''), s)
      else if udp_stopped s then (ServeStopped, s)
      else (ServeLoop, s\<lparr>udp_clientConn := True, udp_running := udp_running s + 1\<rparr>))"
  by (simp add: udp_Serve_def newNATmap_def)

text \<open>The end of \<open>Serve\<close>: the deferred \<^verbatim>\<open>nm.Close\<close> and \<^verbatim>\<open>running.Done\<close>.\<close>

definition udp_Serve_end :: "int \<Rightarrow> udpService \<Rightarrow> udpService" where
  "udp_Serve_end now s = (let s1 = nat_Close now s in s1\<lparr>udp_running := udp_running s1 - 1\<rparr>)"

text \<open>\<open>Stop\<close>: whether it closes the client connection, and the service.\<close>

definition udp_Stop :: "udpService \<Rightarrow> bool \<times> udpService" where
  "udp_Stop s = (udp_clientConn s, s\<lparr>udp_stopped := True\<rparr>)"

definition udp_GracefulStop_returns :: "udpService \<Rightarrow> bool" where
  "udp_GracefulStop_returns s \<longleftrightarrow> udp_stopped s \<and> udp_running s = 0"

text \<open>A read from the socket of a NAT connection whose deadline has passed times out.\<close>

definition past_deadline :: "int \<Rightarrow> natconn \<Rightarrow> bool" where
  "past_deadline now c \<longleftrightarrow> (case nc_deadline c of Some d \<Rightarrow> d \<le> now | None \<Rightarrow> False)"

text \<open>Every supported cipher has a salt of at most 32 bytes.\<close>

definition keys_sized :: "cipherList \<Rightarrow> bool" where
  "keys_sized cl \<longleftrightarrow> (\<forall>e \<in> set (cl_list cl). SaltSize (entry_Cipher (cl_entry cl e)) \<le> 32)"

text \<open>The steps. Time passes between them; the serving loop handles what it reads, which is an error once \<open>Stop\<close> has
  closed the connection; every NAT entry's goroutine handles what it reads; the list of keys, which the TCP
  service and the server share, changes at any time.\<close>

inductive udp_step :: "udp_run \<Rightarrow> udp_run \<Rightarrow> bool" where
  serve: "udp_Serve (ur_service st) = (r, s') \<Longrightarrow> ur_phase st = NotServing \<or> r \<noteq> ServeLoop \<Longrightarrow>
    udp_step st (st\<lparr>ur_service := s', ur_phase := if r = ServeLoop then Accepting else ur_phase st\<rparr>)"
| packet: "ur_phase st = Accepting \<Longrightarrow> ur_clock st \<le> ue_now env \<Longrightarrow> \<not> udp_stopped (ur_service st) \<or> isl r \<Longrightarrow>
    serve_packet env (ur_service st) r = (False, s') \<Longrightarrow>
    udp_step st (st\<lparr>ur_service := s', ur_clock := ue_now env\<rparr>)"
| serve_end: "ur_phase st = Accepting \<Longrightarrow> ur_clock st \<le> ue_now env \<Longrightarrow>
    serve_packet env (ur_service st) (Inl err) = (True, s') \<Longrightarrow>
    udp_step st (st\<lparr>ur_service := udp_Serve_end (ue_now env) s', ur_phase := Served, ur_clock := ue_now env\<rparr>)"
| copied: "udp_gors (ur_service st) p = Some key \<Longrightarrow> p \<notin> ur_exiting st \<Longrightarrow> ur_clock st \<le> ue_now env \<Longrightarrow>
    past_deadline (ue_now env) (udp_conns (ur_service st) p) \<longrightarrow> r = Inl (NetError True) \<Longrightarrow>
    timedCopy_step env write (ur_service st) p (ur_bufs st p) r = Ok (False, s', pkt') \<Longrightarrow>
    udp_step st (st\<lparr>ur_service := s', ur_bufs := (ur_bufs st)(p := pkt'), ur_clock := ue_now env\<rparr>)"
| expired: "udp_gors (ur_service st) p = Some key \<Longrightarrow> p \<notin> ur_exiting st \<Longrightarrow> ur_clock st \<le> ue_now env \<Longrightarrow>
    timedCopy_step env write (ur_service st) p (ur_bufs st p) (Inl (NetError True)) = Ok (True, s', pkt') \<Longrightarrow>
    udp_step st (st\<lparr>ur_service := s', ur_exiting := insert p (ur_exiting st), ur_clock := ue_now env\<rparr>)"
| removed: "udp_gors (ur_service st) p = Some key \<Longrightarrow> p \<in> ur_exiting st \<Longrightarrow>
    udp_step st (st\<lparr>ur_service := snd (nat_finish (ur_service st) p key), ur_exiting := ur_exiting st - {p}\<rparr>)"
| stop: "udp_step st (st\<lparr>ur_service := snd (udp_Stop (ur_service st))\<rparr>)"
| keys: "keys_sized cl \<Longrightarrow> udp_step st (st\<lparr>ur_service := (ur_service st)\<lparr>udp_ciphers := cl\<rparr>\<rparr>)"

inductive_cases udp_stepE: "udp_step st st'"

definition udp_initial :: "udp_run \<Rightarrow> bool" where
  "udp_initial st \<longleftrightarrow>
     (\<exists>T cl m api2 store v. keys_sized cl \<and>
        ur_service st = udp_SetTargetIPValidator (NewUDPService T cl m api2 store) v) \<and> ur_phase st = NotServing \<and> ur_exiting st = {} \<and>
     (\<forall>p. length (ur_bufs st p) = serverUDPBufferSize)"

text \<open>The invariant of the NAT table.\<close>

definition nat_inv :: "udpService \<Rightarrow> bool" where
  "nat_inv s \<longleftrightarrow>
     finite (dom (udp_gors s)) \<and>
     (\<forall>p key. udp_gors s p = Some key \<longleftrightarrow> udp_keyConn s key = Some p) \<and>
     (\<forall>p \<in> dom (udp_gors s). p < udp_fresh s)"

definition sent_inv :: "udpService \<Rightarrow> bool" where
  "sent_inv s \<longleftrightarrow> (\<forall>p < udp_fresh s. \<forall>(t, d) \<in> set (nc_sent (udp_conns s p)). udp_targetIPValidator s (udp_IP t) = None)"

section \<open>Invariants\<close>

lemma nat_inv_key:
  assumes "nat_inv s" and "udp_keyConn s key = Some p"
  shows "udp_gors s p = Some key" and "p < udp_fresh s"
  using assms by (auto simp: nat_inv_def dom_def)

text \<open>The entries and the goroutines are equally many.\<close>

lemma nat_inv_card:
  assumes "nat_inv s"
  shows "card (dom (udp_keyConn s)) = card (dom (udp_gors s))"
proof (rule bij_betw_same_card)
  have pairs: "udp_gors s p = Some key \<longleftrightarrow> udp_keyConn s key = Some p" for p key using assms by (simp add: nat_inv_def)
  show "bij_betw (\<lambda>key. the (udp_keyConn s key)) (dom (udp_keyConn s)) (dom (udp_gors s))"
  proof (rule bij_betwI')
    fix x y
    assume "x \<in> dom (udp_keyConn s)" "y \<in> dom (udp_keyConn s)"
    then obtain p q where "udp_keyConn s x = Some p" "udp_keyConn s y = Some q" by blast
    with pairs [of p x] pairs [of q y] show "(the (udp_keyConn s x) = the (udp_keyConn s y)) = (x = y)" by auto
  next
    fix x
    assume "x \<in> dom (udp_keyConn s)"
    then obtain p where "udp_keyConn s x = Some p" by blast
    with pairs [of p x] show "the (udp_keyConn s x) \<in> dom (udp_gors s)" by auto
  next
    fix p
    assume "p \<in> dom (udp_gors s)"
    then obtain key where "udp_gors s p = Some key" by blast
    with pairs [of p key] show "\<exists>x \<in> dom (udp_keyConn s). p = the (udp_keyConn s x)" by (intro bexI [of _ key]) auto
  qed
qed

text \<open>The NAT entries that the metrics show as added and not removed.\<close>

definition nat_live :: "udpService \<Rightarrow> int" where
  "nat_live s = udpAddedNatEntries (udp_m s) - udpRemovedNatEntries (udp_m s)"

text \<open>Handling a packet either changes one connection, or adds one entry with its goroutine.\<close>

definition same_nat :: "udpService \<Rightarrow> udpService \<Rightarrow> bool" where
  "same_nat s s' \<longleftrightarrow>
     udp_keyConn s' = udp_keyConn s \<and> udp_gors s' = udp_gors s \<and> udp_fresh s' = udp_fresh s \<and>
     udp_running s' = udp_running s \<and> udp_targetIPValidator s' = udp_targetIPValidator s \<and>
     udp_stopped s' = udp_stopped s \<and> udp_clientConn s' = udp_clientConn s \<and> nat_live s' = nat_live s"

definition added_nat :: "string \<Rightarrow> udpService \<Rightarrow> udpService \<Rightarrow> bool" where
  "added_nat key s s' \<longleftrightarrow>
     udp_keyConn s' = (udp_keyConn s)(key \<mapsto> udp_fresh s) \<and> udp_gors s' = (udp_gors s)(udp_fresh s \<mapsto> key) \<and>
     udp_fresh s' = udp_fresh s + 1 \<and> udp_running s' = udp_running s + 1 \<and>
     udp_targetIPValidator s' = udp_targetIPValidator s \<and>
     udp_stopped s' = udp_stopped s \<and> udp_clientConn s' = udp_clientConn s \<and> nat_live s' = nat_live s + 1"

lemmas nat_change_defs = same_nat_def added_nat_def

lemma same_nat_refl [simp]: "same_nat s s"
  by (simp add: same_nat_def)

lemma validatePacket_permitted:
  "validatePacket env validator b = Inr (payload, tgt) \<Longrightarrow> validator (udp_IP tgt) = None"
  by (auto simp: validatePacket_def split: option.splits sum.splits)

lemma forward_payload_sent:
  assumes "forward_payload env s p v payload tgt = (v', s')" and "udp_targetIPValidator s (udp_IP tgt) = None" and "sent_inv s"
  shows "same_nat s s' \<and> sent_inv s'"
proof -
  define c' where "c' = fst (nat_WriteTo (ue_now env) (udp_conns s p) payload tgt (ue_WriteTo env payload tgt))"
  have s': "s' = s\<lparr>udp_conns := (udp_conns s)(p := c')\<rparr>"
    using assms(1) by (auto simp: forward_payload_def Let_def c'_def split: sum.splits prod.splits)
  have c': "set (nc_sent c') \<subseteq> insert (tgt, payload) (set (nc_sent (udp_conns s p)))"
    by (auto simp: c'_def nat_WriteTo_def Let_def split: sum.splits)
  have "udp_targetIPValidator s (udp_IP t) = None"
    if "q < udp_fresh s" "(t, d) \<in> set (nc_sent (udp_conns s' q))" for q t d
    using that assms(2,3) c' s' by (auto simp: sent_inv_def split: if_splits)
  then show ?thesis using s' by (auto simp: same_nat_def sent_inv_def nat_live_def)
qed

lemma forward_known_sent:
  assumes "forward_known env s p b = (v, s')" and "sent_inv s"
  shows "same_nat s s' \<and> sent_inv s'"
proof (cases "s' = s")
  case False
  with assms(1) obtain v1 textData payload tgt where
    valid: "validatePacket env (udp_targetIPValidator s) textData = Inr (payload, tgt)" and
    fwd: "forward_payload env s p v1 payload tgt = (v, s')"
    by (auto simp: forward_known_def Let_def split: result.splits sum.splits)
  have "udp_targetIPValidator s (udp_IP tgt) = None" using valid by (rule validatePacket_permitted)
  from forward_payload_sent [OF fwd this assms(2)] show ?thesis .
qed (use assms in simp)

lemma forward_new_sent:
  assumes "forward_new env s b a = (v, s')" and "sent_inv s"
  shows "(same_nat s s' \<or> added_nat (ue_String env a) s s') \<and> sent_inv s'"
proof -
  obtain r cl where fk: "findAccessKeyUDP (ue_crypto env) (udp_IP a) serverUDPBufferSize b (udp_ciphers s) = (r, cl)"
    by (cases "findAccessKeyUDP (ue_crypto env) (udp_IP a) serverUDPBufferSize b (udp_ciphers s)")
  have keep: "same_nat s (s\<lparr>udp_ciphers := cl\<rparr>)" "sent_inv (s\<lparr>udp_ciphers := cl\<rparr>)"
    using assms(2) by (simp_all add: same_nat_def sent_inv_def nat_live_def)
  show ?thesis
  proof (cases "\<exists>textData keyID c payload tgt. r = Ok (textData, keyID, c) \<and>
      validatePacket env (udp_targetIPValidator s) textData = Inr (payload, tgt) \<and> ue_ListenPacket env = None")
    case False
    with assms(1) fk have "s' = s\<lparr>udp_ciphers := cl\<rparr>"
      by (auto simp: forward_new_def Let_def split: result.splits sum.splits option.splits)
    with keep show ?thesis by simp
  next
    case True
    then obtain textData keyID c payload tgt where r: "r = Ok (textData, keyID, c)"
      and valid: "validatePacket env (udp_targetIPValidator s) textData = Inr (payload, tgt)" and listen: "ue_ListenPacket env = None"
      by blast
    define s1 where "s1 = snd (nat_Add (s\<lparr>udp_ciphers := cl\<rparr>) (ue_String env a) c
      (fst (GetLocation (ue_country env) (ue_host_ip env) (ue_String env a))) keyID)"
    have s1: "added_nat (ue_String env a) s s1"
      by (simp add: s1_def added_nat_def nat_Add_def nat_set_def nat_live_def AddUDPNatEntry_def Let_def)
    have fwd: "\<exists>v1 p. forward_payload env s1 p v1 payload tgt = (v, s')"
      using assms(1) fk r valid listen
      by (auto simp: forward_new_def Let_def s1_def no_forward_def split: prod.splits)
    have conns: "udp_conns s1 q = (if q = udp_fresh s then udp_conns s1 (udp_fresh s) else udp_conns s q)"
      "nc_sent (udp_conns s1 (udp_fresh s)) = []" for q
      by (simp_all add: s1_def nat_Add_def nat_set_def Let_def)
    have "sent_inv s1"
      unfolding sent_inv_def
    proof (intro allI impI ballI, clarify)
      fix q t d
      assume q: "q < udp_fresh s1" and mem: "(t, d) \<in> set (nc_sent (udp_conns s1 q))"
      then have "q \<noteq> udp_fresh s" using conns(2) by auto
      then have "q < udp_fresh s" "(t, d) \<in> set (nc_sent (udp_conns s q))"
        using q mem s1 conns(1) [of q] by (auto simp: added_nat_def)
      with assms(2) have "udp_targetIPValidator s (udp_IP t) = None" by (auto simp: sent_inv_def)
      with s1 show "udp_targetIPValidator s1 (udp_IP t) = None" by (simp add: added_nat_def)
    qed
    moreover have "udp_targetIPValidator s1 (udp_IP tgt) = None"
      using validatePacket_permitted [OF valid] s1 by (simp add: added_nat_def)
    ultimately have "same_nat s1 s' \<and> sent_inv s'" using fwd forward_payload_sent by blast
    with s1 have "added_nat (ue_String env a) s s'" "sent_inv s'" by (simp_all add: nat_change_defs)
    then show ?thesis by simp
  qed
qed

lemma serve_packet_nat:
  assumes "serve_packet env s r = (b, s')" and "sent_inv s"
  shows "(same_nat s s' \<or> (\<exists>key. udp_keyConn s key = None \<and> added_nat key s s')) \<and> sent_inv s' \<and> (b \<longleftrightarrow> isl r \<and> udp_stopped s)"
proof (cases r)
  case (Inl e)
  with assms show ?thesis by (auto simp: serve_packet_def report_packet_def split: if_splits)
next
  case (Inr x)
  obtain d a where x: "x = (d, a)" by (cases x)
  let ?d = "take serverUDPBufferSize d"
  obtain v s1 where fwd: "(case nat_Get s (ue_String env a) of None \<Rightarrow> forward_new env s ?d a | Some p \<Rightarrow> forward_known env s p ?d) = (v, s1)"
    by (cases "case nat_Get s (ue_String env a) of None \<Rightarrow> forward_new env s ?d a | Some p \<Rightarrow> forward_known env s p ?d")
  obtain s2 where s2: "report_packet env s1 (length ?d) (Some a) v = Ok s2" by (rule report_packet_ok)
  have s': "s' = s2" "\<not> b"
    using assms(1) fwd s2 by (simp_all add: serve_packet_def Inr x Let_def)
  have "(same_nat s s1 \<or> (\<exists>key. udp_keyConn s key = None \<and> added_nat key s s1)) \<and> sent_inv s1"
  proof (cases "udp_keyConn s (ue_String env a)")
    case None
    with fwd have "forward_new env s ?d a = (v, s1)" by (simp add: nat_Get_def)
    from forward_new_sent [OF this assms(2)] None show ?thesis by blast
  next
    case (Some p)
    with fwd have "forward_known env s p ?d = (v, s1)" by (simp add: nat_Get_def)
    from forward_known_sent [OF this assms(2)] show ?thesis by blast
  qed
  moreover have "same_nat s1 s2" "udp_conns s2 = udp_conns s1"
    using report_packet_keeps [OF s2] by (simp_all add: same_nat_def nat_live_def)
  ultimately show ?thesis using s' Inr by (auto simp: nat_change_defs sent_inv_def)
qed

text \<open>The ciphers of the entries come from the list of keys.\<close>

lemma keys_ok_sized: "keys_ok cr cl \<Longrightarrow> keys_sized cl"
  by (auto simp: keys_ok_def keys_sized_def cipher_ok_def)

definition salts_inv :: "udpService \<Rightarrow> bool" where
  "salts_inv s \<longleftrightarrow> keys_sized (udp_ciphers s) \<and> (\<forall>p \<in> dom (udp_gors s). SaltSize (nc_cipher (udp_conns s p)) \<le> 32)"

lemma findKeyUDP_mem: "findKeyUDP_loop cr entries dst src es = Ok (Some (e, buf)) \<Longrightarrow> e \<in> set es"
  by (induction es) (auto split: result.splits)

lemma keys_sized_mark: "keys_sized cl \<Longrightarrow> keys_sized (MarkUsedByClientIP cl e p)"
  using port_ciphers.mark_elements [of cl e p] by (auto simp: keys_sized_def dest!: mset_eq_setD)

lemma findAccessKeyUDP_sized:
  assumes "findAccessKeyUDP cr p dst src cl = (r, cl')" and "keys_sized cl"
  shows "keys_sized cl' \<and> (case r of Ok (buf, i, c) \<Rightarrow> SaltSize c \<le> 32 | _ \<Rightarrow> True)"
proof (cases "findKeyUDP_loop cr (cl_entry cl) dst src (SnapshotForClientIP cl p)")
  case (Ok o')
  show ?thesis
  proof (cases o')
    case (Some eb)
    obtain e b where eb: "eb = (e, b)" by (cases eb)
    then have "e \<in> set (cl_list cl)"
      using findKeyUDP_mem [OF Ok [unfolded Some eb]] port_ciphers.snapshot_set [of cl p] by simp
    with assms Ok Some eb keys_sized_mark [OF assms(2)] show ?thesis
      by (auto simp: findAccessKeyUDP_def keys_sized_def)
  qed (use assms Ok in \<open>auto simp: findAccessKeyUDP_def\<close>)
qed (use assms in \<open>auto simp: findAccessKeyUDP_def\<close>)

lemma forward_payload_salts:
  assumes "forward_payload env s p v payload tgt = (v', s')" and "salts_inv s"
  shows "salts_inv s'"
proof -
  define c' where "c' = fst (nat_WriteTo (ue_now env) (udp_conns s p) payload tgt (ue_WriteTo env payload tgt))"
  have "s' = s\<lparr>udp_conns := (udp_conns s)(p := c')\<rparr>"
    using assms(1) by (auto simp: forward_payload_def Let_def c'_def split: sum.splits prod.splits)
  moreover have "nc_cipher c' = nc_cipher (udp_conns s p)"
    by (auto simp: c'_def nat_WriteTo_def Let_def split: sum.splits)
  ultimately show ?thesis using assms(2) by (simp add: salts_inv_def)
qed

lemma forward_new_salts:
  assumes "forward_new env s b a = (v, s')" and "salts_inv s"
  shows "salts_inv s'"
proof -
  obtain r cl where fk: "findAccessKeyUDP (ue_crypto env) (udp_IP a) serverUDPBufferSize b (udp_ciphers s) = (r, cl)"
    by (cases "findAccessKeyUDP (ue_crypto env) (udp_IP a) serverUDPBufferSize b (udp_ciphers s)")
  have sized: "keys_sized cl" "\<And>buf i c. r = Ok (buf, i, c) \<Longrightarrow> SaltSize c \<le> 32"
    using findAccessKeyUDP_sized [OF fk] assms(2) by (auto simp: salts_inv_def)
  then have cl: "salts_inv (s\<lparr>udp_ciphers := cl\<rparr>)" using assms(2) by (simp add: salts_inv_def)
  have add: "salts_inv (snd (nat_Add (s\<lparr>udp_ciphers := cl\<rparr>) key c loc i))" if "SaltSize c \<le> 32" for key c loc i
    using cl that by (auto simp: salts_inv_def nat_Add_def nat_set_def Let_def)
  show ?thesis
  proof (cases "s' = s\<lparr>udp_ciphers := cl\<rparr>")
    case False
    with assms(1) fk obtain buf i c v1 payload tgt p loc s1 where "r = Ok (buf, i, c)"
      "nat_Add (s\<lparr>udp_ciphers := cl\<rparr>) (ue_String env a) c loc i = (p, s1)"
      "forward_payload env s1 p v1 payload tgt = (v, s')"
      by (auto simp: forward_new_def Let_def split: result.splits sum.splits option.splits prod.splits)
    with add [of c "ue_String env a" loc i] sized(2) show ?thesis by (auto dest: forward_payload_salts)
  qed (use cl in simp)
qed

lemma forward_known_salts:
  assumes "forward_known env s p b = (v, s')" and "salts_inv s"
  shows "salts_inv s'"
proof (cases "s' = s")
  case False
  with assms(1) obtain v1 payload tgt where "forward_payload env s p v1 payload tgt = (v, s')"
    by (auto simp: forward_known_def Let_def split: result.splits sum.splits)
  with assms(2) show ?thesis by (metis forward_payload_salts)
qed (use assms in simp)

lemma serve_packet_salts:
  assumes "serve_packet env s r = (b, s')" and "salts_inv s"
  shows "salts_inv s'"
proof (cases r)
  case (Inl e)
  with assms show ?thesis by (auto simp: serve_packet_def report_packet_def split: if_splits)
next
  case (Inr x)
  obtain d a where x: "x = (d, a)" by (cases x)
  let ?d = "take serverUDPBufferSize d"
  obtain v s1 where fwd: "(case nat_Get s (ue_String env a) of None \<Rightarrow> forward_new env s ?d a | Some p \<Rightarrow> forward_known env s p ?d) = (v, s1)"
    by (cases "case nat_Get s (ue_String env a) of None \<Rightarrow> forward_new env s ?d a | Some p \<Rightarrow> forward_known env s p ?d")
  obtain s2 where s2: "report_packet env s1 (length ?d) (Some a) v = Ok s2" by (rule report_packet_ok)
  have "s' = s2" using assms(1) fwd s2 by (simp add: serve_packet_def Inr x Let_def)
  moreover have "salts_inv s1"
    using fwd forward_new_salts [OF _ assms(2)] forward_known_salts [OF _ assms(2)] by (auto split: option.splits)
  ultimately show ?thesis using report_packet_keeps [OF s2] by (simp add: salts_inv_def)
qed

definition udp_inv :: "udp_run \<Rightarrow> bool" where
  "udp_inv st \<longleftrightarrow>
     (let s = ur_service st in
      nat_inv s \<and> sent_inv s \<and> salts_inv s \<and> ur_exiting st \<subseteq> dom (udp_gors s) \<and>
      udp_running s = int (card (dom (udp_gors s))) + (if ur_phase st = Accepting then 1 else 0) \<and>
      (ur_phase st = NotServing \<longleftrightarrow> \<not> udp_clientConn s) \<and>
      (ur_phase st = NotServing \<longrightarrow> udp_gors s = Map.empty) \<and>
      (ur_phase st = Served \<longrightarrow> udp_stopped s \<and> (\<forall>p \<in> dom (udp_gors s). past_deadline (ur_clock st) (udp_conns s p))) \<and>
      (\<forall>p. serverUDPBufferSize \<le> length (ur_bufs st p)))"

lemmas udp_inv_defs = udp_inv_def nat_inv_def sent_inv_def salts_inv_def Let_def

lemma udp_inv_initial: "udp_initial st \<Longrightarrow> udp_inv st"
  by (auto simp: udp_initial_def udp_inv_defs NewUDPService_def udp_SetTargetIPValidator_def)

lemma length_blit_ge: "off \<le> length b \<Longrightarrow> length b \<le> length (blit b off src)"
  by (simp add: blit_def)

lemma timedCopy_pack_length:
  assumes "timedCopy_pack env write c pkt body a = Ok (out, pkt')" and "SaltSize c + maxAddrLen (ue_ParseAddr env) \<le> length pkt"
  shows "length pkt \<le> length pkt'"
proof -
  let ?b = "SaltSize c + maxAddrLen (ue_ParseAddr env)"
  let ?src = "case ue_ParseAddr env (ue_String env a) of Some x \<Rightarrow> x | None \<Rightarrow> []"
  let ?pkt1 = "blit pkt ?b body" let ?pkt2 = "blit ?pkt1 (?b - length ?src) ?src"
  have 1: "length pkt \<le> length ?pkt1" using assms(2) by (rule length_blit_ge)
  have 2: "length ?pkt1 \<le> length ?pkt2" using 1 assms(2) by (intro length_blit_ge) simp
  have 3: "length ?pkt2 \<le> length (blit ?pkt2 (?b - length ?src - SaltSize c) buf)" for buf
    using 1 2 assms(2) by (intro length_blit_ge) simp
  define P where "P = Pack (ue_crypto env) (ue_entropy env) (drop (?b - length ?src - SaltSize c) ?pkt2)
    (subslice ?pkt2 (?b - length ?src) (?b + length body)) c"
  from assms(1) have "pkt' = ?pkt2 \<or> (\<exists>buf. pkt' = blit ?pkt2 (?b - length ?src - SaltSize c) buf)"
    unfolding timedCopy_pack_def Let_def P_def [symmetric]
    by (cases P) (auto split: if_split_asm sum.split_asm)
  then show ?thesis
  proof
    assume "\<exists>buf. pkt' = blit ?pkt2 (?b - length ?src - SaltSize c) buf"
    then obtain buf where pkt': "pkt' = blit ?pkt2 (?b - length ?src - SaltSize c) buf" ..
    show ?thesis unfolding pkt' by (rule le_trans [OF le_trans [OF 1 2] 3])
  next
    assume pkt': "pkt' = ?pkt2"
    show ?thesis unfolding pkt' by (rule le_trans [OF 1 2])
  qed
qed

lemma timedCopy_step_length:
  assumes "timedCopy_step env write s p pkt r = Ok (b, s', pkt')"
  shows "length pkt \<le> length pkt'"
proof -
  from assms obtain out c' x where "timedCopy_packet env write (udp_conns s p) pkt r = Ok (out, c', x)"
    by (auto simp: timedCopy_step_def Let_def bind_result_Ok_iff)
  with assms have o: "timedCopy_packet env write (udp_conns s p) pkt r = Ok (out, c', pkt')"
    by (cases out) (auto simp: timedCopy_step_def Let_def)
  show ?thesis
  proof (cases r)
    case (Inl e)
    with o show ?thesis
      by (auto simp: timedCopy_packet_def Let_def nat_ReadFrom_def split: if_splits goerror.splits bool.splits)
  next
    case (Inr da)
    obtain d a where da: "da = (d, a)" by (cases da)
    with o Inr obtain body where "SaltSize (nc_cipher (udp_conns s p)) + maxAddrLen (ue_ParseAddr env) \<le> length pkt"
      "timedCopy_pack env write (nc_cipher (udp_conns s p)) pkt body a = Ok (out, pkt')"
      by (auto simp: timedCopy_packet_def Let_def nat_ReadFrom_def bind_result_Ok_iff split: if_splits)
    then show ?thesis by (metis timedCopy_pack_length)
  qed
qed

text \<open>A packet from a target changes the connection's deadline only, and not if it is past.\<close>

lemma onRead_keeps [simp]:
  "nc_sent (onRead now c a) = nc_sent c" "nc_cipher (onRead now c a) = nc_cipher c"
  by (simp_all add: onRead_def Let_def)

lemma past_deadline_mono: "past_deadline t c \<Longrightarrow> t \<le> now \<Longrightarrow> past_deadline now c"
  by (auto simp: past_deadline_def split: option.splits)

lemma past_deadline_onRead: "past_deadline t c \<Longrightarrow> t \<le> now \<Longrightarrow> past_deadline now (onRead now c a)"
  by (auto simp: past_deadline_def onRead_def Let_def split: option.splits if_splits)

lemma timedCopy_step_inv:
  assumes "timedCopy_step env write s p pkt r = Ok (b, s', pkt')"
  shows "same_nat s s' \<and> (sent_inv s \<longrightarrow> sent_inv s') \<and> (salts_inv s \<longrightarrow> salts_inv s') \<and>
    (\<forall>q. past_deadline t (udp_conns s q) \<and> t \<le> ue_now env \<longrightarrow> past_deadline (ue_now env) (udp_conns s' q))"
  using assms
proof (rule timedCopy_step_cases)
  fix c' m'
  assume s': "s' = s\<lparr>udp_conns := (udp_conns s)(p := c'), udp_m := m'\<rparr>"
    and c': "c' = udp_conns s p \<or> (\<exists>a. c' = onRead (ue_now env) (udp_conns s p) a)"
    and counters: "udpAddedNatEntries m' = udpAddedNatEntries (udp_m s)" "udpRemovedNatEntries m' = udpRemovedNatEntries (udp_m s)"
  from c' have "nc_sent c' = nc_sent (udp_conns s p)" "nc_cipher c' = nc_cipher (udp_conns s p)" by auto
  moreover have "past_deadline (ue_now env) c'" if "past_deadline t (udp_conns s p)" "t \<le> ue_now env"
    using that c' past_deadline_mono past_deadline_onRead by blast
  ultimately show ?thesis
    unfolding s' by (auto simp: same_nat_def sent_inv_def salts_inv_def past_deadline_mono nat_live_def counters)
qed

text \<open>A read that \<open>timedCopy\<close> handles without panic: the cipher is sound and a source address is not longer than the
  reserved length, which fits in the buffer.\<close>

definition copy_ok :: "Cipher \<Rightarrow> udp_env \<Rightarrow> goerror + (bytes \<times> UDPAddr) \<Rightarrow> bool" where
  "copy_ok c env r \<longleftrightarrow> cipher_ok (ue_crypto env) c \<and> SaltSize c + maxAddrLen (ue_ParseAddr env) \<le> serverUDPBufferSize \<and>
     (case r of
        Inr (d, a) \<Rightarrow> (case ue_ParseAddr env (ue_String env a) of
                       Some src \<Rightarrow> length src \<le> maxAddrLen (ue_ParseAddr env) | None \<Rightarrow> True)
      | Inl err \<Rightarrow> True)"

lemma timedCopy_pack_ok:
  assumes "cipher_ok (ue_crypto env) c"
    and "case ue_ParseAddr env (ue_String env a) of Some src \<Rightarrow> length src \<le> maxAddrLen (ue_ParseAddr env) | None \<Rightarrow> True"
  shows "\<exists>st n k sent pkt'. timedCopy_pack env write c pkt body a = Ok (Copied st n k sent, pkt')"
proof -
  let ?b = "SaltSize c + maxAddrLen (ue_ParseAddr env)"
  let ?src = "case ue_ParseAddr env (ue_String env a) of Some x \<Rightarrow> x | None \<Rightarrow> []"
  let ?pkt2 = "blit (blit pkt ?b body) (?b - length ?src) ?src"
  have src: "length ?src \<le> maxAddrLen (ue_ParseAddr env)" using assms(2) by (simp split: option.splits)
  define P where "P = Pack (ue_crypto env) (ue_entropy env) (drop (?b - length ?src - SaltSize c) ?pkt2)
    (subslice ?pkt2 (?b - length ?src) (?b + length body)) c"
  have "\<forall>m. P \<noteq> Panic m" unfolding P_def Pack_cases [OF assms(1)] by (cases "ue_entropy env") simp_all
  then show ?thesis
    unfolding timedCopy_pack_def Let_def P_def [symmetric] using src
    by (cases P) (auto split: sum.split)
qed

lemma timedCopy_step_ok:
  assumes "copy_ok (nc_cipher (udp_conns s p)) env r" and "serverUDPBufferSize \<le> length pkt"
  shows "\<exists>s' pkt'. timedCopy_step env write s p pkt r = Ok (r = Inl (NetError True), s', pkt')"
proof (cases r)
  case (Inl e)
  have "SaltSize (nc_cipher (udp_conns s p)) + maxAddrLen (ue_ParseAddr env) \<le> length pkt"
    using assms by (auto simp: copy_ok_def)
  with Inl show ?thesis
    by (cases e) (auto simp: timedCopy_step_def timedCopy_packet_def nat_ReadFrom_def Let_def split: bool.split)
next
  case (Inr da)
  obtain d a where da: "da = (d, a)" by (cases da)
  let ?c = "nc_cipher (udp_conns s p)"
  have len: "SaltSize ?c + maxAddrLen (ue_ParseAddr env) \<le> length pkt"
    and ok: "cipher_ok (ue_crypto env) ?c"
      "case ue_ParseAddr env (ue_String env a) of Some src \<Rightarrow> length src \<le> maxAddrLen (ue_ParseAddr env) | None \<Rightarrow> True"
    using assms Inr da by (auto simp: copy_ok_def)
  from timedCopy_pack_ok [OF ok, of "write" pkt "take (length pkt - (SaltSize ?c + maxAddrLen (ue_ParseAddr env))) d"]
  show ?thesis using len
    by (auto simp: timedCopy_step_def timedCopy_packet_def nat_ReadFrom_def Let_def Inr da)
qed

text \<open>\<open>timedCopy\<close> handles every read without panic and returns at the first timeout, and only then.\<close>

lemma timedCopy_loop_returns:
  assumes "\<forall>(env, wr, r) \<in> set rs. copy_ok (nc_cipher (udp_conns s p)) env r" and "serverUDPBufferSize \<le> length pkt"
  shows "\<exists>s' pkt'. timedCopy_loop rs s p pkt = Ok (\<exists>(env, wr, r) \<in> set rs. r = Inl (NetError True), s', pkt')"
  using assms
proof (induction rs arbitrary: s pkt)
  case (Cons x rs)
  obtain env wr r where x: "x = (env, wr, r)" by (metis prod_cases3)
  have "copy_ok (nc_cipher (udp_conns s p)) env r" using Cons.prems(1) x by simp
  from timedCopy_step_ok [OF this Cons.prems(2)] obtain s1 pkt1 where
    step: "timedCopy_step env wr s p pkt r = Ok (r = Inl (NetError True), s1, pkt1)" by blast
  have c: "nc_cipher (udp_conns s1 p) = nc_cipher (udp_conns s p)"
    using step by (rule timedCopy_step_cases) (auto simp: onRead_keeps)
  have "\<forall>(env, wr, r) \<in> set rs. copy_ok (nc_cipher (udp_conns s1 p)) env r" using Cons.prems(1) by (simp add: c)
  moreover have "serverUDPBufferSize \<le> length pkt1" using timedCopy_step_length [OF step] Cons.prems(2) by linarith
  ultimately show ?case using Cons.IH [of s1 pkt1] step x by auto
qed simp

lemma timedCopy_loop_append:
  "timedCopy_loop (rs @ rs') s p pkt =
     bind_result (timedCopy_loop rs s p pkt) (\<lambda>(expired, s', pkt').
       if expired then Ok (True, s', pkt') else timedCopy_loop rs' s' p pkt')"
proof (induction rs arbitrary: s pkt)
  case (Cons x rs)
  obtain env wr r where x: "x = (env, wr, r)" by (metis prod_cases3)
  show ?case
    by (cases "timedCopy_step env wr s p pkt r") (auto simp: x Cons.IH split: prod.split)
qed simp

lemma added_nat_inv:
  assumes "nat_inv s" and "udp_keyConn s key = None" and "added_nat key s s'"
  shows "nat_inv s'" and "card (dom (udp_gors s')) = Suc (card (dom (udp_gors s)))"
proof -
  have new: "udp_fresh s \<notin> dom (udp_gors s)" "finite (dom (udp_gors s))" using assms(1) by (auto simp: nat_inv_def)
  have pairs: "udp_gors s p = Some k \<longleftrightarrow> udp_keyConn s k = Some p" for p k
    using assms(1) by (simp add: nat_inv_def)
  have "udp_gors s' p = Some k \<longleftrightarrow> udp_keyConn s' k = Some p" for p k
  proof (cases "k = key")
    case True
    have "udp_gors s p \<noteq> Some key" for p using pairs assms(2) by simp
    with True assms(3) new show ?thesis by (auto simp: added_nat_def)
  next
    case False
    have "udp_keyConn s k \<noteq> Some (udp_fresh s)" using pairs new(1) by auto
    with False assms(3) pairs show ?thesis by (auto simp: added_nat_def)
  qed
  moreover have "dom (udp_gors s') = insert (udp_fresh s) (dom (udp_gors s))" "udp_fresh s' = Suc (udp_fresh s)"
    using assms(3) by (simp_all add: added_nat_def)
  moreover have "\<forall>p \<in> dom (udp_gors s). p < udp_fresh s" using assms(1) by (simp add: nat_inv_def)
  ultimately show "nat_inv s'" using new(2) unfolding nat_inv_def by (simp add: less_Suc_eq)
  show "card (dom (udp_gors s')) = Suc (card (dom (udp_gors s)))"
    using assms(3) new by (simp add: added_nat_def)
qed

lemma same_nat_inv: "same_nat s s' \<Longrightarrow> nat_inv s \<Longrightarrow> nat_inv s'"
  by (simp add: same_nat_def nat_inv_def)

text \<open>The goroutine of an entry removes its own entry, and no other, and closes its own socket.\<close>

lemma nat_finish_own:
  assumes "nat_inv s" and "udp_gors s p = Some key"
  shows "fst (nat_finish s p key) = Some p"
    and "udp_keyConn (snd (nat_finish s p key)) = (udp_keyConn s)(key := None)"
    and "udp_gors (snd (nat_finish s p key)) = (udp_gors s)(p := None)"
    and "udp_running (snd (nat_finish s p key)) = udp_running s - 1"
    and "nat_live (snd (nat_finish s p key)) = nat_live s - 1"
    and "nat_inv (snd (nat_finish s p key))"
    and "card (dom (udp_gors (snd (nat_finish s p key)))) = card (dom (udp_gors s)) - 1"
proof -
  have pairs: "udp_gors s q = Some k \<longleftrightarrow> udp_keyConn s k = Some q" for q k
    using assms(1) by (simp add: nat_inv_def)
  then have key: "udp_keyConn s key = Some p" using assms(2) by simp
  show eqs: "fst (nat_finish s p key) = Some p"
    "udp_keyConn (snd (nat_finish s p key)) = (udp_keyConn s)(key := None)"
    "udp_gors (snd (nat_finish s p key)) = (udp_gors s)(p := None)"
    "udp_running (snd (nat_finish s p key)) = udp_running s - 1"
    "nat_live (snd (nat_finish s p key)) = nat_live s - 1"
    using key by (simp_all add: nat_finish_def nat_del_def nat_live_def RemoveUDPNatEntry_def)
  have "((udp_gors s)(p := None)) q = Some k \<longleftrightarrow> ((udp_keyConn s)(key := None)) k = Some q" for q k
    using pairs [of q k] pairs [of q key] pairs [of p k] assms(2) key by auto
  moreover have "udp_fresh (snd (nat_finish s p key)) = udp_fresh s"
    using key by (simp add: nat_finish_def nat_del_def)
  ultimately show "nat_inv (snd (nat_finish s p key))"
    using assms(1) unfolding nat_inv_def eqs by auto
  show "card (dom (udp_gors (snd (nat_finish s p key)))) = card (dom (udp_gors s)) - 1"
    unfolding eqs using assms by (simp add: nat_inv_def card_Diff_singleton domI)
qed

lemma udp_inv_packet:
  assumes "udp_inv st" and "ur_phase st = Accepting" and "serve_packet env (ur_service st) r = (b, s')"
  shows "udp_inv (st\<lparr>ur_service := s', ur_clock := t\<rparr>)"
proof -
  let ?s = "ur_service st"
  have inv: "nat_inv ?s" "sent_inv ?s" "salts_inv ?s" using assms(1) by (simp_all add: udp_inv_def Let_def)
  from serve_packet_nat [OF assms(3) inv(2)] have change: "same_nat ?s s' \<or> (\<exists>key. udp_keyConn ?s key = None \<and> added_nat key ?s s')"
    and sent: "sent_inv s'" by blast+
  from change show ?thesis
  proof (elim disjE exE conjE)
    assume "same_nat ?s s'"
    with assms(1,2) sent same_nat_inv [OF this inv(1)] serve_packet_salts [OF assms(3) inv(3)] show ?thesis
      by (simp add: udp_inv_def Let_def same_nat_def)
  next
    fix key
    assume "udp_keyConn ?s key = None" and add: "added_nat key ?s s'"
    from added_nat_inv [OF inv(1) this] assms(1,2) sent serve_packet_salts [OF assms(3) inv(3)] add show ?thesis
      by (auto simp: udp_inv_def Let_def added_nat_def)
  qed
qed

lemma udp_inv_copy:
  assumes "udp_inv st" and "timedCopy_step env write (ur_service st) p (ur_bufs st p) r = Ok (b, s', pkt')"
    and "ur_clock st \<le> ue_now env" and "X \<subseteq> dom (udp_gors (ur_service st))"
  shows "udp_inv (st\<lparr>ur_service := s', ur_exiting := X, ur_bufs := (ur_bufs st)(p := pkt'), ur_clock := ue_now env\<rparr>)"
proof -
  have "serverUDPBufferSize \<le> length pkt'"
    using timedCopy_step_length [OF assms(2)] assms(1) by (auto simp: udp_inv_def Let_def intro: le_trans)
  with timedCopy_step_inv [OF assms(2), of "ur_clock st"] assms(1,3,4) same_nat_inv [of "ur_service st" s'] show ?thesis
    by (auto simp: udp_inv_def Let_def same_nat_def)
qed

lemma inv_updates [simp]:
  "sent_inv (s\<lparr>udp_clientConn := b\<rparr>) = sent_inv s" "sent_inv (s\<lparr>udp_running := n\<rparr>) = sent_inv s"
  "sent_inv (s\<lparr>udp_stopped := b\<rparr>) = sent_inv s" "sent_inv (s\<lparr>udp_ciphers := cl\<rparr>) = sent_inv s"
  "nat_inv (s\<lparr>udp_clientConn := b\<rparr>) = nat_inv s" "nat_inv (s\<lparr>udp_running := n\<rparr>) = nat_inv s"
  "nat_inv (s\<lparr>udp_stopped := b\<rparr>) = nat_inv s" "nat_inv (s\<lparr>udp_ciphers := cl\<rparr>) = nat_inv s"
  "salts_inv (s\<lparr>udp_clientConn := b\<rparr>) = salts_inv s" "salts_inv (s\<lparr>udp_running := n\<rparr>) = salts_inv s"
  "salts_inv (s\<lparr>udp_stopped := b\<rparr>) = salts_inv s"
  by (simp_all add: sent_inv_def nat_inv_def salts_inv_def)

lemma nat_Close_inv:
  assumes "nat_inv s"
  shows "same_nat s (nat_Close now s)" "\<forall>p \<in> dom (udp_gors s). past_deadline now (udp_conns (nat_Close now s) p)"
    "sent_inv s \<Longrightarrow> sent_inv (nat_Close now s)" "salts_inv s \<Longrightarrow> salts_inv (nat_Close now s)"
proof -
  show "\<forall>p \<in> dom (udp_gors s). past_deadline now (udp_conns (nat_Close now s) p)"
    using assms by (fastforce simp: nat_Close_def past_deadline_def nat_inv_def ran_def)
qed (auto simp: nat_Close_def same_nat_def sent_inv_def salts_inv_def nat_live_def)

text \<open>The table that \<open>Serve\<close> makes replaces an empty one.\<close>

lemma udp_Serve_inv:
  assumes "udp_inv st"
  shows "udp_Serve (ur_service st) =
     (if udp_clientConn (ur_service st) then (ServeTwice (ErrorNew ''Serve can only be called once''), ur_service st)
      else if udp_stopped (ur_service st) then (ServeStopped, ur_service st)
      else (ServeLoop, (ur_service st)\<lparr>udp_clientConn := True, udp_running := udp_running (ur_service st) + 1\<rparr>))"
proof (cases "udp_clientConn (ur_service st)")
  case False
  with assms have "udp_gors (ur_service st) = Map.empty" "nat_inv (ur_service st)" by (auto simp: udp_inv_def Let_def)
  then have "udp_keyConn (ur_service st) key = None" for key
    using nat_inv_key(1) [of "ur_service st" key] by (cases "udp_keyConn (ur_service st) key") auto
  then have "udp_keyConn (ur_service st) = Map.empty" by (rule ext)
  then show ?thesis by (rule udp_Serve_start)
qed (simp add: udp_Serve_def)

lemma udp_inv_step: "udp_step st st' \<Longrightarrow> udp_inv st \<Longrightarrow> udp_inv st'"
proof (induction rule: udp_step.induct)
  case (serve st r s')
  then show ?case
    using udp_Serve_inv [OF serve.prems] by (auto simp: udp_inv_def Let_def split: if_splits)
next
  case (packet st env r s')
  then show ?case by (blast intro: udp_inv_packet)
next
  case (serve_end st env err s')
  have inv: "udp_inv (st\<lparr>ur_service := s', ur_clock := ue_now env\<rparr>)"
    using serve_end by (blast intro: udp_inv_packet)
  then have n: "nat_inv s'" by (simp add: udp_inv_def Let_def)
  have "udp_stopped s'" using serve_end(3) by (auto simp: serve_packet_def split: if_splits)
  with inv nat_Close_inv [OF n, of "ue_now env"] same_nat_inv [OF nat_Close_inv(1) [OF n, of "ue_now env"] n] serve_end(1)
  show ?case by (auto simp: udp_inv_def udp_Serve_end_def Let_def same_nat_def)
next
  case (copied st p key env r wr s' pkt')
  then have "ur_exiting st \<subseteq> dom (udp_gors (ur_service st))" by (simp add: udp_inv_def Let_def)
  from udp_inv_copy [OF copied.prems copied.hyps(5,3) this] show ?case by simp
next
  case (expired st p key env wr s' pkt')
  then have "insert p (ur_exiting st) \<subseteq> dom (udp_gors (ur_service st))" by (auto simp: udp_inv_def Let_def)
  from udp_inv_copy [OF expired.prems expired.hyps(4,3) this] expired.prems show ?case
    by (auto simp: udp_inv_def Let_def)
next
  case (removed st p key)
  let ?s = "ur_service st" let ?s' = "snd (nat_finish ?s p key)"
  have n: "nat_inv ?s" using removed by (simp add: udp_inv_def Let_def)
  note own = nat_finish_own [OF n removed.hyps(1)]
  have "card (dom (udp_gors ?s)) \<noteq> 0"
    using n removed.hyps(1) by (auto simp: nat_inv_def)
  moreover have "udp_conns ?s' = udp_conns ?s" "udp_fresh ?s' = udp_fresh ?s" "udp_ciphers ?s' = udp_ciphers ?s"
    "udp_targetIPValidator ?s' = udp_targetIPValidator ?s" "udp_stopped ?s' = udp_stopped ?s" "udp_clientConn ?s' = udp_clientConn ?s"
    by (auto simp: nat_finish_def nat_del_def split: option.splits)
  moreover have "ur_phase st \<noteq> NotServing" using removed by (auto simp: udp_inv_def Let_def)
  ultimately show ?case
    using removed.prems own by (auto simp: udp_inv_def Let_def sent_inv_def salts_inv_def)
next
  case (stop st)
  then show ?case by (simp add: udp_inv_def Let_def udp_Stop_def)
next
  case (keys cl st)
  then show ?case by (simp add: udp_inv_def Let_def) (simp add: salts_inv_def)
qed

inductive udp_reachable :: "udp_run \<Rightarrow> bool" where
  init: "udp_initial st \<Longrightarrow> udp_reachable st"
| step: "udp_reachable st \<Longrightarrow> udp_step st st' \<Longrightarrow> udp_reachable st'"

lemma udp_reachable_inv: "udp_reachable st \<Longrightarrow> udp_inv st"
  by (induction rule: udp_reachable.induct) (auto intro: udp_inv_initial udp_inv_step)

text \<open>The metrics go with the table: steps change the entries that the metrics show as live by what they change the table by.\<close>

lemma udp_step_live:
  assumes "udp_step st st'" and "udp_inv st"
  shows "nat_live (ur_service st') - int (card (dom (udp_gors (ur_service st')))) =
    nat_live (ur_service st) - int (card (dom (udp_gors (ur_service st))))"
proof -
  have inv: "nat_inv (ur_service st)" "sent_inv (ur_service st)" using assms(2) by (simp_all add: udp_inv_def Let_def)
  have served: "nat_live s' - int (card (dom (udp_gors s'))) = nat_live (ur_service st) - int (card (dom (udp_gors (ur_service st))))"
    if "serve_packet env (ur_service st) r = (b, s')" for env r b s'
    using serve_packet_nat [OF that inv(2)] added_nat_inv(2) [OF inv(1), of _ s'] by (auto simp: same_nat_def added_nat_def)
  have same: "nat_live s' - int (card (dom (udp_gors s'))) = nat_live (ur_service st) - int (card (dom (udp_gors (ur_service st))))"
    if "same_nat (ur_service st) s'" for s'
    using that by (simp add: same_nat_def)
  show ?thesis
    using assms(1)
  proof cases
    case (serve r s')
    with udp_Serve_inv [OF assms(2)] show ?thesis by (auto simp: nat_live_def split: if_splits)
  next
    case (packet env r s')
    with served [OF packet(5)] packet(1) show ?thesis by simp
  next
    case (serve_end env err s')
    have "nat_live (udp_Serve_end (ue_now env) s') = nat_live s'" "udp_gors (udp_Serve_end (ue_now env) s') = udp_gors s'"
      by (simp_all add: udp_Serve_end_def nat_Close_def nat_live_def Let_def)
    with served [OF serve_end(4)] serve_end(1) show ?thesis by simp
  next
    case (copied p key env r wr s' pkt')
    from same [OF conjunct1 [OF timedCopy_step_inv [OF copied(6)]]] copied(1) show ?thesis by simp
  next
    case (expired p key env wr s' pkt')
    from same [OF conjunct1 [OF timedCopy_step_inv [OF expired(5)]]] expired(1) show ?thesis by simp
  next
    case (removed p key)
    have "card (dom (udp_gors (ur_service st))) \<noteq> 0" using inv(1) removed(2) by (auto simp: nat_inv_def)
    with nat_finish_own(5,7) [OF inv(1) removed(2)] removed(1) show ?thesis by simp
  next
    case stop
    then show ?thesis by (simp add: udp_Stop_def nat_live_def)
  next
    case (keys cl)
    then show ?thesis by (simp add: nat_live_def)
  qed
qed

lemma udp_run_inv:
  assumes "udp_step\<^sup>*\<^sup>* st0 st" and "udp_initial st0"
  shows "udp_inv st" and "nat_live (ur_service st) = nat_live (ur_service st0) + int (card (dom (udp_gors (ur_service st))))"
proof -
  have "udp_inv st \<and> nat_live (ur_service st) = nat_live (ur_service st0) + int (card (dom (udp_gors (ur_service st))))"
    using assms(1)
  proof (induction rule: rtranclp_induct)
    case base
    have "udp_gors (ur_service st0) = Map.empty"
      using assms(2) by (auto simp: udp_initial_def NewUDPService_def udp_SetTargetIPValidator_def)
    with udp_inv_initial [OF assms(2)] show ?case by simp
  next
    case (step st1 st2)
    with udp_step_live [OF step(2)] udp_inv_step [OF step(2)] show ?case by auto
  qed
  then show "udp_inv st" "nat_live (ur_service st) = nat_live (ur_service st0) + int (card (dom (udp_gors (ur_service st))))" by simp_all
qed

section \<open>Stopping\<close>

text \<open>The work that is left once the service is stopped and \<open>Serve\<close> has returned: two steps for a goroutine that still
  copies, one for a goroutine that only has to remove its entry.\<close>

definition udp_remaining :: "udp_run \<Rightarrow> nat" where
  "udp_remaining st = 2 * card (dom (udp_gors (ur_service st))) - card (ur_exiting st)"

definition udp_draining :: "udp_run \<Rightarrow> bool" where
  "udp_draining st \<longleftrightarrow> udp_inv st \<and> udp_stopped (ur_service st) \<and> ur_phase st \<noteq> Accepting"

lemma exiting_card:
  assumes "udp_inv st"
  shows "finite (ur_exiting st)" and "card (ur_exiting st) \<le> card (dom (udp_gors (ur_service st)))"
proof -
  have "finite (dom (udp_gors (ur_service st)))" "ur_exiting st \<subseteq> dom (udp_gors (ur_service st))"
    using assms by (simp_all add: udp_inv_def Let_def nat_inv_def)
  then show "finite (ur_exiting st)" and "card (ur_exiting st) \<le> card (dom (udp_gors (ur_service st)))"
    by (auto intro: finite_subset card_mono)
qed

lemma remaining_zero:
  assumes "udp_draining st"
  shows "udp_remaining st = 0 \<longleftrightarrow> udp_running (ur_service st) = 0"
  using assms exiting_card(2) [of st] by (auto simp: udp_draining_def udp_remaining_def udp_inv_def Let_def)

lemma drained_empty:
  assumes "udp_draining st" and "udp_running (ur_service st) = 0"
  shows "udp_keyConn (ur_service st) = Map.empty" and "udp_gors (ur_service st) = Map.empty"
proof -
  let ?s = "ur_service st"
  from assms have n: "nat_inv ?s" "card (dom (udp_gors ?s)) = 0" by (auto simp: udp_draining_def udp_inv_def Let_def)
  then show gors: "udp_gors ?s = Map.empty" by (simp add: nat_inv_def)
  have "udp_keyConn ?s key = None" for key
    using nat_inv_key(1) [OF n(1), of key] gors by (cases "udp_keyConn ?s key") auto
  then show "udp_keyConn ?s = Map.empty" by (rule ext)
qed

lemma timeout_expires:
  "timedCopy_step env write s p pkt (Inl (NetError True)) = Ok (b, s', pkt') \<Longrightarrow> b"
  by (auto simp: timedCopy_step_def timedCopy_packet_def nat_ReadFrom_def Let_def split: if_splits)

lemma removed_card:
  assumes "udp_inv st" and "udp_gors (ur_service st) p = Some key" and "p \<in> ur_exiting st"
  shows "2 * card (dom (udp_gors (snd (nat_finish (ur_service st) p key)))) - card (ur_exiting st - {p}) < udp_remaining st"
proof -
  have n: "nat_inv (ur_service st)" using assms(1) by (simp add: udp_inv_def Let_def)
  have "card (dom (udp_gors (ur_service st))) \<noteq> 0" using n assms(2) by (auto simp: nat_inv_def)
  with exiting_card [OF assms(1)] assms(3) show ?thesis
    unfolding nat_finish_own(7) [OF n assms(2)] udp_remaining_def by (simp add: card_Diff_singleton)
qed

lemma udp_draining_step:
  assumes "udp_step st st'" and "udp_draining st"
  shows "udp_draining st' \<and> udp_remaining st' \<le> udp_remaining st"
proof -
  have inv': "udp_inv st'" using assms by (auto simp: udp_draining_def intro: udp_inv_step)
  from assms(1) have "udp_stopped (ur_service st') \<and> ur_phase st' \<noteq> Accepting \<and> udp_remaining st' \<le> udp_remaining st"
  proof (cases rule: udp_step.cases)
    case (serve r s')
    with assms(2) show ?thesis
      by (auto simp: udp_draining_def udp_Serve_def udp_remaining_def split: if_splits)
  next
    case (copied p key env r wr s' pkt')
    have "past_deadline (ur_clock st) (udp_conns (ur_service st) p)"
      using assms(2) copied(2) by (cases "ur_phase st") (auto simp: udp_draining_def udp_inv_def Let_def)
    then have "r = Inl (NetError True)" using copied(4,5) past_deadline_mono by blast
    with timeout_expires copied(6) have False by blast
    then show ?thesis ..
  next
    case (expired p key env wr s' pkt')
    have "same_nat (ur_service st) s'" using timedCopy_step_inv [OF expired(5)] by blast
    with expired(1) assms(2) exiting_card(1) [of st] show ?thesis
      by (auto simp: udp_draining_def udp_remaining_def same_nat_def card_insert_if)
  next
    case (removed p key)
    with removed_card [of st p key] assms(2) show ?thesis
      by (auto simp: udp_draining_def udp_remaining_def [of "_\<lparr>ur_exiting := _\<rparr>"] nat_finish_def nat_del_def split: option.splits)
  qed (use assms(2) in \<open>auto simp: udp_draining_def udp_remaining_def udp_Stop_def\<close>)
  with inv' show ?thesis by (simp add: udp_draining_def)
qed

lemma udp_draining_progress:
  assumes "udp_draining st" and "0 < udp_remaining st"
  shows "\<exists>st'. udp_step st st' \<and> udp_remaining st' < udp_remaining st"
proof -
  let ?s = "ur_service st"
  have inv: "udp_inv st" using assms(1) by (simp add: udp_draining_def)
  from assms(2) have "dom (udp_gors ?s) \<noteq> {}" by (auto simp: udp_remaining_def)
  then obtain p key where p: "udp_gors ?s p = Some key" by blast
  show ?thesis
  proof (cases "p \<in> ur_exiting st")
    case True
    from udp_step.removed [OF p True] removed_card [OF inv p True] show ?thesis
      by (force simp: udp_remaining_def)
  next
    case False
    let ?env = "toy_udp_env\<lparr>ue_now := ur_clock st, ue_ParseAddr := \<lambda>_. None\<rparr>"
    have "SaltSize (nc_cipher (udp_conns ?s p)) \<le> length (ur_bufs st p)"
    proof -
      have "SaltSize (nc_cipher (udp_conns ?s p)) \<le> 32" using inv p by (auto simp: udp_inv_def Let_def salts_inv_def)
      moreover have "serverUDPBufferSize \<le> length (ur_bufs st p)" using inv by (simp add: udp_inv_def Let_def)
      ultimately show ?thesis by (simp add: serverUDPBufferSize_def)
    qed
    then have "timedCopy_step ?env (\<lambda>_. Inr 0) ?s p (ur_bufs st p) (Inl (NetError True)) =
        Ok (True, ?s\<lparr>udp_conns := (udp_conns ?s)(p := udp_conns ?s p)\<rparr>, ur_bufs st p)"
      by (simp add: timedCopy_step_def timedCopy_packet_def nat_ReadFrom_def maxAddrLen_def)
    from udp_step.expired [OF p False _ this] have "udp_step st (st\<lparr>ur_exiting := insert p (ur_exiting st)\<rparr>)" by simp
    moreover have "udp_remaining (st\<lparr>ur_exiting := insert p (ur_exiting st)\<rparr>) < udp_remaining st"
    proof -
      have "insert p (ur_exiting st) \<subseteq> dom (udp_gors ?s)" "finite (dom (udp_gors ?s))"
        using inv p by (auto simp: udp_inv_def Let_def nat_inv_def)
      then have "card (insert p (ur_exiting st)) \<le> card (dom (udp_gors ?s))" by (metis card_mono)
      with False exiting_card(1) [OF inv] show ?thesis by (simp add: udp_remaining_def)
    qed
    ultimately show ?thesis by blast
  qed
qed

interpretation udp_life: bounded_draining udp_step udp_draining udp_remaining
proof
  fix st st'
  assume "udp_draining st" and "udp_step st st'"
  from udp_draining_step [OF this(2,1)] show "udp_draining st'" and "udp_remaining st' \<le> udp_remaining st" by simp_all
qed (rule udp_draining_progress)

section \<open>Properties over time\<close>

text \<open>C16: The NAT table. In every state the service can reach: the table's entries and the running goroutines correspond one
  to one; a goroutine that ends removes and closes exactly its own entry; the \<^verbatim>\<open>WaitGroup\<close> counts exactly the
  serving loop and the goroutines; the entries that the metrics counted as added and not as removed since the service was created are
  exactly those of the table; and every packet that any NAT connection ever sent went to an address that the target validator
  accepts. (The end of a goroutine, with its count, the removal of its entry and \<^verbatim>\<open>Done\<close>, is one step, and so is the handling of a
  packet; what other services add to the metrics they share is left out.)\<close>

theorem udp_nat_invariant:
  assumes "udp_initial st0" and "udp_step\<^sup>*\<^sup>* st0 st" and "s0 = ur_service st0" and "s = ur_service st"
  shows "(udp_gors s p = Some key \<longleftrightarrow> udp_keyConn s key = Some p) \<and>
    (udp_gors s p = Some key \<longrightarrow> fst (nat_finish s p key) = Some p \<and>
       udp_keyConn (snd (nat_finish s p key)) = (udp_keyConn s)(key := None)) \<and>
    udp_running s = int (card (dom (udp_gors s))) + (if ur_phase st = Accepting then 1 else 0) \<and>
    (udpAddedNatEntries (udp_m s) - udpAddedNatEntries (udp_m s0)) - (udpRemovedNatEntries (udp_m s) - udpRemovedNatEntries (udp_m s0)) =
      int (card (dom (udp_keyConn s))) \<and>
    (p < udp_fresh s \<longrightarrow> (t, d) \<in> set (nc_sent (udp_conns s p)) \<longrightarrow> udp_targetIPValidator s (udp_IP t) = None)"
proof -
  note run = udp_run_inv [OF assms(2,1)]
  from run(1) have inv: "nat_inv s" "sent_inv s"
    "udp_running s = int (card (dom (udp_gors s))) + (if ur_phase st = Accepting then 1 else 0)"
    by (simp_all add: udp_inv_def Let_def assms(4))
  moreover have "udp_gors s p = Some key \<longleftrightarrow> udp_keyConn s key = Some p"
    using inv(1) by (simp add: nat_inv_def)
  moreover have "(udpAddedNatEntries (udp_m s) - udpAddedNatEntries (udp_m s0)) - (udpRemovedNatEntries (udp_m s) - udpRemovedNatEntries (udp_m s0)) =
      int (card (dom (udp_keyConn s)))"
    using run(2) nat_inv_card [OF inv(1)] by (simp add: nat_live_def assms(3,4))
  moreover have "udp_targetIPValidator s (udp_IP t) = None"
    if "p < udp_fresh s" "(t, d) \<in> set (nc_sent (udp_conns s p))"
    using inv(2) that by (auto simp: sent_inv_def)
  ultimately show ?thesis using nat_finish_own [OF inv(1)] by blast
qed

definition toy_run :: udp_run where
  "toy_run = \<lparr>ur_service = toy_udp, ur_phase = NotServing, ur_exiting = {}, ur_bufs = \<lambda>_. make_bytes 65536, ur_clock = 0\<rparr>"

lemma toy_run_initial: "udp_initial toy_run"
proof -
  have "keys_sized toy_udp_list" using toy_udp_keys by (rule keys_ok_sized)
  moreover have "toy_udp = udp_SetTargetIPValidator toy_udp RequirePublicIP"
    by (simp add: toy_udp_def NewUDPService_def udp_SetTargetIPValidator_def)
  ultimately have "\<exists>T cl m api2 store v. keys_sized cl \<and> toy_udp = udp_SetTargetIPValidator (NewUDPService T cl m api2 store) v"
    unfolding toy_udp_def by blast
  then show ?thesis by (simp add: udp_initial_def toy_run_def serverUDPBufferSize_def)
qed

definition toy_serving :: udp_run where
  "toy_serving = toy_run\<lparr>ur_service := snd (udp_Serve toy_udp), ur_phase := Accepting\<rparr>"

lemma toy_serving_step: "udp_step toy_run toy_serving"
proof -
  have "udp_Serve (ur_service toy_run) = (ServeLoop, snd (udp_Serve toy_udp))"
    by (simp add: toy_run_def toy_udp_def NewUDPService_def udp_Serve_def newNATmap_def)
  from udp_step.serve [OF this] show ?thesis by (simp add: toy_run_def toy_serving_def)
qed

lemma toy_serving_run: "udp_step\<^sup>*\<^sup>* toy_run toy_serving"
  using toy_serving_step by (rule r_into_rtranclp)

lemma toy_serving_reachable: "udp_reachable toy_serving"
  using toy_run_initial toy_serving_step by (blast intro: udp_reachable.intros)

theorem udp_nat_invariant_witness: "udp_running (ur_service toy_serving) = 1"
  using udp_nat_invariant [OF toy_run_initial toy_serving_run refl refl, of 0 "''''"]
  by (simp add: toy_serving_def toy_udp_def NewUDPService_def udp_Serve_def newNATmap_def)

text \<open>C25: The UDP service can always be stopped gracefully. From every state the service can reach after \<open>Stop\<close>, the serving
  loop ends at its next read, the sockets of all NAT entries time out at their next read, and the service can
  reach a state where the NAT table is empty, no goroutine of an entry runs and \<open>GracefulStop\<close> returns, and this stays so. Once \<open>Serve\<close> has returned, no step adds work,
  and as long as a goroutine runs some step reduces the work that is left.\<close>

theorem udp_graceful_stop:
  assumes "udp_reachable st" and "udp_stopped (ur_service st)"
  shows "(\<exists>st'. udp_step\<^sup>*\<^sup>* st st' \<and>
       (\<forall>st''. udp_step\<^sup>*\<^sup>* st' st'' \<longrightarrow> udp_GracefulStop_returns (ur_service st'') \<and>
          udp_keyConn (ur_service st'') = Map.empty \<and> udp_gors (ur_service st'') = Map.empty)) \<and>
    (ur_phase st = Served \<longrightarrow>
       (\<forall>st'. udp_step st st' \<longrightarrow> udp_remaining st' \<le> udp_remaining st) \<and>
       (0 < udp_running (ur_service st) \<longrightarrow> (\<exists>st'. udp_step st st' \<and> udp_remaining st' < udp_remaining st)))"
proof (intro conjI impI)
  have inv: "udp_inv st" using assms(1) by (rule udp_reachable_inv)
  have drained: "\<exists>st1. udp_step\<^sup>*\<^sup>* st st1 \<and> udp_draining st1"
  proof (cases "ur_phase st = Accepting")
    case True
    let ?env = "toy_udp_env\<lparr>ue_now := ur_clock st\<rparr>"
    have "serve_packet ?env (ur_service st) (Inl EOF) = (True, ur_service st)"
      using assms(2) by (simp add: serve_packet_def)
    from udp_step.serve_end [OF True _ this] obtain st1 where st1: "udp_step st st1" "ur_phase st1 = Served" by simp
    then have "udp_inv st1" using inv by (blast intro: udp_inv_step)
    with st1 have "udp_draining st1" by (simp add: udp_draining_def udp_inv_def Let_def)
    with st1(1) show ?thesis by blast
  next
    case False
    with inv assms(2) have "udp_draining st" by (simp add: udp_draining_def)
    then show ?thesis by blast
  qed
  then obtain st1 where st1: "udp_step\<^sup>*\<^sup>* st st1" "udp_draining st1" by blast
  from udp_life.drained [OF st1(2)] obtain st' where st': "udp_step\<^sup>*\<^sup>* st1 st'" "udp_draining st'" "udp_remaining st' = 0" by blast
  have "udp_GracefulStop_returns (ur_service x) \<and> udp_keyConn (ur_service x) = Map.empty \<and> udp_gors (ur_service x) = Map.empty"
    if "udp_step\<^sup>*\<^sup>* st' x" for x
    using udp_life.stays_drained [OF that st'(2,3)] udp_life.drain_steps [OF that st'(2)] remaining_zero [of x] drained_empty [of x]
    by (simp add: udp_GracefulStop_returns_def udp_draining_def)
  moreover have "udp_step\<^sup>*\<^sup>* st st'" using st1(1) st'(1) by (rule rtranclp_trans)
  ultimately show "\<exists>st'. udp_step\<^sup>*\<^sup>* st st' \<and>
       (\<forall>st''. udp_step\<^sup>*\<^sup>* st' st'' \<longrightarrow> udp_GracefulStop_returns (ur_service st'') \<and>
          udp_keyConn (ur_service st'') = Map.empty \<and> udp_gors (ur_service st'') = Map.empty)" by blast
  assume "ur_phase st = Served"
  then have d: "udp_draining st" using inv assms(2) by (simp add: udp_draining_def)
  show "\<forall>st'. udp_step st st' \<longrightarrow> udp_remaining st' \<le> udp_remaining st"
    using udp_life.drain_bound [OF d] by blast
  show "\<exists>st'. udp_step st st' \<and> udp_remaining st' < udp_remaining st" if "0 < udp_running (ur_service st)"
    using udp_life.drain_progress [OF d] remaining_zero [OF d] that by simp
qed

theorem udp_graceful_stop_witness:
  "\<exists>st'. udp_step\<^sup>*\<^sup>* (toy_serving\<lparr>ur_service := snd (udp_Stop (ur_service toy_serving))\<rparr>) st' \<and>
     udp_GracefulStop_returns (ur_service st') \<and> udp_keyConn (ur_service st') = Map.empty"
proof -
  let ?st = "toy_serving\<lparr>ur_service := snd (udp_Stop (ur_service toy_serving))\<rparr>"
  have "udp_reachable ?st" using toy_serving_reachable by (blast intro: udp_reachable.intros udp_step.stop)
  moreover have "udp_stopped (ur_service ?st)" by (simp add: udp_Stop_def)
  ultimately show ?thesis using udp_graceful_stop [of ?st] by blast
qed

text \<open>C39: \<open>timedCopy\<close> runs until the first timeout. Over any reads whose source addresses fit into the room reserved for an
  IPv6 address, it handles every one without panic and returns at the first read that times out, and only then.
  A longer source address (an IPv6 address with a zone is parsed as a domain name, which can be longer) makes
  the slice bound negative, and the panic, in a goroutine that recovers from nothing, ends the server.\<close>

theorem timedCopy_returns:
  assumes "\<forall>(env, wr, r) \<in> set rs. copy_ok (nc_cipher (udp_conns s p)) env r"
  shows "(\<exists>s' pkt'. timedCopy rs s p = Ok (\<exists>(env, wr, r) \<in> set rs. r = Inl (NetError True), s', pkt')) \<and>
    ((\<forall>(env, wr, r) \<in> set rs. r \<noteq> Inl (NetError True)) \<longrightarrow> ue_ParseAddr env (ue_String env a) = Some src \<longrightarrow>
       maxAddrLen (ue_ParseAddr env) < length src \<longrightarrow>
       timedCopy (rs @ [(env, wr, Inr (d, a))]) s p = Panic ''slice bounds out of range'')"
proof (intro conjI impI)
  from timedCopy_loop_returns [OF assms, of "make_bytes serverUDPBufferSize"] obtain s' pkt' where
    run: "timedCopy_loop rs s p (make_bytes serverUDPBufferSize) =
      Ok (\<exists>(env, wr, r) \<in> set rs. r = Inl (NetError True), s', pkt')" by auto
  then show "\<exists>s' pkt'. timedCopy rs s p = Ok (\<exists>(env, wr, r) \<in> set rs. r = Inl (NetError True), s', pkt')"
    unfolding timedCopy_def by blast
  assume "\<forall>(env, wr, r) \<in> set rs. r \<noteq> Inl (NetError True)" and long: "ue_ParseAddr env (ue_String env a) = Some src"
    "maxAddrLen (ue_ParseAddr env) < length src"
  then have "timedCopy_loop rs s p (make_bytes serverUDPBufferSize) = Ok (False, s', pkt')" using run by auto
  then show "timedCopy (rs @ [(env, wr, Inr (d, a))]) s p = Panic ''slice bounds out of range''"
    by (simp add: timedCopy_def timedCopy_loop_append timedCopy_step_def Let_def long_source_address [OF long])
qed

text \<open>The reads of a socket that receives one packet and then nothing until its deadline.\<close>

theorem timedCopy_returns_witness:
  "\<exists>s' pkt'. timedCopy [(toy_udp_env, \<lambda>b. Inr (length b), Inr ([70, 71], toy_client)),
      (toy_udp_env, \<lambda>b. Inr (length b), Inl (NetError True))] toy_udp 0 = Ok (True, s', pkt')"
proof -
  let ?rs = "[(toy_udp_env, \<lambda>b. Inr (length b) :: goerror + nat, Inr ([70, 71], toy_client)),
      (toy_udp_env, \<lambda>b. Inr (length b) :: goerror + nat, Inl (NetError True))]"
  have mal: "maxAddrLen (ue_ParseAddr toy_udp_env) = 19" by (simp add: maxAddrLen_def toy_udp_env_def)
  have c: "nc_cipher (udp_conns toy_udp 0) = toy_cipher" by (simp add: toy_udp_def NewUDPService_def toy_natconn_def)
  have ss: "SaltSize toy_cipher \<le> 32" "cipher_ok (ue_crypto toy_udp_env) toy_cipher"
    using toy_cipher_ok by (simp_all add: cipher_ok_def toy_udp_env_def)
  then have base: "SaltSize toy_cipher + 19 \<le> serverUDPBufferSize" by (simp add: serverUDPBufferSize_def)
  have addr: "ue_ParseAddr toy_udp_env x = Some src \<Longrightarrow> length src \<le> 19" for x src
    by (auto simp: toy_udp_env_def split: if_splits)
  have "\<forall>(env, wr, r) \<in> set ?rs. copy_ok (nc_cipher (udp_conns toy_udp 0)) env r"
    using ss(2) base by (auto simp: copy_ok_def mal c dest: addr split: option.split)
  from timedCopy_returns [OF this] show ?thesis by simp
qed

end
