(* ===== verification/Utils_Numbers.thy ===== *)
theory Utils_Numbers
  imports Api_Traffic
begin

text \<open>
  Reading numbers: \<^verbatim>\<open>Str2Int\<close> of \<^verbatim>\<open>utils/functions.go\<close> and the parts of \<^verbatim>\<open>strconv\<close> and \<^verbatim>\<open>strings\<close> it needs.
  \<^verbatim>\<open>strconv.ParseUint\<close> and \<^verbatim>\<open>strconv.ParseInt\<close> are modelled for base 0 and 64 bits, the way the code calls
  them: the prefix of the string chooses the base, underscores may separate digits, and a value out of range is
  an error.
\<close>

section \<open>strconv\<close>

definition lower :: "char \<Rightarrow> char" where
  "lower c = (if of_char c \<in> {65..90 :: nat} then char_of (of_char c + 32 :: nat) else c)"

definition digit_value :: "char \<Rightarrow> nat option" where
  "digit_value c =
     (let n = of_char c :: nat; l = of_char (lower c) :: nat
      in if n \<in> {48..57} then Some (n - 48) else if l \<in> {97..122} then Some (l - 97 + 10) else None)"

text \<open>The base and the digits of an unsigned number.\<close>

fun number_base :: "string \<Rightarrow> nat \<times> string" where
  "number_base (c0 # c1 # c2 # cs) =
     (if c0 \<noteq> CHR ''0'' then (10, c0 # c1 # c2 # cs)
      else if lower c1 = CHR ''b'' then (2, c2 # cs)
      else if lower c1 = CHR ''o'' then (8, c2 # cs)
      else if lower c1 = CHR ''x'' then (16, c2 # cs)
      else (8, c1 # c2 # cs))"
| "number_base (c0 # cs) = (if c0 \<noteq> CHR ''0'' then (10, c0 # cs) else (8, cs))"
| "number_base [] = (10, [])"

text \<open>The digit loop: the value and whether an underscore was seen, or the first error, which is \<open>True\<close> for a value out
  of range.\<close>

fun digits_loop :: "nat \<Rightarrow> string \<Rightarrow> nat \<Rightarrow> bool \<Rightarrow> bool + nat \<times> bool" where
  "digits_loop base [] n u = Inr (n, u)"
| "digits_loop base (c # cs) n u =
     (if c = CHR ''_'' then digits_loop base cs n True
      else case digit_value c of
             None \<Rightarrow> Inl False
           | Some d \<Rightarrow>
               if base \<le> d then Inl False
               else if 2 ^ 64 \<le> n * base + d then Inl True
               else digits_loop base cs (n * base + d) u)"

text \<open>\<^verbatim>\<open>underscoreOK\<close>: every underscore is between digits; a base prefix counts as a digit.\<close>

datatype last_seen = AtStart | Digit | Underscore | Other

fun underscore_loop :: "bool \<Rightarrow> string \<Rightarrow> last_seen \<Rightarrow> bool" where
  "underscore_loop hex [] saw \<longleftrightarrow> saw \<noteq> Underscore"
| "underscore_loop hex (c # cs) saw =
     (if of_char c \<in> {48..57 :: nat} \<or> hex \<and> of_char (lower c) \<in> {97..102 :: nat} then underscore_loop hex cs Digit
      else if c = CHR ''_'' then saw = Digit \<and> underscore_loop hex cs Underscore
      else saw \<noteq> Underscore \<and> underscore_loop hex cs Other)"

fun underscoreOK :: "string \<Rightarrow> bool" where
  "underscoreOK (c0 # c1 # cs) =
     (if c0 = CHR ''0'' \<and> lower c1 \<in> {CHR ''b'', CHR ''o'', CHR ''x''}
      then underscore_loop (lower c1 = CHR ''x'') cs Digit else underscore_loop False (c0 # c1 # cs) AtStart)"
| "underscoreOK s = underscore_loop False s AtStart"

text \<open>The value \<open>ParseUint\<close> returns, with its error if any: 0 with a syntax error, the greatest value with a range error.\<close>

definition ParseUint :: "string \<Rightarrow> nat \<times> goerror option" where
  "ParseUint s =
     (if s = [] then (0, Some (ErrorNew ''invalid syntax''))
      else case number_base s of
        (base, digits) \<Rightarrow>
          (case digits_loop base digits 0 False of
             Inl tooBig \<Rightarrow>
               if tooBig then (2 ^ 64 - 1, Some (ErrorNew ''value out of range''))
               else (0, Some (ErrorNew ''invalid syntax''))
           | Inr (n, u) \<Rightarrow>
               if u \<and> \<not> underscoreOK s then (0, Some (ErrorNew ''invalid syntax''))
               else (n, None)))"

definition ParseInt :: "string \<Rightarrow> int \<times> goerror option" where
  "ParseInt s =
     (if s = [] then (0, Some (ErrorNew ''invalid syntax''))
      else let neg = (hd s = CHR ''-''); s1 = (if hd s = CHR ''+'' \<or> hd s = CHR ''-'' then tl s else s)
           in case ParseUint s1 of
                (un, err) \<Rightarrow>
                  (case err of
                     Some e \<Rightarrow> if un = 0 then (0, Some e)
                               else if neg then (- (2 ^ 63), Some e) else (2 ^ 63 - 1, Some e)
                   | None \<Rightarrow>
                       if \<not> neg \<and> 2 ^ 63 \<le> un then (2 ^ 63 - 1, Some (ErrorNew ''value out of range''))
                       else if neg \<and> 2 ^ 63 < un then (- (2 ^ 63), Some (ErrorNew ''value out of range''))
                       else (if neg then - int un else int un, None)))"

section \<open>utils.Str2Int\<close>

definition Str2Int :: "string \<Rightarrow> int" where
  "Str2Int pre = (case ParseInt pre of (val, err) \<Rightarrow> if err = None then val else 0)"

section \<open>Lemmas\<close>

definition is_digit :: "char \<Rightarrow> bool" where
  "is_digit c \<longleftrightarrow> of_char c \<in> {48..57 :: nat}"

definition digits_value :: "string \<Rightarrow> nat" where
  "digits_value ds = foldl (\<lambda>n c. n * 10 + (of_char c - 48)) 0 ds"

lemma digits_foldl: "foldl (\<lambda>n c. n * 10 + (of_char c - 48)) m ds = m * 10 ^ length ds + digits_value ds"
proof (induction ds arbitrary: m)
  case (Cons d ds)
  have "digits_value (d # ds) = (of_char d - 48) * 10 ^ length ds + digits_value ds"
    using Cons [of "of_char d - 48"] by (simp add: digits_value_def)
  with Cons [of "m * 10 + (of_char d - 48)"] show ?case by (simp add: algebra_simps)
qed (simp add: digits_value_def)

lemma digits_loop_decimal:
  "list_all is_digit ds \<Longrightarrow> n < 2 ^ 64 \<Longrightarrow> digits_loop 10 ds n u =
     (if n * 10 ^ length ds + digits_value ds < 2 ^ 64 then Inr (n * 10 ^ length ds + digits_value ds, u) else Inl True)"
proof (induction ds arbitrary: n)
  case Nil
  then show ?case by (simp add: digits_value_def)
next
  case (Cons d ds)
  define v :: nat where "v = of_char d - 48"
  from Cons.prems have d: "digit_value d = Some v" "v < 10" "d \<noteq> CHR ''_''"
    by (auto simp: is_digit_def digit_value_def v_def)
  have "digits_value (d # ds) = v * 10 ^ length ds + digits_value ds"
    using digits_foldl [of v ds] by (simp add: digits_value_def v_def)
  then have all: "n * 10 ^ length (d # ds) + digits_value (d # ds) = (n * 10 + v) * 10 ^ length ds + digits_value ds"
    by (simp add: algebra_simps)
  have step: "digits_loop 10 (d # ds) n u = (if 2 ^ 64 \<le> n * 10 + v then Inl True else digits_loop 10 ds (n * 10 + v) u)"
    using d by simp
  show ?case
  proof (cases "2 ^ 64 \<le> n * 10 + v")
    case True
    have "n * 10 + v \<le> (n * 10 + v) * 10 ^ length ds" by simp
    with True have "\<not> (n * 10 + v) * 10 ^ length ds + digits_value ds < 2 ^ 64" by linarith
    with True step all show ?thesis by simp
  next
    case False
    then have "n * 10 + v < 2 ^ 64" by simp
    from Cons.IH [OF _ this] Cons.prems False step all show ?thesis by simp
  qed
qed

text \<open>What \<^verbatim>\<open>strconv.Itoa\<close> writes: digits, the first of which is not 0 unless the number is.\<close>

lemma itoa_loop_digits:
  "list_all is_digit acc \<Longrightarrow> list_all is_digit (itoa_loop n acc) \<and>
     digits_value (itoa_loop n acc) = n * 10 ^ length acc + digits_value acc \<and>
     itoa_loop n acc \<noteq> [] \<and> (0 < n \<longrightarrow> hd (itoa_loop n acc) \<noteq> CHR ''0'')"
proof (induction n acc rule: itoa_loop.induct)
  case (1 n acc)
  let ?c = "char_of (48 + n mod 10) :: char"
  have c: "of_char ?c = 48 + n mod 10"
  proof -
    have "n mod 10 < 10" by simp
    then have "48 + n mod 10 < 256" by linarith
    then show ?thesis by (simp add: of_char_of)
  qed
  have dv: "digits_value (?c # acc) = (n mod 10) * 10 ^ length acc + digits_value acc"
    using digits_foldl [of "of_char ?c - 48" acc] by (simp add: digits_value_def c)
  have "n mod 10 < 10" by simp
  then have "is_digit ?c" by (simp only: is_digit_def c atLeastAtMost_iff) simp
  with "1.prems" have acc': "list_all is_digit (?c # acc)" by simp
  show ?case
  proof (cases "n < 10")
    case True
    have "?c \<noteq> CHR ''0''" if "0 < n"
    proof
      assume "?c = CHR ''0''"
      then have "of_char ?c = (48 :: nat)" by simp
      with c True that show False by simp
    qed
    with True acc' dv show ?thesis by (simp add: itoa_loop.simps [of n])
  next
    case False
    have "a * 10 ^ Suc k + b * 10 ^ k = (10 * a + b) * 10 ^ k" for a b k :: nat
      by (simp add: algebra_simps)
    from this [of "n div 10" "length acc" "n mod 10"]
    have "(n div 10) * 10 ^ Suc (length acc) + ((n mod 10) * 10 ^ length acc) = n * 10 ^ length acc" by simp
    with "1.IH" [OF refl False acc'] False dv show ?thesis
      by (simp add: itoa_loop.simps [of n] Let_def)
  qed
qed

section \<open>Properties\<close>

text \<open>Numbers survive being written and read. What \<^verbatim>\<open>strconv.Itoa\<close> writes for any number of the range of \<^verbatim>\<open>int64\<close>
  \<open>Str2Int\<close> reads back, negative numbers included; an empty string and a number out of that range read as 0.
  (A leading zero makes the number octal.)\<close>

lemma Str2Int_Itoa:
  "Str2Int (Itoa i) = (if - (2 ^ 63) \<le> i \<and> i < 2 ^ 63 then i else 0) \<and>
   Str2Int '''' = 0 \<and> Str2Int ''0443'' = 291"
proof -
  define ds where "ds = itoa_loop (nat \<bar>i\<bar>) []"
  from itoa_loop_digits [of "[]" "nat \<bar>i\<bar>"] have ds: "list_all is_digit ds" "digits_value ds = nat \<bar>i\<bar>" "ds \<noteq> []"
    "i \<noteq> 0 \<longrightarrow> hd ds \<noteq> CHR ''0''"
    by (auto simp: ds_def digits_value_def simp del: itoa_loop.simps)
  have lt: "(0 :: nat) < 2 ^ 64" by simp
  have parse: "ParseUint ds = (if 2 ^ 64 \<le> nat \<bar>i\<bar> then (2 ^ 64 - 1, Some (ErrorNew ''value out of range'')) else (nat \<bar>i\<bar>, None))"
  proof (cases "i = 0")
    case True
    have "ds = ''0''" unfolding ds_def True by code_simp
    with True show ?thesis by (simp add: ParseUint_def)
  next
    case False
    have "number_base ds = (10, ds)" using ds(3,4) False by (cases ds rule: number_base.cases) auto
    with digits_loop_decimal [OF ds(1) lt, of False] ds(2,3) show ?thesis by (simp add: ParseUint_def)
  qed
  have hd: "hd ds \<noteq> CHR ''-''" "hd ds \<noteq> CHR ''+''" using ds(1,3) by (cases ds; auto simp: is_digit_def)+
  have itoa: "Itoa i = (if i < 0 then CHR ''-'' # ds else ds)" by (simp add: Itoa_def ds_def del: itoa_loop.simps)
  have "Str2Int (Itoa i) = (if - (2 ^ 63) \<le> i \<and> i < 2 ^ 63 then i else 0)"
  proof (cases "i < 0")
    case True
    then have "ParseInt (Itoa i) = (if 2 ^ 64 \<le> nat \<bar>i\<bar> then (- (2 ^ 63), Some (ErrorNew ''value out of range''))
        else if 2 ^ 63 < nat \<bar>i\<bar> then (- (2 ^ 63), Some (ErrorNew ''value out of range'')) else (- int (nat \<bar>i\<bar>), None))"
      by (simp add: itoa ParseInt_def parse)
    with True show ?thesis by (simp add: Str2Int_def) arith
  next
    case False
    then have "ParseInt (Itoa i) = (if 2 ^ 64 \<le> nat \<bar>i\<bar> then (2 ^ 63 - 1, Some (ErrorNew ''value out of range''))
        else if 2 ^ 63 \<le> nat \<bar>i\<bar> then (2 ^ 63 - 1, Some (ErrorNew ''value out of range'')) else (int (nat \<bar>i\<bar>), None))"
      using hd ds(3) by (simp add: itoa ParseInt_def parse)
    with False show ?thesis by (simp add: Str2Int_def) arith
  qed
  moreover have "Str2Int '''' = 0" "Str2Int ''0443'' = 291"
    by (simp_all add: Str2Int_def ParseInt_def ParseUint_def digit_value_def lower_def)
  ultimately show ?thesis by simp
qed

end
