(* ===== verification/Api_Client.thy ===== *)
theory Api_Client
  imports Utils_Numbers
begin

text \<open>
  The rest of \<^verbatim>\<open>api/api.go\<close>: registering the node (\<^verbatim>\<open>Init\<close>), the report of the device, the parser of log responses and
  opening the database. The HTTP client, gzip, JSON and the database driver are parameters, collected in
  \<open>api_env\<close>: what a GET and a POST return, the decoders, and the fields that the code reads of the JSON answer
  (a port that is not a string reads as the empty string, as the code ignores that error; a missing id reads as 0
  and a missing cipher as the empty string). The pseudo-random shuffle is a parameter too.
\<close>

section \<open>The HTTP client\<close>

record Config =
  cfg_APIHost :: string
  cfg_LogHost :: string
  cfg_NodeID :: int
  cfg_Key :: string

text \<open>What \<open>New\<close> sets of the HTTP client: retries, timeout (in nanoseconds), base URL and the query parameters of every
  request. Its two hooks only log.\<close>

record http_client =
  hc_retryCount :: nat
  hc_timeout :: int
  hc_baseURL :: string
  hc_queryParams :: "string \<rightharpoonup> string"
  hc_debug :: bool

definition New :: "Config \<Rightarrow> int \<Rightarrow> http_client \<times> APIClient" where
  "New apiConfig t =
     (\<lparr>hc_retryCount = 3, hc_timeout = 5 * 1000000000, hc_baseURL = cfg_APIHost apiConfig,
       hc_queryParams = [''n'' \<mapsto> Itoa (cfg_NodeID apiConfig), ''t'' \<mapsto> cfg_Key apiConfig], hc_debug = False\<rparr>,
      api_New (cfg_NodeID apiConfig) t)"

definition Debug :: "http_client \<Rightarrow> http_client" where
  "Debug client = client\<lparr>hc_debug := True\<rparr>"

text \<open>The query parameters that a request carries: its own go before the client's.\<close>

definition request_params :: "http_client \<Rightarrow> (string \<times> string) list \<Rightarrow> string \<rightharpoonup> string" where
  "request_params client params = hc_queryParams client ++ map_of params"

text \<open>Every request identifies the node's key; a request that names the node itself is not affected by the id that the
  client was made with, which stays 0 when the panel assigns one together with a port.\<close>

lemma request_params_New:
  assumes "''t'' \<notin> fst ` set params"
  shows "request_params (fst (New cfg t)) params ''t'' = Some (cfg_Key cfg)"
    and "request_params (fst (New cfg t)) ((''n'', Itoa i) # params) ''n'' = Some (Itoa i)"
    and "''n'' \<notin> fst ` set params \<Longrightarrow> request_params (fst (New cfg t)) params ''n'' = Some (Itoa (cfg_NodeID cfg))"
proof -
  have none: "x \<notin> fst ` set params \<Longrightarrow> map_of params x = None" for x by (simp add: map_of_eq_None_iff)
  show "request_params (fst (New cfg t)) params ''t'' = Some (cfg_Key cfg)"
    using none [OF assms] by (simp add: request_params_def New_def map_add_def)
  show "request_params (fst (New cfg t)) ((''n'', Itoa i) # params) ''n'' = Some (Itoa i)"
    by (simp add: request_params_def)
  show "request_params (fst (New cfg t)) params ''n'' = Some (Itoa (cfg_NodeID cfg))" if "''n'' \<notin> fst ` set params"
    using none [OF that] by (simp add: request_params_def New_def map_add_def)
qed

section \<open>Requests\<close>

record 'j api_env =
  ae_APIHost :: string
  ae_LogHost :: string
  ae_get :: "string \<Rightarrow> goerror + Response"
  ae_post :: "string \<Rightarrow> (string \<times> string) list \<Rightarrow> goerror + Response"
  ae_genDecode :: "bytes \<Rightarrow> bytes result"
  ae_newJson :: "bytes \<Rightarrow> 'j result"
  ae_port :: "'j \<Rightarrow> string"
  ae_id :: "'j \<Rightarrow> int"
  ae_cipher :: "'j \<Rightarrow> string"
  ae_shuffle :: "int list \<Rightarrow> int list"

definition assembleURL :: "'j api_env \<Rightarrow> string \<Rightarrow> string" where
  "assembleURL env path = ae_APIHost env @ path"

definition assembleLogURL :: "'j api_env \<Rightarrow> string \<Rightarrow> string" where
  "assembleLogURL env path = ae_LogHost env @ path"

definition parseLogResponse :: "'j api_env \<Rightarrow> string \<Rightarrow> (goerror + Response) \<Rightarrow> 'j result" where
  "parseLogResponse env path r =
     (case r of
        Inl e \<Rightarrow> Fail (ErrorWrap (''request '' @ assembleLogURL env path @ '' failed'') e)
      | Inr res \<Rightarrow>
          if StatusCode res > 400 then Fail (ErrorNew (''request '' @ assembleLogURL env path @ '' failed''))
          else bind_result (ae_genDecode env (Body res)) (\<lambda>dec.
                 case ae_newJson env dec of
                   Ok j \<Rightarrow> Ok j
                 | Fail e \<Rightarrow> Fail (ErrorNew ''ret invalid'')
                 | Panic m \<Rightarrow> Panic m))"

definition api_response :: "'j api_env \<Rightarrow> string \<Rightarrow> (goerror + Response) \<Rightarrow> 'j result" where
  "api_response env path r = parseResponse (ae_genDecode env) (ae_newJson env) (ae_APIHost env) path r"

section \<open>Registering the node\<close>

definition fallback_ports :: "int list" where
  "fallback_ports = [11451, 14514, 26708, 36708, 10080, 28818, 21818]"

definition ERandPort :: "(int list \<Rightarrow> int list) \<Rightarrow> int result" where
  "ERandPort shuffle =
     (case shuffle fallback_ports of [] \<Rightarrow> Panic ''index out of range'' | p # ps \<Rightarrow> Ok p)"

text \<open>\<open>Init\<close>: its error, and the client, whose node id is set as soon as the answer was parsed.\<close>

definition api_Init :: "'j api_env \<Rightarrow> APIClient \<Rightarrow> unit result \<times> APIClient" where
  "api_Init env c =
     (case ae_get env ''/api/SsInit'' of
        Inl err \<Rightarrow> (Fail err, c)
      | Inr res \<Rightarrow>
          (case api_response env ''/api/SsInit'' (Inr res) of
             Panic m \<Rightarrow> (Panic m, c)
           | Fail err \<Rightarrow> (Fail err, c)
           | Ok res_j \<Rightarrow>
               (let c1 = c\<lparr>NodeID := ae_id env res_j\<rparr>; port = Str2Int (ae_port env res_j)
                in if port \<noteq> 0
                   then (Ok (), c1\<lparr>api_Cipher := ae_cipher env res_j, api_Port := port\<rparr>)
                   else case ERandPort (ae_shuffle env) of
                     Panic m \<Rightarrow> (Panic m, c1)
                   | Fail err \<Rightarrow> (Fail err, c1)
                   | Ok p \<Rightarrow>
                       (case ae_post env ''/api/SsInit'' [(''n'', Itoa (ae_id env res_j)), (''p'', Itoa p)] of
                          Inl err \<Rightarrow> (Fail err, c1)
                        | Inr r \<Rightarrow> (Ok (), c1\<lparr>api_Cipher := ae_cipher env res_j, api_Port := p\<rparr>)))))"

section \<open>Reporting the device\<close>

text \<open>\<open>q\<close> is the encoded report.\<close>

definition ReportSys :: "'j api_env \<Rightarrow> APIClient \<Rightarrow> string \<Rightarrow> unit result" where
  "ReportSys env c q =
     bind_result (api_response env ''/api/SsRepoSys'' (ae_post env ''/api/SsRepoSys'' [(''n'', Itoa (NodeID c)), (''q'', q)]))
       (\<lambda>_. Ok ())"

section \<open>The database\<close>

text \<open>\<open>sql_Open\<close> opens a data source, \<open>ping\<close> contacts it.\<close>

definition NewDatabase ::
  "(string \<Rightarrow> goerror + database) \<Rightarrow> (database \<Rightarrow> goerror option) \<Rightarrow> string \<Rightarrow> string \<Rightarrow> string \<Rightarrow> goerror + database" where
  "NewDatabase sql_Open ping username password dbname =
     (let dsn = username @ '':'' @ password @ ''@tcp(slave.czw4eey0m0hj.ca-central-1.rds.amazonaws.com:3306)/'' @ dbname
      in case sql_Open dsn of
           Inl err \<Rightarrow> Inl err
         | Inr db \<Rightarrow> (case ping db of Some err \<Rightarrow> Inl err | None \<Rightarrow> Inr db))"

section \<open>Lemmas\<close>

lemma api_Init_tasks [simp]: "Rtask (snd (api_Init env c)) = Rtask c" "Wtask (snd (api_Init env c)) = Wtask c"
  by (simp_all add: api_Init_def Let_def split: sum.split result.split)

text \<open>After \<open>Init\<close> has succeeded the client has the port that the panel named, if it named one, and otherwise one of the
  seven fallback ports, which it has announced. When it fails, port and cipher are as before.\<close>

lemma api_Init_port:
  assumes "\<And>xs. mset (ae_shuffle env xs) = mset xs" and "api_Init env c = (r, c')"
  shows "(r = Ok () \<longrightarrow> api_Port c' \<noteq> 0 \<and>
      (\<exists>j. NodeID c' = ae_id env j \<and> api_Cipher c' = ae_cipher env j \<and>
         (api_Port c' = Str2Int (ae_port env j) \<or>
          Str2Int (ae_port env j) = 0 \<and> api_Port c' \<in> set fallback_ports \<and>
          (\<exists>x. ae_post env ''/api/SsInit'' [(''n'', Itoa (ae_id env j)), (''p'', Itoa (api_Port c'))] = Inr x)))) \<and>
    (r \<noteq> Ok () \<longrightarrow> api_Port c' = api_Port c \<and> api_Cipher c' = api_Cipher c) \<and>
    Rtask c' = Rtask c \<and> Wtask c' = Wtask c"
proof -
  have rand: "p \<in> set fallback_ports \<and> p \<noteq> 0" if "ERandPort (ae_shuffle env) = Ok p" for p
  proof -
    from that have "p \<in> set (ae_shuffle env fallback_ports)" by (auto simp: ERandPort_def split: list.splits)
    then have "p \<in> set fallback_ports" using assms(1) by (metis set_mset_mset)
    then show ?thesis by (auto simp: fallback_ports_def)
  qed
  from assms(2) show ?thesis
    by (auto simp: api_Init_def Let_def split: sum.splits result.splits if_splits dest: rand) (blast dest: rand)
qed

end
