(* ===== verification/Server_Main.thy ===== *)
theory Server_Main
  imports Service_CipherList Service_Replay Api_Client Metrics
begin

text \<open>
  Model of \<^verbatim>\<open>cmd/quick_ss/main.go\<close>: the ports of the server, loading a list of users, the loops that watch the user
  list and report traffic, and start-up.

  \<^verbatim>\<open>SSServer.ports\<close> is a map from port numbers; of an \<^verbatim>\<open>ssPort\<close> the model keeps the list of keys that its two
  services share (their behaviour is in the theories \<^verbatim>\<open>Service_TCP\<close>, \<^verbatim>\<open>Service_UDP\<close> and
  \<^verbatim>\<open>Service_Lifecycle\<close>). The sockets that are open are part of the state. What the operating system answers to
  opening and closing sockets, the order in which Go iterates a map, the clock and the random choice of a port
  are arguments. Each tick of a watching loop is one function.
\<close>

section \<open>Ports\<close>

record ssPort =
  port_cipherList :: cipherList

record SSServer =
  ss_m :: shadowsocksMetrics
  ss_replayCache :: ReplayCache
  ss_ports :: "int \<rightharpoonup> ssPort"
  ss_api :: APIClient
  ss_tcp_open :: "int set"
  ss_udp_open :: "int set"
  ss_alloc :: nat

text \<open>The errors of the operating system, if any, when a socket of a port is opened or closed.\<close>

record os_env =
  oe_ListenTCP :: "int \<Rightarrow> goerror option"
  oe_ListenUDP :: "int \<Rightarrow> goerror option"
  oe_CloseTCP :: "int \<Rightarrow> goerror option"
  oe_CloseUDP :: "int \<Rightarrow> goerror option"

text \<open>A port that is open cannot be opened again, except that port 0 asks the operating system for any free port. Sockets
  are recorded under the number that was asked for.\<close>

definition listen_error :: "goerror option \<Rightarrow> int set \<Rightarrow> int \<Rightarrow> goerror option" where
  "listen_error e open_ports n =
     (case e of Some err \<Rightarrow> Some err
      | None \<Rightarrow> if n \<noteq> 0 \<and> n \<in> open_ports then Some (ErrorNew ''bind: address already in use'') else None)"

definition no_entries :: "nat \<Rightarrow> CipherEntry" where
  "no_entries i = \<lparr>ID = '''', entry_Cipher = \<lparr>cipher_aead = \<lparr>name = '''', newInstance = \<lambda>_. Fail EOF, keySize = 0, saltSize = 0,
      tagSize = 0\<rparr>, cipher_secret = []\<rparr>, entry_SaltGenerator = RandomSaltGenerator, lastClientIP = []\<rparr>"

definition startPort :: "os_env \<Rightarrow> SSServer \<Rightarrow> int \<Rightarrow> SSServer \<times> goerror option" where
  "startPort env s portNum =
     (case listen_error (oe_ListenTCP env portNum) (ss_tcp_open s) portNum of
        Some err \<Rightarrow> (s, Some (ErrorWrap (''Failed to start TCP on port '' @ Itoa portNum) err))
      | None \<Rightarrow>
          (let s1 = s\<lparr>ss_tcp_open := insert portNum (ss_tcp_open s)\<rparr>
           in case listen_error (oe_ListenUDP env portNum) (ss_udp_open s1) portNum of
                Some err \<Rightarrow> (s1, Some (ErrorWrap (''Failed to start UDP on port '' @ Itoa portNum) err))
              | None \<Rightarrow>
                  (s1\<lparr>ss_udp_open := insert portNum (ss_udp_open s1),
                      ss_ports := (ss_ports s1)(portNum \<mapsto> \<lparr>port_cipherList = NewCipherList no_entries\<rparr>)\<rparr>, None)))"

text \<open>Stopping a service closes its socket, even when closing reports an error.\<close>

definition removePort :: "os_env \<Rightarrow> SSServer \<Rightarrow> int \<Rightarrow> SSServer \<times> goerror option" where
  "removePort env s portNum =
     (case ss_ports s portNum of
        None \<Rightarrow> (s, Some (ErrorNew (''Port '' @ Itoa portNum @ '' doesn't exist'')))
      | Some port \<Rightarrow>
          (let s1 = s\<lparr>ss_tcp_open := ss_tcp_open s - {portNum}, ss_udp_open := ss_udp_open s - {portNum},
                     ss_ports := (ss_ports s)(portNum := None)\<rparr>
           in case oe_CloseTCP env portNum of
                Some err \<Rightarrow> (s1, Some (ErrorWrap (''Failed to close listener on '' @ Itoa portNum) err))
              | None \<Rightarrow>
                  (case oe_CloseUDP env portNum of
                     Some err \<Rightarrow> (s1, Some (ErrorWrap (''Failed to close packetConn on '' @ Itoa portNum) err))
                   | None \<Rightarrow> (s1, None))))"

section \<open>Loading users\<close>

text \<open>The map \<open>portCiphers\<close> in order of insertion: appending an entry to the list of its port.\<close>

definition PushBack :: "(int \<times> CipherEntry list) list \<Rightarrow> int \<Rightarrow> CipherEntry \<Rightarrow> (int \<times> CipherEntry list) list" where
  "PushBack pcs port e =
     (case map_of pcs port of
        None \<Rightarrow> pcs @ [(port, [e])]
      | Some es \<Rightarrow> map (\<lambda>(p, l). if p = port then (p, l @ [e]) else (p, l)) pcs)"

fun load_keys ::
  "crypto \<Rightarrow> aeadSpec list \<Rightarrow> Key list \<Rightarrow> (int \<times> CipherEntry list) list \<Rightarrow> (int \<times> CipherEntry list) list result" where
  "load_keys cr specs [] pcs = Ok pcs"
| "load_keys cr specs (k # ks) pcs =
     (case NewCipher cr specs (key_Cipher k) (Secret k) of
        Ok c \<Rightarrow> load_keys cr specs ks (PushBack pcs (Port k) (MakeCipherEntry cr (key_ID k) c (Secret k)))
      | Fail e \<Rightarrow> Fail (ErrorWrap (''Failed to create cipher for key '' @ key_ID k) e)
      | Panic m \<Rightarrow> Panic m)"

text \<open>The loop over \<open>portChanges\<close>, with the ports in the order of iteration.\<close>

fun change_ports :: "os_env \<Rightarrow> (int \<Rightarrow> int) \<Rightarrow> int list \<Rightarrow> SSServer \<Rightarrow> SSServer \<times> goerror option" where
  "change_ports env portChanges [] s = (s, None)"
| "change_ports env portChanges (portNum # ps) s =
     (if portChanges portNum = - 1 then
        (case removePort env s portNum of
           (s1, Some err) \<Rightarrow> (s1, Some (ErrorWrap (''Failed to remove port '' @ Itoa portNum) err))
         | (s1, None) \<Rightarrow> change_ports env portChanges ps s1)
      else if portChanges portNum = 1 then
        (case startPort env s portNum of
           (s1, Some err) \<Rightarrow> (s1, Some (ErrorWrap (''Failed to start port '' @ Itoa portNum) err))
         | (s1, None) \<Rightarrow> change_ports env portChanges ps s1)
      else change_ports env portChanges ps s)"

text \<open>Replacing the keys of a port by a new list, whose elements are numbered from \<open>base\<close>.\<close>

definition install :: "cipherList \<Rightarrow> nat \<Rightarrow> CipherEntry list \<Rightarrow> cipherList" where
  "install cl base es =
     Update (cl\<lparr>cl_entry := \<lambda>i. if base \<le> i \<and> i < base + length es then es ! (i - base) else cl_entry cl i\<rparr>)
       [base..<base + length es]"

fun update_lists :: "(int \<times> CipherEntry list) list \<Rightarrow> SSServer \<Rightarrow> SSServer result" where
  "update_lists [] s = Ok s"
| "update_lists ((portNum, es) # pcs) s =
     (case ss_ports s portNum of
        None \<Rightarrow> Panic ''invalid memory address or nil pointer dereference''
      | Some port \<Rightarrow>
          update_lists pcs
            (s\<lparr>ss_ports := (ss_ports s)(portNum \<mapsto> \<lparr>port_cipherList = install (port_cipherList port) (ss_alloc s) es\<rparr>),
               ss_alloc := ss_alloc s + length es\<rparr>))"

text \<open>\<open>order\<close> lists the keys of a map as Go iterates it, \<open>order2\<close> the entries of \<open>portCiphers\<close>.\<close>

definition doRun ::
  "os_env \<Rightarrow> crypto \<Rightarrow> aeadSpec list \<Rightarrow> (int set \<Rightarrow> int list) \<Rightarrow>
   ((int \<times> CipherEntry list) list \<Rightarrow> (int \<times> CipherEntry list) list) \<Rightarrow> SSServer \<Rightarrow> Key list \<Rightarrow> SSServer \<times> unit result" where
  "doRun env cr specs order order2 s users =
     (case load_keys cr specs users [] of
        Fail e \<Rightarrow> (s, Fail e)
      | Panic m \<Rightarrow> (s, Panic m)
      | Ok portCiphers \<Rightarrow>
          (let wanted = set (map fst portCiphers);
               portChanges = (\<lambda>p. (if p \<in> wanted then 1 else 0) - (if p \<in> dom (ss_ports s) then 1 else 0))
           in case change_ports env portChanges (order (wanted \<union> dom (ss_ports s))) s of
                (s1, Some e) \<Rightarrow> (s1, Fail e)
              | (s1, None) \<Rightarrow>
                  (case update_lists (order2 portCiphers) s1 of
                     Ok s2 \<Rightarrow> (s2\<lparr>ss_m := SetNumAccessKeys (ss_m s2) (int (length users)) (int (length portCiphers))\<rparr>, Ok ())
                   | Fail e \<Rightarrow> (s1, Fail e)
                   | Panic m \<Rightarrow> (s1, Panic m))))"

text \<open>\<open>Stop\<close> removes the ports in the order of iteration and returns at the first error.\<close>

fun stop_ports :: "os_env \<Rightarrow> int list \<Rightarrow> SSServer \<Rightarrow> SSServer \<times> goerror option" where
  "stop_ports env [] s = (s, None)"
| "stop_ports env (p # ps) s =
     (case removePort env s p of
        (s1, Some err) \<Rightarrow> (s1, Some err)
      | (s1, None) \<Rightarrow> stop_ports env ps s1)"

definition ss_Stop :: "os_env \<Rightarrow> (int set \<Rightarrow> int list) \<Rightarrow> SSServer \<Rightarrow> SSServer \<times> goerror option" where
  "ss_Stop env order s = stop_ports env (order (dom (ss_ports s))) s"

section \<open>Watching the users\<close>

text \<open>The loop of a tick of \<open>CheckUser\<close> over the users, with the map \<open>hash\<close> and the flag \<open>doNew\<close>. A key that is missing
  reads as 0.\<close>

fun check_keys :: "(Key \<rightharpoonup> 32 word) \<Rightarrow> bool \<Rightarrow> Key list \<Rightarrow> (Key \<rightharpoonup> 32 word) \<times> bool" where
  "check_keys hash doNew [] = (hash, doNew)"
| "check_keys hash doNew (k # ks) =
     (let hashkey = Key_Hash k; vok = (hash k \<noteq> None); vk = (case hash k of Some v \<Rightarrow> v | None \<Rightarrow> 0);
          doNew1 = (if \<not> vok then True else doNew); doNew2 = (if vk \<noteq> hashkey then True else doNew1)
      in check_keys (hash(k \<mapsto> hashkey)) doNew2 ks)"

definition CheckUser_tick :: "(Key \<rightharpoonup> 32 word) \<Rightarrow> Key list \<Rightarrow> (Key \<rightharpoonup> 32 word) \<times> bool" where
  "CheckUser_tick hash users =
     (if length users \<noteq> card (dom hash) then check_keys Map.empty True users else check_keys hash False users)"

text \<open>A tick with the run it triggers, whose error is dropped.\<close>

definition CheckUser_step ::
  "os_env \<Rightarrow> crypto \<Rightarrow> aeadSpec list \<Rightarrow> (int set \<Rightarrow> int list) \<Rightarrow>
   ((int \<times> CipherEntry list) list \<Rightarrow> (int \<times> CipherEntry list) list) \<Rightarrow>
   (Key \<rightharpoonup> 32 word) \<times> SSServer \<Rightarrow> Key list \<Rightarrow> (Key \<rightharpoonup> 32 word) \<times> SSServer" where
  "CheckUser_step env cr specs order order2 hs users =
     (case CheckUser_tick (fst hs) users of
        (hash', doNew) \<Rightarrow> (hash', if doNew then fst (doRun env cr specs order order2 (snd hs) users) else snd hs))"

section \<open>Reporting\<close>

text \<open>A tick of \<open>CheckRepo\<close> at time \<open>now\<close> (in seconds) hands the records it finds to \<open>ReportUserTraffic\<close>, if it is time to. When
  this HTTP request has returned, whatever its result, it replaces the list of records by an empty one. Connections that end
  between the two add records that are replaced as well: the halves are separate operations.\<close>

definition CheckRepo_due :: "int \<Rightarrow> APIClient \<Rightarrow> UserTraffic list option" where
  "CheckRepo_due now c =
     (if r_RepoList (Rtask c) = [] then None
      else if now - r_StartTime (Rtask c) > 9 then Some (r_RepoList (Rtask c))
      else None)"

definition CheckRepo_done :: "int \<Rightarrow> APIClient \<Rightarrow> APIClient" where
  "CheckRepo_done now c = c\<lparr>Rtask := \<lparr>r_StartTime = now, r_RepoList = []\<rparr>\<rparr>"

definition CheckWwwRepo_due :: "int \<Rightarrow> APIClient \<Rightarrow> WwwTraffic list option" where
  "CheckWwwRepo_due now c =
     (if w_RepoList (Wtask c) = [] then None
      else if now - w_StartTime (Wtask c) > 30 then Some (w_RepoList (Wtask c))
      else None)"

definition CheckWwwRepo_done :: "int \<Rightarrow> APIClient \<Rightarrow> APIClient" where
  "CheckWwwRepo_done now c = c\<lparr>Wtask := \<lparr>w_StartTime = now, w_RepoList = []\<rparr>\<rparr>"

text \<open>A report that is under way: the time its tick read and the number of records it was handed, which are the first ones of
  the list. The others have been handed to no report yet.\<close>

type_synonym report_run = "int \<times> nat"

definition unreported :: "report_run option \<Rightarrow> UserTraffic list \<Rightarrow> UserTraffic list" where
  "unreported rr l = drop (case rr of Some (now, n) \<Rightarrow> n | None \<Rightarrow> 0) l"

section \<open>Start-up\<close>

text \<open>The error of \<open>Init\<close> is dropped. \<open>odb\<close> is the database that \<open>GetUsers\<close> opens.\<close>

definition RunSSServer ::
  "os_env \<Rightarrow> crypto \<Rightarrow> aeadSpec list \<Rightarrow> (int set \<Rightarrow> int list) \<Rightarrow>
   ((int \<times> CipherEntry list) list \<Rightarrow> (int \<times> CipherEntry list) list) \<Rightarrow> 'j api_env \<Rightarrow> (goerror + database) \<Rightarrow>
   shadowsocksMetrics \<Rightarrow> int \<Rightarrow> APIClient \<Rightarrow> SSServer result" where
  "RunSSServer env cr specs order order2 aenv odb sm replayHistory api2 =
     bind_result (NewReplayCache replayHistory) (\<lambda>rc.
       case api_Init aenv api2 of
         (Panic m, c) \<Rightarrow> Panic m
       | (_, c) \<Rightarrow>
           bind_result (GetUsers odb (NodeID c)) (\<lambda>us.
             let server = \<lparr>ss_m = sm, ss_replayCache = rc, ss_ports = Map.empty, ss_api = c,
                           ss_tcp_open = {}, ss_udp_open = {}, ss_alloc = 0\<rparr>
             in case doRun env cr specs order order2 server us of
                  (s, Ok _) \<Rightarrow> Ok s
                | (s, Fail e) \<Rightarrow> Fail (ErrorWrap ''Failed to dorun'' e)
                | (s, Panic m) \<Rightarrow> Panic m))"

text \<open>What \<open>main\<close> runs at time \<open>t\<close>: a client without a node id, and no replay history.\<close>

definition main_server ::
  "os_env \<Rightarrow> crypto \<Rightarrow> aeadSpec list \<Rightarrow> (int set \<Rightarrow> int list) \<Rightarrow>
   ((int \<times> CipherEntry list) list \<Rightarrow> (int \<times> CipherEntry list) list) \<Rightarrow> 'j api_env \<Rightarrow> (goerror + database) \<Rightarrow> int \<Rightarrow>
   SSServer result" where
  "main_server env cr specs order order2 aenv odb t =
     RunSSServer env cr specs order order2
       (aenv\<lparr>ae_APIHost := ''https://aerodrome.onemelody.cn/'', ae_LogHost := ''http://vice.mobileairport.net/''\<rparr>) odb
       (SetBuildInfo newShadowsocksMetrics ''dev'') 0 (api_New 0 t)"

section \<open>Lemmas on loading users\<close>

definition key_entry :: "crypto \<Rightarrow> aeadSpec list \<Rightarrow> Key \<Rightarrow> CipherEntry \<Rightarrow> bool" where
  "key_entry cr specs k e \<longleftrightarrow>
     (\<exists>c. NewCipher cr specs (key_Cipher k) (Secret k) = Ok c \<and> e = MakeCipherEntry cr (key_ID k) c (Secret k))"

text \<open>What \<open>portCiphers\<close> holds after some users: one list per port, with the port's users in order.\<close>

definition loaded :: "crypto \<Rightarrow> aeadSpec list \<Rightarrow> Key list \<Rightarrow> (int \<times> CipherEntry list) list \<Rightarrow> bool" where
  "loaded cr specs ks pcs \<longleftrightarrow>
     distinct (map fst pcs) \<and> set (map fst pcs) = Port ` set ks \<and>
     (\<forall>(p, es) \<in> set pcs. list_all2 (key_entry cr specs) (filter (\<lambda>k. Port k = p) ks) es)"


lemma loaded_PushBack:
  assumes "loaded cr specs ks pcs" and "key_entry cr specs k e"
  shows "loaded cr specs (ks @ [k]) (PushBack pcs (Port k) e)"
proof (cases "map_of pcs (Port k)")
  case None
  then have new: "Port k \<notin> Port ` set ks"
    using assms(1) by (simp add: loaded_def map_of_eq_None_iff)
  then have none: "filter (\<lambda>k'. Port k' = Port k) ks = []" by (auto simp: filter_empty_conv image_iff)
  have "list_all2 (key_entry cr specs) (filter (\<lambda>k'. Port k' = p) (ks @ [k])) es"
    if "(p, es) \<in> set (PushBack pcs (Port k) e)" for p es
  proof (cases "p = Port k")
    case True
    have "(Port k, l) \<notin> set pcs" for l using None by (auto simp: map_of_eq_None_iff rev_image_eqI)
    with that None True have "es = [e]" by (auto simp: PushBack_def)
    with True none assms(2) show ?thesis by simp
  next
    case False
    with that None assms(1) show ?thesis by (auto simp: PushBack_def loaded_def)
  qed
  moreover have "map fst (PushBack pcs (Port k) e) = map fst pcs @ [Port k]"
    using None by (simp add: PushBack_def)
  moreover have "Port k \<notin> set (map fst pcs)" using None by (simp add: map_of_eq_None_iff)
  ultimately show ?thesis using assms(1) by (auto simp: loaded_def)
next
  case (Some l)
  have mem: "(Port k, l) \<in> set pcs" using Some by (rule map_of_SomeD)
  have keys: "map fst (PushBack pcs (Port k) e) = map fst pcs"
    using Some by (auto simp: PushBack_def)
  have "Port k \<in> Port ` set ks"
    using mem assms(1) unfolding loaded_def by (metis fst_conv in_set_zipE set_map image_eqI)
  moreover have "list_all2 (key_entry cr specs) (filter (\<lambda>k'. Port k' = p) (ks @ [k])) es"
    if "(p, es) \<in> set (PushBack pcs (Port k) e)" for p es
  proof -
    from that Some obtain l' where l': "(p, l') \<in> set pcs" "es = (if p = Port k then l' @ [e] else l')"
      by (auto simp: PushBack_def split: if_splits)
    then have "list_all2 (key_entry cr specs) (filter (\<lambda>k'. Port k' = p) ks) l'"
      using assms(1) by (auto simp: loaded_def)
    with l'(2) assms(2) show ?thesis by (auto intro: list_all2_appendI)
  qed
  ultimately show ?thesis using assms(1) keys by (auto simp: loaded_def)
qed

lemma load_keys_spec:
  "load_keys cr specs ks pcs = Ok pcs' \<Longrightarrow> loaded cr specs ks0 pcs \<Longrightarrow> loaded cr specs (ks0 @ ks) pcs'"
proof (induction ks arbitrary: pcs ks0)
  case (Cons k ks)
  from Cons.prems(1) obtain c where c: "NewCipher cr specs (key_Cipher k) (Secret k) = Ok c"
    and rest: "load_keys cr specs ks (PushBack pcs (Port k) (MakeCipherEntry cr (key_ID k) c (Secret k))) = Ok pcs'"
    by (auto split: result.splits)
  have "loaded cr specs (ks0 @ [k]) (PushBack pcs (Port k) (MakeCipherEntry cr (key_ID k) c (Secret k)))"
    using Cons.prems(2) c by (intro loaded_PushBack) (auto simp: key_entry_def)
  from Cons.IH [OF rest this] show ?case by simp
qed simp

lemma load_keys_total:
  assumes "\<forall>k \<in> set ks. \<exists>c. NewCipher cr specs (key_Cipher k) (Secret k) = Ok c"
  shows "\<exists>pcs'. load_keys cr specs ks pcs = Ok pcs'"
  using assms
proof (induction ks arbitrary: pcs)
  case (Cons k ks)
  from Cons.prems obtain c where "NewCipher cr specs (key_Cipher k) (Secret k) = Ok c" by auto
  with Cons show ?case by simp
qed simp

section \<open>Lemmas on ports\<close>

definition os_ok :: "os_env \<Rightarrow> bool" where
  "os_ok env \<longleftrightarrow> (\<forall>p. oe_ListenTCP env p = None \<and> oe_ListenUDP env p = None \<and> oe_CloseTCP env p = None \<and> oe_CloseUDP env p = None)"

text \<open>Every port that is served has its sockets, and no other UDP socket is open; \<open>ports_exact\<close> also excludes other TCP
  sockets.\<close>

definition ports_inv :: "SSServer \<Rightarrow> bool" where
  "ports_inv s \<longleftrightarrow> finite (dom (ss_ports s)) \<and> ss_udp_open s = dom (ss_ports s) \<and> dom (ss_ports s) \<subseteq> ss_tcp_open s"

definition ports_exact :: "SSServer \<Rightarrow> bool" where
  "ports_exact s \<longleftrightarrow> ports_inv s \<and> ss_tcp_open s = dom (ss_ports s)"

lemma startPort_inv: "ports_inv s \<Longrightarrow> ports_inv (fst (startPort env s p))"
  by (auto simp: ports_inv_def startPort_def Let_def split: option.split)

lemma removePort_inv: "ports_inv s \<Longrightarrow> ports_inv (fst (removePort env s p))"
  by (auto simp: ports_inv_def removePort_def Let_def split: option.split)

lemma change_ports_inv: "ports_inv s \<Longrightarrow> ports_inv (fst (change_ports env ch ps s))"
proof (induction env ch ps s rule: change_ports.induct)
  case (2 env ch p ps s)
  then show ?case
    using startPort_inv [of s env p] removePort_inv [of s env p]
    by (auto split: prod.split option.split)
qed simp

lemma startPort_ok:
  assumes "os_ok env" and "ports_exact s" and "p \<notin> dom (ss_ports s)"
  obtains s' where "startPort env s p = (s', None)" "ports_exact s'" "dom (ss_ports s') = insert p (dom (ss_ports s))"
proof -
  let ?s = "s\<lparr>ss_tcp_open := insert p (ss_tcp_open s), ss_udp_open := insert p (ss_udp_open s),
              ss_ports := (ss_ports s)(p \<mapsto> \<lparr>port_cipherList = NewCipherList no_entries\<rparr>)\<rparr>"
  have "startPort env s p = (?s, None)"
    using assms by (simp add: startPort_def listen_error_def os_ok_def ports_exact_def ports_inv_def)
  moreover have "ports_exact ?s" "dom (ss_ports ?s) = insert p (dom (ss_ports s))"
    using assms(2) by (auto simp: ports_exact_def ports_inv_def)
  ultimately show ?thesis by (rule that)
qed

lemma removePort_ok:
  assumes "os_ok env" and "ports_exact s" and "p \<in> dom (ss_ports s)"
  obtains s' where "removePort env s p = (s', None)" "ports_exact s'" "dom (ss_ports s') = dom (ss_ports s) - {p}"
proof -
  from assms(3) obtain port where port: "ss_ports s p = Some port" by blast
  let ?s = "s\<lparr>ss_tcp_open := ss_tcp_open s - {p}, ss_udp_open := ss_udp_open s - {p}, ss_ports := (ss_ports s)(p := None)\<rparr>"
  have "removePort env s p = (?s, None)" using port assms(1) by (simp add: removePort_def os_ok_def)
  moreover have "ports_exact ?s" "dom (ss_ports ?s) = dom (ss_ports s) - {p}"
    using assms(2) by (auto simp: ports_exact_def ports_inv_def)
  ultimately show ?thesis by (rule that)
qed

lemma change_ports_ok:
  assumes "os_ok env" and "distinct ps" and "ports_exact s"
    and "\<And>p. p \<in> set ps \<Longrightarrow> ch p = (if p \<in> wanted then 1 else 0) - (if p \<in> dom (ss_ports s) then 1 else 0)"
  shows "\<exists>s'. change_ports env ch ps s = (s', None) \<and> ports_exact s' \<and>
    dom (ss_ports s') = (dom (ss_ports s) - (set ps - wanted)) \<union> (set ps \<inter> wanted)"
  using assms(2-4)
proof (induction ps arbitrary: s)
  case (Cons p ps)

  consider (remove) "ch p = - 1" "p \<in> dom (ss_ports s)" "p \<notin> wanted"
    | (start) "ch p = 1" "p \<notin> dom (ss_ports s)" "p \<in> wanted" | (keep) "ch p = 0" "p \<in> dom (ss_ports s) \<longleftrightarrow> p \<in> wanted"
    using Cons.prems(3) [of p] by (cases "p \<in> wanted"; cases "p \<in> dom (ss_ports s)"; simp)
  then show ?case
  proof cases
    case remove
    obtain s1 where s1: "removePort env s p = (s1, None)" "ports_exact s1" "dom (ss_ports s1) = dom (ss_ports s) - {p}"
      using assms(1) Cons.prems(2) remove(2) by (rule removePort_ok)
    have "\<exists>s'. change_ports env ch ps s1 = (s', None) \<and> ports_exact s' \<and>
        dom (ss_ports s') = (dom (ss_ports s1) - (set ps - wanted)) \<union> (set ps \<inter> wanted)"
      using Cons.prems s1(2,3) by (intro Cons.IH) auto
    with remove s1 show ?thesis by auto
  next
    case start
    obtain s1 where s1: "startPort env s p = (s1, None)" "ports_exact s1" "dom (ss_ports s1) = insert p (dom (ss_ports s))"
      using assms(1) Cons.prems(2) start(2) by (rule startPort_ok)
    have "\<exists>s'. change_ports env ch ps s1 = (s', None) \<and> ports_exact s' \<and>
        dom (ss_ports s') = (dom (ss_ports s1) - (set ps - wanted)) \<union> (set ps \<inter> wanted)"
      using Cons.prems s1(2,3) by (intro Cons.IH) auto
    with start s1 show ?thesis by auto
  next
    case keep
    have "\<exists>s'. change_ports env ch ps s = (s', None) \<and> ports_exact s' \<and>
        dom (ss_ports s') = (dom (ss_ports s) - (set ps - wanted)) \<union> (set ps \<inter> wanted)"
      using Cons.prems by (intro Cons.IH) auto
    with keep Cons.prems(1) show ?thesis by auto
  qed
qed auto

text \<open>The keys that a port's list holds after an update.\<close>

definition port_keys :: "SSServer \<Rightarrow> int \<Rightarrow> CipherEntry list option" where
  "port_keys s p = map_option (\<lambda>port. map (cl_entry (port_cipherList port)) (cl_list (port_cipherList port))) (ss_ports s p)"

lemma install_keys: "map (cl_entry (install cl base es)) (cl_list (install cl base es)) = es"
proof (rule nth_equalityI)
  show "length (map (cl_entry (install cl base es)) (cl_list (install cl base es))) = length es"
    by (simp add: install_def Update_def)
  fix i
  assume "i < length (map (cl_entry (install cl base es)) (cl_list (install cl base es)))"
  then show "map (cl_entry (install cl base es)) (cl_list (install cl base es)) ! i = es ! i"
    by (simp add: install_def Update_def)
qed

lemma update_lists_spec:
  assumes "distinct (map fst pcs)" and "fst ` set pcs \<subseteq> dom (ss_ports s)"
  shows "\<exists>s'. update_lists pcs s = Ok s' \<and> dom (ss_ports s') = dom (ss_ports s) \<and>
    ss_tcp_open s' = ss_tcp_open s \<and> ss_udp_open s' = ss_udp_open s \<and> ss_m s' = ss_m s \<and>
    (\<forall>p. port_keys s' p = (case map_of pcs p of Some es \<Rightarrow> Some es | None \<Rightarrow> port_keys s p))"
  using assms
proof (induction pcs s rule: update_lists.induct)
  case (2 p es pcs s)
  from 2(3) obtain port where port: "ss_ports s p = Some port" by auto
  let ?s = "s\<lparr>ss_ports := (ss_ports s)(p \<mapsto> \<lparr>port_cipherList = install (port_cipherList port) (ss_alloc s) es\<rparr>),
               ss_alloc := ss_alloc s + length es\<rparr>"
  have dom: "dom (ss_ports ?s) = dom (ss_ports s)" using port by auto
  have pre: "distinct (map fst pcs)" "fst ` set pcs \<subseteq> dom (ss_ports ?s)"
    using 2(2,3) unfolding dom by auto
  obtain s' where s': "update_lists pcs ?s = Ok s'" "dom (ss_ports s') = dom (ss_ports ?s)"
    "ss_tcp_open s' = ss_tcp_open ?s" "ss_udp_open s' = ss_udp_open ?s" "ss_m s' = ss_m ?s"
    "\<And>q. port_keys s' q = (case map_of pcs q of Some es \<Rightarrow> Some es | None \<Rightarrow> port_keys ?s q)"
    using 2(1) [OF port pre] by blast
  have keys: "port_keys ?s q = (if q = p then Some es else port_keys s q)" for q
    by (simp add: port_keys_def install_keys)
  have "map_of pcs p = None" using 2(2) by (simp add: map_of_eq_None_iff)
  then have "port_keys s' q = (case map_of ((p, es) # pcs) q of Some es \<Rightarrow> Some es | None \<Rightarrow> port_keys s q)" for q
    unfolding s'(6) keys by (cases "q = p") simp_all
  with s'(1-5) port show ?case unfolding dom by simp
qed simp

section \<open>Properties of running a user list\<close>

text \<open>The order in which Go iterates a map is some order of its keys.\<close>

definition map_order :: "(int set \<Rightarrow> int list) \<Rightarrow> bool" where
  "map_order order \<longleftrightarrow> (\<forall>A. finite A \<longrightarrow> distinct (order A) \<and> set (order A) = A)"

lemma doRun_ok:
  assumes "map_order order" and "\<And>xs. mset (order2 xs) = mset xs" and "os_ok env" and "ports_exact s"
    and "\<forall>k \<in> set users. \<exists>c. NewCipher cr specs (key_Cipher k) (Secret k) = Ok c"
  shows "\<exists>s'. doRun env cr specs order order2 s users = (s', Ok ()) \<and> ports_exact s' \<and> dom (ss_ports s') = Port ` set users \<and>
    (\<forall>p \<in> Port ` set users. \<exists>es. port_keys s' p = Some es \<and>
       list_all2 (key_entry cr specs) (filter (\<lambda>k. Port k = p) users) es) \<and>
    accessKeys (ss_m s') = int (length users) \<and> ports_gauge (ss_m s') = int (card (Port ` set users))"
proof -
  obtain pcs where pcs: "load_keys cr specs users [] = Ok pcs" using load_keys_total [OF assms(5)] by blast
  have loaded: "loaded cr specs users pcs"
    using load_keys_spec [OF pcs, of "[]"] by (simp add: loaded_def)
  then have fst: "set (map fst pcs) = Port ` set users" "distinct (map fst pcs)" by (simp_all add: loaded_def)
  let ?w = "set (map fst pcs)"
  let ?ch = "\<lambda>p. (if p \<in> ?w then 1 else 0) - (if p \<in> dom (ss_ports s) then 1 else 0) :: int"
  have fin: "finite (?w \<union> dom (ss_ports s))" using assms(4) by (simp add: ports_exact_def ports_inv_def)
  then have ord: "distinct (order (?w \<union> dom (ss_ports s)))" "set (order (?w \<union> dom (ss_ports s))) = ?w \<union> dom (ss_ports s)"
    using assms(1) by (simp_all add: map_order_def)
  obtain s1 where s1: "change_ports env ?ch (order (?w \<union> dom (ss_ports s))) s = (s1, None)" "ports_exact s1"
    "dom (ss_ports s1) = ?w"
  proof -
    have "(dom (ss_ports s) - (?w \<union> dom (ss_ports s) - ?w)) \<union> ((?w \<union> dom (ss_ports s)) \<inter> ?w) = ?w" by blast
    with change_ports_ok [OF assms(3) ord(1) assms(4), of ?ch ?w] show ?thesis
      unfolding ord(2) by (metis (no_types, lifting) that)
  qed
  have m2: "mset (order2 pcs) = mset pcs" by (rule assms(2))
  have o2: "distinct (map fst (order2 pcs))" "fst ` set (order2 pcs) \<subseteq> dom (ss_ports s1)"
    using fst(2) m2 s1(3) by (metis mset_map mset_eq_imp_distinct_iff, metis mset_eq_setD set_map order_refl)
  obtain s2 where s2: "update_lists (order2 pcs) s1 = Ok s2" "dom (ss_ports s2) = dom (ss_ports s1)"
    "ss_tcp_open s2 = ss_tcp_open s1" "ss_udp_open s2 = ss_udp_open s1"
    "\<And>p. port_keys s2 p = (case map_of (order2 pcs) p of Some es \<Rightarrow> Some es | None \<Rightarrow> port_keys s1 p)"
    using update_lists_spec [OF o2] by blast
  let ?s' = "s2\<lparr>ss_m := SetNumAccessKeys (ss_m s2) (int (length users)) (int (length pcs))\<rparr>"
  have run: "doRun env cr specs order order2 s users = (?s', Ok ())"
    unfolding doRun_def pcs Let_def using s1(1) s2(1) by simp
  have "\<exists>es. port_keys ?s' p = Some es \<and> list_all2 (key_entry cr specs) (filter (\<lambda>k. Port k = p) users) es"
    if "p \<in> Port ` set users" for p
  proof -
    from that fst(1) have "p \<in> fst ` set pcs" by simp
    then obtain es where es: "(p, es) \<in> set pcs" by force
    then have "(p, es) \<in> set (order2 pcs)" using m2 mset_eq_setD by blast
    then have "map_of (order2 pcs) p = Some es" using o2(1) by simp
    then have "port_keys ?s' p = Some es" using s2(5) [of p] by (simp add: port_keys_def)
    with es loaded show ?thesis by (auto simp: loaded_def)
  qed
  moreover have "ports_exact ?s'" "dom (ss_ports ?s') = Port ` set users"
    using s1(2,3) s2(2-4) fst(1) by (simp_all add: ports_exact_def ports_inv_def)
  moreover have "length pcs = card (Port ` set users)"
    using fst by (metis distinct_card length_map)
  ultimately show ?thesis using run by (simp add: SetNumAccessKeys_def)
qed

text \<open>C20: Running a list of users. From any state whose sockets match its ports, if every key's cipher is supported and the
  operating system opens and closes sockets without errors, \<open>doRun\<close> succeeds whatever order Go iterates its maps
  in: afterwards the server listens on exactly the ports of the users, on TCP and on UDP, the keys of each port
  are exactly the users of that port in their order, and the metrics show the numbers of keys and ports.\<close>

theorem doRun_installs:
  assumes "map_order order" and "\<And>xs. mset (order2 xs) = mset xs" and "os_ok env" and "ports_exact s"
    and "\<forall>k \<in> set users. \<exists>c. NewCipher cr specs (key_Cipher k) (Secret k) = Ok c"
  shows "\<exists>s'. doRun env cr specs order order2 s users = (s', Ok ()) \<and> ports_exact s' \<and> dom (ss_ports s') = Port ` set users \<and>
    (\<forall>p \<in> Port ` set users. \<exists>es. port_keys s' p = Some es \<and>
       list_all2 (key_entry cr specs) (filter (\<lambda>k. Port k = p) users) es) \<and>
    accessKeys (ss_m s') = int (length users) \<and> ports_gauge (ss_m s') = int (card (Port ` set users))"
  by (rule doRun_ok [OF assms])

text \<open>A server with no ports, an operating system without errors, and one key.\<close>

definition toy_os :: os_env where
  "toy_os = \<lparr>oe_ListenTCP = \<lambda>_. None, oe_ListenUDP = \<lambda>_. None, oe_CloseTCP = \<lambda>_. None, oe_CloseUDP = \<lambda>_. None\<rparr>"

definition toy_server :: SSServer where
  "toy_server = \<lparr>ss_m = newShadowsocksMetrics, ss_replayCache = \<lparr>capacity = 0, active = {}, archive = {}\<rparr>,
     ss_ports = Map.empty, ss_api = api_New 1 0, ss_tcp_open = {}, ss_udp_open = {}, ss_alloc = 0\<rparr>"

definition toy_key :: Key where
  "toy_key = \<lparr>key_ID = ''u1'', Port = 443, key_Cipher = ''AES-128-gcm'', Secret = ''pw''\<rparr>"

theorem doRun_installs_witness:
  "\<exists>s' es. doRun toy_os toy_crypto toy_specs sorted_list_of_set id toy_server [toy_key] = (s', Ok ()) \<and>
     dom (ss_ports s') = {443} \<and> port_keys s' 443 = Some es \<and> map ID es = [''u1''] \<and> accessKeys (ss_m s') = 1"
proof -
  have "map_order sorted_list_of_set" by (simp add: map_order_def)
  moreover have "mset (id xs) = mset xs" for xs :: "(int \<times> CipherEntry list) list" by simp
  moreover have "os_ok toy_os" "ports_exact toy_server"
    by (simp_all add: os_ok_def toy_os_def ports_exact_def ports_inv_def toy_server_def)
  moreover have "\<forall>k \<in> set [toy_key]. \<exists>c. NewCipher toy_crypto toy_specs (key_Cipher k) (Secret k) = Ok c"
    using toy_NewCipher by (simp add: toy_key_def)
  ultimately have "\<exists>s'. doRun toy_os toy_crypto toy_specs sorted_list_of_set id toy_server [toy_key] = (s', Ok ()) \<and>
      ports_exact s' \<and> dom (ss_ports s') = Port ` set [toy_key] \<and>
      (\<forall>p \<in> Port ` set [toy_key]. \<exists>es. port_keys s' p = Some es \<and>
         list_all2 (key_entry toy_crypto toy_specs) (filter (\<lambda>k. Port k = p) [toy_key]) es) \<and>
      accessKeys (ss_m s') = int (length [toy_key]) \<and> ports_gauge (ss_m s') = int (card (Port ` set [toy_key]))"
    by (rule doRun_installs)
  then obtain s' es where "doRun toy_os toy_crypto toy_specs sorted_list_of_set id toy_server [toy_key] = (s', Ok ())"
    "dom (ss_ports s') = {443}" "port_keys s' 443 = Some es" "list_all2 (key_entry toy_crypto toy_specs) [toy_key] es"
    "accessKeys (ss_m s') = 1"
    by (auto simp: toy_key_def)
  then show ?thesis by (auto simp: list_all2_Cons1 key_entry_def toy_key_def)
qed

text \<open>A list with an unusable key changes nothing: if the cipher of any user is not one of the supported names, \<open>doRun\<close>
  fails before it touches a port, and the server keeps serving the previous list.\<close>

lemma doRun_bad_key:
  assumes "k \<in> set users" and "ToLower (key_Cipher k) \<notin> name ` set specs"
  shows "\<exists>e. doRun env cr specs order order2 s users = (s, Fail e)"
proof -
  have cases: "(\<exists>c. NewCipher cr specs nm secret = Ok c) \<or> (\<exists>e. NewCipher cr specs nm secret = Fail e)" for nm secret
    using find_spec_known [of "ToLower nm" specs] find_spec_unknown [of "ToLower nm" specs]
    by (cases "ToLower nm \<in> name ` set specs") (auto simp: NewCipher_def getAEADSpec_def)
  have bad: "\<exists>e. NewCipher cr specs (key_Cipher k) (Secret k) = Fail e"
    using find_spec_unknown [OF assms(2)] by (simp add: NewCipher_def getAEADSpec_def)
  have "\<exists>e. load_keys cr specs ks pcs = Fail e" if "k \<in> set ks" for ks pcs
    using that
  proof (induction ks arbitrary: pcs)
    case (Cons k' ks)
    with bad cases [of "key_Cipher k'" "Secret k'"] show ?case by (cases "k' = k") auto
  qed simp
  from this [OF assms(1), of "[]"] show ?thesis by (auto simp: doRun_def)
qed

lemma doRun_bad_key_witness:
  "\<exists>e. doRun toy_os toy_crypto toy_specs sorted_list_of_set id toy_server
     [toy_key, \<lparr>key_ID = ''u2'', Port = 444, key_Cipher = ''rc4'', Secret = ''x''\<rparr>] = (toy_server, Fail e)"
proof (rule doRun_bad_key)
  have "ToLower ''rc4'' = ''rc4''" by code_simp
  then show "ToLower (key_Cipher \<lparr>key_ID = ''u2'', Port = 444, key_Cipher = ''rc4'', Secret = ''x''\<rparr>) \<notin> name ` set toy_specs"
    by (simp add: toy_specs_def)
qed simp

datatype server_op = RunUsers os_env "Key list" | StopAll os_env

fun server_exec ::
  "crypto \<Rightarrow> aeadSpec list \<Rightarrow> (int set \<Rightarrow> int list) \<Rightarrow> ((int \<times> CipherEntry list) list \<Rightarrow> (int \<times> CipherEntry list) list) \<Rightarrow>
   SSServer \<Rightarrow> server_op \<Rightarrow> SSServer" where
  "server_exec cr specs order order2 s (RunUsers env users) = fst (doRun env cr specs order order2 s users)"
| "server_exec cr specs order order2 s (StopAll env) = fst (ss_Stop env order s)"

lemma update_lists_inv: "update_lists pcs s = Ok s' \<Longrightarrow> ports_inv s \<Longrightarrow> ports_inv s'"
proof (induction pcs s rule: update_lists.induct)
  case (2 p es pcs s)
  from 2(2) obtain port where port: "ss_ports s p = Some port" by (auto split: option.splits)
  let ?s = "s\<lparr>ss_ports := (ss_ports s)(p \<mapsto> \<lparr>port_cipherList = install (port_cipherList port) (ss_alloc s) es\<rparr>),
               ss_alloc := ss_alloc s + length es\<rparr>"
  have "dom (ss_ports ?s) = dom (ss_ports s)" using port by auto
  then have "ports_inv ?s" using 2(3) by (simp add: ports_inv_def)
  with 2(1) [OF port] 2(2) port show ?case by simp
qed simp

lemma stop_ports_inv: "ports_inv s \<Longrightarrow> ports_inv (fst (stop_ports env ps s))"
proof (induction env ps s rule: stop_ports.induct)
  case (2 env p ps s)
  with removePort_inv [of s env p] show ?case by (auto split: prod.split option.split)
qed simp

lemma server_exec_inv: "ports_inv s \<Longrightarrow> ports_inv (server_exec cr specs order order2 s x)"
proof (cases x)
  case (RunUsers env users)
  assume inv: "ports_inv s"
  show ?thesis
  proof (cases "load_keys cr specs users []")
    case (Ok pcs)
    let ?ch = "\<lambda>p. (if p \<in> set (map fst pcs) then 1 else 0) - (if p \<in> dom (ss_ports s) then 1 else 0) :: int"
    obtain s1 err where s1: "change_ports env ?ch (order (set (map fst pcs) \<union> dom (ss_ports s))) s = (s1, err)"
      by (cases "change_ports env ?ch (order (set (map fst pcs) \<union> dom (ss_ports s))) s")
    have inv1: "ports_inv s1"
      using change_ports_inv [OF inv, of env ?ch "order (set (map fst pcs) \<union> dom (ss_ports s))"] unfolding s1 by simp
    have "ports_inv (s2\<lparr>ss_m := m\<rparr>)" if "update_lists (order2 pcs) s1 = Ok s2" for s2 m
      using update_lists_inv [OF that inv1] by (simp add: ports_inv_def)
    with inv1 s1 show ?thesis
      unfolding RunUsers server_exec.simps doRun_def Ok Let_def
      by (simp split: option.split result.split)
  qed (use inv in \<open>simp_all add: RunUsers doRun_def\<close>)
next
  case (StopAll env)
  assume "ports_inv s"
  with StopAll stop_ports_inv [of s] show ?thesis by (simp add: ss_Stop_def)
qed

text \<open>C27: Sockets and ports over time. Whatever lists are run, whenever the server is stopped and whatever errors the
  operating system reports, a port that is served has an open TCP and an open UDP socket, and no UDP socket is
  open on any other port.\<close>

theorem ports_sockets:
  assumes "ss_ports s = Map.empty" and "ss_udp_open s = {}"
  shows "let s' = foldl (server_exec cr specs order order2) s ops
    in finite (dom (ss_ports s')) \<and> ss_udp_open s' = dom (ss_ports s') \<and> dom (ss_ports s') \<subseteq> ss_tcp_open s'"
proof -
  have "ports_inv s" using assms by (simp add: ports_inv_def)
  then have "ports_inv (foldl (server_exec cr specs order order2) s ops)"
    by (induction ops arbitrary: s) (simp_all add: server_exec_inv)
  then show ?thesis by (simp add: ports_inv_def Let_def)
qed

theorem ports_sockets_witness:
  "dom (ss_ports (server_exec toy_crypto toy_specs sorted_list_of_set id toy_server (RunUsers toy_os [toy_key])))
     \<subseteq> ss_tcp_open (server_exec toy_crypto toy_specs sorted_list_of_set id toy_server (RunUsers toy_os [toy_key]))"
proof -
  have "ss_ports toy_server = Map.empty" "ss_udp_open toy_server = {}" by (simp_all add: toy_server_def)
  from ports_sockets [OF this, of toy_crypto toy_specs sorted_list_of_set id "[RunUsers toy_os [toy_key]]"]
  show ?thesis unfolding Let_def foldl.simps by blast
qed

text \<open>A failed start leaks its TCP socket. If the UDP socket of a port cannot be opened, \<open>startPort\<close> fails with the TCP
  socket left open and the port not registered, so nothing ever closes it; every later attempt to start that
  port fails, even when the operating system would open both sockets.\<close>

lemma startPort_leaks:
  assumes "ports_inv s" and "startPort env s p = (s1, Some err)" and "p \<notin> ss_tcp_open s" and "oe_ListenTCP env p = None"
    and "p \<noteq> 0"
  shows "p \<in> ss_tcp_open s1 \<and> p \<notin> dom (ss_ports s1) \<and>
    (\<forall>env'. p \<in> ss_tcp_open (fst (removePort env' s1 p)) \<and> (\<exists>err'. startPort env' s1 p = (s1, Some err')))"
proof -
  have np: "p \<notin> dom (ss_ports s)" using assms(1,3) by (auto simp: ports_inv_def)
  have s1: "s1 = s\<lparr>ss_tcp_open := insert p (ss_tcp_open s)\<rparr>"
    using assms by (auto simp: startPort_def listen_error_def Let_def split: option.splits if_splits)
  moreover have "ss_ports s1 p = None" using np s1 by (simp add: domIff)
  ultimately show ?thesis using assms(5)
    by (auto simp: removePort_def startPort_def listen_error_def domIff split: option.split)
qed

lemma startPort_leaks_witness:
  "\<exists>s1 err. startPort (toy_os\<lparr>oe_ListenUDP := \<lambda>_. Some (ErrorNew ''in use'')\<rparr>) toy_server 443 = (s1, Some err) \<and>
     443 \<in> ss_tcp_open s1 \<and> (\<exists>err'. startPort toy_os s1 443 = (s1, Some err'))"
proof -
  let ?env = "toy_os\<lparr>oe_ListenUDP := \<lambda>_. Some (ErrorNew ''in use'')\<rparr>"
  obtain s1 err where s1: "startPort ?env toy_server 443 = (s1, Some err)"
    by (simp add: startPort_def toy_os_def toy_server_def listen_error_def)
  have "ports_inv toy_server" "443 \<notin> ss_tcp_open toy_server" "oe_ListenTCP ?env 443 = None"
    by (simp_all add: ports_inv_def toy_server_def toy_os_def)
  from startPort_leaks [OF this(1) s1 this(2,3)] s1 show ?thesis by auto
qed

section \<open>Properties of the watching loops\<close>

text \<open>The map of \<open>CheckUser\<close> holds the hashes of its keys.\<close>

definition hash_ok :: "(Key \<rightharpoonup> 32 word) \<Rightarrow> bool" where
  "hash_ok h \<longleftrightarrow> finite (dom h) \<and> (\<forall>k v. h k = Some v \<longrightarrow> v = Key_Hash k)"

lemma check_keys_spec:
  assumes "hash_ok h"
  shows "hash_ok (fst (check_keys h d ks)) \<and> dom (fst (check_keys h d ks)) = dom h \<union> set ks \<and>
    (snd (check_keys h d ks) \<longleftrightarrow> d \<or> \<not> set ks \<subseteq> dom h)"
  using assms
proof (induction ks arbitrary: h d)
  case (Cons k ks)
  define h' where "h' = h(k \<mapsto> Key_Hash k)"
  define d' where "d' = (if (case h k of Some v \<Rightarrow> v | None \<Rightarrow> 0) \<noteq> Key_Hash k then True else if h k = None then True else d)"
  have ok: "hash_ok h'" "dom h' = insert k (dom h)" using Cons.prems by (auto simp: hash_ok_def h'_def)
  have d: "d' \<longleftrightarrow> d \<or> k \<notin> dom h" using Cons.prems by (auto simp: hash_ok_def domIff d'_def split: option.splits)
  have eq: "check_keys h d (k # ks) = check_keys h' d' ks" by (simp add: Let_def h'_def d'_def)
  from Cons.IH [OF ok(1), of d'] show ?case unfolding eq ok(2) d by auto
qed simp

lemma check_keys_known:
  assumes "hash_ok h" and "set ks \<subseteq> dom h"
  shows "check_keys h d ks = (h, d)"
  using assms(2)
proof (induction ks)
  case (Cons k ks)
  then obtain v where "h k = Some v" by auto
  moreover from this assms(1) have "v = Key_Hash k" by (simp add: hash_ok_def)
  ultimately show ?case using Cons by (simp add: Let_def fun_upd_idem)
qed simp

lemma CheckUser_tick_spec:
  assumes "hash_ok h"
  shows "hash_ok (fst (CheckUser_tick h users)) \<and>
    dom (fst (CheckUser_tick h users)) = (if length users = card (dom h) then dom h \<union> set users else set users) \<and>
    (snd (CheckUser_tick h users) \<longleftrightarrow> length users \<noteq> card (dom h) \<or> \<not> set users \<subseteq> dom h)"
proof -
  have "hash_ok Map.empty" by (simp add: hash_ok_def)
  from check_keys_spec [OF this, of True users] check_keys_spec [OF assms, of False users] show ?thesis
    by (auto simp: CheckUser_tick_def)
qed

lemma CheckUser_tick_settles:
  assumes "hash_ok h" and "distinct users" and "h2 = fst (CheckUser_tick (fst (CheckUser_tick h users)) users)"
  shows "hash_ok h2" and "dom h2 = set users" and "CheckUser_tick h2 users = (h2, False)"
    and "\<not> snd (CheckUser_tick h users) \<longrightarrow> dom h = set users"
proof -
  define h1 where "h1 = fst (CheckUser_tick h users)"
  have len: "length users = card (set users)" using assms(2) by (simp add: distinct_card)
  have eq: "dom g = set users" if "hash_ok g" "set users \<subseteq> dom g" "length users = card (dom g)" for g
    using that len card_subset_eq [of "dom g" "set users"] by (simp add: hash_ok_def)
  note t1 = CheckUser_tick_spec [OF assms(1), of users, folded h1_def]
  then have h1: "hash_ok h1" "set users \<subseteq> dom h1" by auto
  note t2 = CheckUser_tick_spec [OF h1(1), of users, unfolded h1_def, folded assms(3), folded h1_def]
  then show h2: "hash_ok h2" "dom h2 = set users" using eq [OF h1] by auto
  from t1 eq [OF assms(1)] show "\<not> snd (CheckUser_tick h users) \<longrightarrow> dom h = set users" by blast
  have t3: "hash_ok (fst (CheckUser_tick h2 users))" "dom (fst (CheckUser_tick h2 users)) = set users" "\<not> snd (CheckUser_tick h2 users)"
    using CheckUser_tick_spec [OF h2(1), of users] h2(2) len by simp_all
  have "fst (CheckUser_tick h2 users) k = h2 k" for k
    using h2 t3(1,2) unfolding hash_ok_def by (metis domD domIff option.exhaust)
  then have "fst (CheckUser_tick h2 users) = h2" by (rule ext)
  with t3(3) show "CheckUser_tick h2 users = (h2, False)" by (simp add: prod_eq_iff)
qed

text \<open>A tick of \<open>CheckUser\<close>, with what it runs.\<close>

lemma CheckUser_step_spec:
  assumes "hash_ok h"
  shows "CheckUser_step env cr specs order order2 (h, s) users =
    (fst (CheckUser_tick h users),
     if length users \<noteq> card (dom h) \<or> \<not> set users \<subseteq> dom h then fst (doRun env cr specs order order2 s users) else s)"
proof (cases "CheckUser_tick h users")
  case (Pair h' d)
  with CheckUser_tick_spec [OF assms, of users] show ?thesis unfolding CheckUser_step_def by simp
qed

lemma same_set: "distinct xs \<Longrightarrow> finite A \<Longrightarrow> (length xs \<noteq> card A \<or> \<not> set xs \<subseteq> A) \<longleftrightarrow> A \<noteq> set xs"
  using card_subset_eq [of A "set xs"] by (auto simp: distinct_card)

text \<open>C38: When the server follows the user list. A tick with a record of keys (ID, port, cipher and secret) runs \<open>doRun\<close> exactly if the list has
  another length than the record has keys, or has a key that is not in the record; for a list without duplicates, exactly if its keys are not
  those of the record. The next tick with the same list runs it once more exactly if the first found another set of keys of the same size,
  because the record then also keeps the old keys; after it the record is the list, and a third tick with the list runs nothing and
  changes nothing. The error of a run is dropped. (The record need not be the list of the last tick: lemma
  \<open>check_user_misses_return\<close>.)\<close>

theorem check_user_follows:
  assumes "hash_ok h"
    and "(h1, s1) = CheckUser_step env1 cr specs order order2 (h, s) users"
    and "(h2, s2) = CheckUser_step env2 cr specs order order2 (h1, s1) users"
    and "(h3, s3) = CheckUser_step env3 cr specs order order2 (h2, s2) users"
  shows "s1 = (if length users \<noteq> card (dom h) \<or> \<not> set users \<subseteq> dom h then fst (doRun env1 cr specs order order2 s users) else s) \<and>
    (distinct users \<longrightarrow>
       s1 = (if dom h = set users then s else fst (doRun env1 cr specs order order2 s users)) \<and>
       s2 = (if dom h \<noteq> set users \<and> length users = card (dom h) then fst (doRun env2 cr specs order order2 s1 users) else s1) \<and>
       dom h2 = set users \<and> h3 = h2 \<and> s3 = s2)"
proof (intro conjI impI)
  note step1 = assms(2) [unfolded CheckUser_step_spec [OF assms(1)]]
  then show "s1 = (if length users \<noteq> card (dom h) \<or> \<not> set users \<subseteq> dom h then fst (doRun env1 cr specs order order2 s users) else s)" by simp
  assume d: "distinct users"
  from step1 have h1: "h1 = fst (CheckUser_tick h users)" by simp
  with CheckUser_tick_spec [OF assms(1), of users] have ok1: "hash_ok h1"
    and dom1: "dom h1 = (if length users = card (dom h) then dom h \<union> set users else set users)" by simp_all
  note step2 = assms(3) [unfolded CheckUser_step_spec [OF ok1]]
  then have "h2 = fst (CheckUser_tick h1 users)" by simp
  note settled = CheckUser_tick_settles [OF assms(1) d this [unfolded h1]]
  have fin: "finite (dom h)" "finite (dom h1)" using assms(1) ok1 by (simp_all add: hash_ok_def)
  from step1 [unfolded same_set [OF d fin(1)]]
  show "s1 = (if dom h = set users then s else fst (doRun env1 cr specs order order2 s users))" by simp
  have "dom h1 \<noteq> set users \<longleftrightarrow> dom h \<noteq> set users \<and> length users = card (dom h)"
    using card_subset_eq [of "set users" "dom h"] distinct_card [OF d] unfolding dom1 by (metis Un_absorb Un_upper1 finite_set)
  with step2 [unfolded same_set [OF d fin(2)]]
  show "s2 = (if dom h \<noteq> set users \<and> length users = card (dom h) then fst (doRun env2 cr specs order order2 s1 users) else s1)" by simp
  show "dom h2 = set users" by (rule settled(2))
  from assms(4) settled(3) show "h3 = h2" "s3 = s2" by (simp_all add: CheckUser_step_def)
qed

theorem check_user_follows_witness:
  "\<exists>h1 s1. CheckUser_step toy_os toy_crypto toy_specs sorted_list_of_set id (Map.empty, toy_server) [toy_key] = (h1, s1) \<and>
     s1 = fst (doRun toy_os toy_crypto toy_specs sorted_list_of_set id toy_server [toy_key]) \<and>
     CheckUser_step toy_os toy_crypto toy_specs sorted_list_of_set id (h1, s1) [toy_key] = (h1, s1)"
proof -
  let ?step = "\<lambda>x. CheckUser_step toy_os toy_crypto toy_specs sorted_list_of_set id x [toy_key]"
  obtain h1 s1 h2 s2 h3 s3 where run: "(h1, s1) = ?step (Map.empty, toy_server)" "(h2, s2) = ?step (h1, s1)" "(h3, s3) = ?step (h2, s2)"
    by (metis prod.collapse)
  have "hash_ok Map.empty" by (simp add: hash_ok_def)
  note follows = check_user_follows [OF this run]
  have "hash_ok h1" "dom h1 = {toy_key}"
    using run(1) CheckUser_tick_spec [OF \<open>hash_ok Map.empty\<close>, of "[toy_key]"] by (simp_all add: CheckUser_step_spec [OF \<open>hash_ok Map.empty\<close>])
  then have "check_keys h1 False [toy_key] = (h1, False)" by (intro check_keys_known) simp_all
  with \<open>dom h1 = {toy_key}\<close> have "CheckUser_tick h1 [toy_key] = (h1, False)" by (simp add: CheckUser_tick_def)
  then have "h2 = h1" "s2 = s1" using run(2) by (simp_all add: CheckUser_step_def)
  with follows run show ?thesis by (intro exI [of _ h1] exI [of _ s1]) auto
qed

text \<open>With duplicates the count misleads: a key that was replaced by a second copy of another one goes unnoticed.\<close>

lemma check_user_misses_duplicates:
  assumes "k1 \<noteq> k2" and "hash_ok h" and "dom h = {k1, k2}"
  shows "\<not> snd (CheckUser_tick h [k1, k1])"
  using CheckUser_tick_spec [OF assms(2), of "[k1, k1]"] assms(1,3) by simp

text \<open>The record keeps a key that was replaced by another. If the replaced user comes back at the next tick, beside the new one, the
  list has as many keys as the record, which has both: nothing is run, at this tick or at any later one with this list, and the user who came back
  stays without service.\<close>

lemma check_user_misses_return:
  assumes "k1 \<noteq> k2" and "hash_ok h" and "dom h = {k1}"
    and "(h1, s1) = CheckUser_step env cr specs order order2 (h, s) [k2]"
    and "(h2, s2) = CheckUser_step env' cr specs order order2 (h1, s1) [k1, k2]"
  shows "s1 = fst (doRun env cr specs order order2 s [k2]) \<and> s2 = s1 \<and> h2 = h1"
proof -
  have t1: "hash_ok h1" "dom h1 = {k1, k2}" and run: "s1 = fst (doRun env cr specs order order2 s [k2])"
    using assms(1,3,4) CheckUser_tick_spec [OF assms(2), of "[k2]"] by (auto simp: CheckUser_step_spec [OF assms(2)])
  then have "check_keys h1 False [k1, k2] = (h1, False)" by (intro check_keys_known) simp_all
  then have "CheckUser_tick h1 [k1, k2] = (h1, False)" using t1(2) assms(1) by (simp add: CheckUser_tick_def)
  with assms(5) run show ?thesis by (simp add: CheckUser_step_def)
qed

text \<open>The error of a run is dropped after the hashes were recorded: from the third tick with the same list on, the list is
  not run again, whatever the earlier runs returned.\<close>

lemma check_user_no_retry:
  assumes "hash_ok h" and "distinct users"
    and "CheckUser_step env cr specs order order2 (h, s) users = (h1, s1)"
    and "CheckUser_step env cr specs order order2 (h1, s1) users = (h2, s2)"
  shows "CheckUser_step env' cr specs order order2 (h2, s2) users = (h2, s2)"
proof -
  have "h1 = fst (CheckUser_tick h users)" "h2 = fst (CheckUser_tick h1 users)"
    using assms(3,4) by (auto simp: CheckUser_step_def split: prod.splits)
  with CheckUser_tick_settles(3) [OF assms(1,2), of h2] show ?thesis by (simp add: CheckUser_step_def)
qed

section \<open>Properties of reporting and of start-up\<close>

text \<open>Connections that add records, and the halves of the ticks of \<open>CheckRepo\<close>, in any order: what was handed to reports, the report
  that is under way, the records that were replaced without having been reported, and the client.\<close>

record traffic_run =
  tr_reports :: "UserTraffic list list"
  tr_running :: "report_run option"
  tr_lost :: "UserTraffic list"
  tr_client :: APIClient

datatype traffic_event = AddEv UserTraffic | DueEv int | DoneEv

fun traffic_exec :: "traffic_run \<Rightarrow> traffic_event \<Rightarrow> traffic_run" where
  "traffic_exec s (AddEv t) = s\<lparr>tr_client := AddRepo (tr_client s) t\<rparr>"
| "traffic_exec s (DueEv now) =
     (case (tr_running s, CheckRepo_due now (tr_client s)) of
        (None, Some l) \<Rightarrow> s\<lparr>tr_reports := tr_reports s @ [l], tr_running := Some (now, length l)\<rparr>
      | _ \<Rightarrow> s)"
| "traffic_exec s DoneEv =
     (case tr_running s of
        Some (now, n) \<Rightarrow> s\<lparr>tr_running := None, tr_client := CheckRepo_done now (tr_client s),
          tr_lost := tr_lost s @ unreported (tr_running s) (r_RepoList (Rtask (tr_client s)))\<rparr>
      | None \<Rightarrow> s)"

text \<open>The records that \<open>AddRepo\<close> takes.\<close>

definition added :: "traffic_event list \<Rightarrow> UserTraffic list" where
  "added evs = filter (\<lambda>t. UID t \<noteq> '''' \<and> (ut_D t \<noteq> 0 \<or> ut_U t \<noteq> 0))
     (concat (map (\<lambda>ev. case ev of AddEv t \<Rightarrow> [t] | _ \<Rightarrow> []) evs))"

lemma user_append: "user_U u (xs @ ys) = user_U u xs + user_U u ys" "user_D u (xs @ ys) = user_D u xs + user_D u ys"
  by (simp_all add: user_U_def user_D_def)

lemma unreported_simps [simp]:
  "unreported None l = l" "unreported (Some (now, length l)) l = []"
  "unreported rr [] = []"
  by (simp_all add: unreported_def)

text \<open>A report that is under way was handed records that are still in the list.\<close>

definition report_fits :: "report_run option \<Rightarrow> UserTraffic list \<Rightarrow> bool" where
  "report_fits rr l \<longleftrightarrow> (\<forall>now n. rr = Some (now, n) \<longrightarrow> n \<le> length l)"

lemma report_fits_simps [simp]: "report_fits None l" "report_fits (Some (now, length l)) l"
  by (simp_all add: report_fits_def)

lemma report_fits_append: "report_fits rr l \<Longrightarrow> report_fits rr (l @ x) \<and> unreported rr (l @ x) = unreported rr l @ x"
  by (auto simp: report_fits_def unreported_def split: option.split)

lemma AddRepo_appends:
  "r_RepoList (Rtask (AddRepo c t)) = r_RepoList (Rtask c) @ added [AddEv t]"
  by (simp add: AddRepo_def added_def)

lemma added_Cons: "added (ev # evs) = added [ev] @ added evs"
  by (simp add: added_def)

text \<open>Every record is reported, pending or lost, and only once: over any sequence of additions and halves of ticks the records
  handed to reports, those in the list that no report has been handed, and those that were replaced while a report was under way are
  together the records that were added. A tick whose report nothing is added to loses nothing.\<close>

lemma traffic_conserved:
  assumes "s = foldl traffic_exec s0 evs" and "s0 = \<lparr>tr_reports = [], tr_running = None, tr_lost = [], tr_client = c\<rparr>"
    and "r_RepoList (Rtask c) = []"
  shows "mset (concat (tr_reports s)) + mset (unreported (tr_running s) (r_RepoList (Rtask (tr_client s)))) + mset (tr_lost s) =
    mset (added evs)"
proof -
  have step: "report_fits (tr_running (traffic_exec s ev)) (r_RepoList (Rtask (tr_client (traffic_exec s ev)))) \<and>
    mset (concat (tr_reports (traffic_exec s ev))) +
      mset (unreported (tr_running (traffic_exec s ev)) (r_RepoList (Rtask (tr_client (traffic_exec s ev))))) + mset (tr_lost (traffic_exec s ev)) =
    mset (concat (tr_reports s)) + mset (unreported (tr_running s) (r_RepoList (Rtask (tr_client s)))) + mset (tr_lost s) + mset (added [ev])"
    if "report_fits (tr_running s) (r_RepoList (Rtask (tr_client s)))" for s ev
  proof (cases ev)
    case (AddEv t)
    with report_fits_append [OF that] show ?thesis by (simp add: AddRepo_appends)
  next
    case (DueEv now)
    with that show ?thesis
      by (auto simp: CheckRepo_due_def added_def split: option.split if_splits)
  next
    case DoneEv
    with that show ?thesis by (auto simp: CheckRepo_done_def added_def split: option.split)
  qed
  have "mset (concat (tr_reports (foldl traffic_exec s evs))) +
      mset (unreported (tr_running (foldl traffic_exec s evs)) (r_RepoList (Rtask (tr_client (foldl traffic_exec s evs))))) +
      mset (tr_lost (foldl traffic_exec s evs)) =
    mset (concat (tr_reports s)) + mset (unreported (tr_running s) (r_RepoList (Rtask (tr_client s)))) + mset (tr_lost s) + mset (added evs)"
    if "report_fits (tr_running s) (r_RepoList (Rtask (tr_client s)))" for s
    using that
  proof (induction evs arbitrary: s)
    case (Cons ev evs)
    from Cons.IH [OF conjunct1 [OF step [OF Cons.prems, of ev]]] conjunct2 [OF step [OF Cons.prems, of ev]]
    show ?case by (simp add: added_Cons [of ev evs])
  qed (simp add: added_def)
  from this [of s0] assms show ?thesis by simp
qed

text \<open>Records do get lost: one that is added while a report is under way is in no report.\<close>

lemma CheckRepo_loses:
  assumes "UID t \<noteq> ''''" and "ut_U t \<noteq> 0" and "UID t' \<noteq> ''''" and "ut_U t' \<noteq> 0"
    and "s = foldl traffic_exec \<lparr>tr_reports = [], tr_running = None, tr_lost = [], tr_client = api_New n 0\<rparr> [AddEv t, DueEv 300, AddEv t', DoneEv]"
  shows "tr_reports s = [[t]] \<and> r_RepoList (Rtask (tr_client s)) = [] \<and> tr_lost s = [t']"
  using assms by (simp add: AddRepo_def CheckRepo_due_def CheckRepo_done_def api_New_def unreported_def)

section \<open>Replay history\<close>

lemma change_ports_replayCache: "ss_replayCache (fst (change_ports env ch ps s)) = ss_replayCache s"
proof (induction env ch ps s rule: change_ports.induct)
  case (2 env ch p ps s)
  have keep: "removePort env s p = (s1, oe) \<Longrightarrow> ss_replayCache s1 = ss_replayCache s"
    "startPort env s p = (s1, oe) \<Longrightarrow> ss_replayCache s1 = ss_replayCache s" for s1 oe
    by (auto simp: startPort_def removePort_def Let_def split: option.splits)
  show ?case using 2 by (auto split: prod.split option.split dest: keep)
qed simp

lemma update_lists_replayCache: "update_lists pcs s = Ok s' \<Longrightarrow> ss_replayCache s' = ss_replayCache s"
proof (induction pcs s rule: update_lists.induct)
  case (2 p es pcs s)
  then show ?case by (cases "ss_ports s p") simp_all
qed simp

lemma doRun_replayCache: "ss_replayCache (fst (doRun env cr specs order order2 s users)) = ss_replayCache s"
proof (cases "load_keys cr specs users []")
  case (Ok pcs)
  define ch :: "int \<Rightarrow> int" where "ch = (\<lambda>p. (if p \<in> set (map fst pcs) then 1 else 0) - (if p \<in> dom (ss_ports s) then 1 else 0))"
  obtain s1 oe where run: "change_ports env ch (order (set (map fst pcs) \<union> dom (ss_ports s))) s = (s1, oe)" by fastforce
  with change_ports_replayCache [of env ch _ s] have keep: "ss_replayCache s1 = ss_replayCache s" by (metis fst_conv)
  have step: "doRun env cr specs order order2 s users =
    (case oe of Some e \<Rightarrow> (s1, Fail e)
     | None \<Rightarrow> (case update_lists (order2 pcs) s1 of
          Ok s2 \<Rightarrow> (s2\<lparr>ss_m := SetNumAccessKeys (ss_m s2) (int (length users)) (int (length pcs))\<rparr>, Ok ())
        | Fail e \<Rightarrow> (s1, Fail e) | Panic m \<Rightarrow> (s1, Panic m)))"
    unfolding doRun_def Ok Let_def result.case ch_def [symmetric] run by (simp split: option.split)
  show ?thesis
    unfolding step using keep update_lists_replayCache [of "order2 pcs" s1]
    by (auto split: option.split result.split)
qed (simp_all add: doRun_def)

text \<open>A server that starts keeps the client that \<open>Init\<close> left and the replay cache it was given.\<close>

lemma RunSSServer_ok:
  assumes "RunSSServer env cr specs order order2 aenv odb sm h c0 = Ok s"
  obtains rc c us server where "NewReplayCache h = Ok rc" "c = snd (api_Init aenv c0)" "GetUsers odb (NodeID c) = Ok us"
    "ss_replayCache server = rc" "ss_api server = c" "ports_exact server" "doRun env cr specs order order2 server us = (s, Ok ())"
    "dom (ss_ports server) = {}" "ss_m server = sm"
proof -
  obtain r c where init: "api_Init aenv c0 = (r, c)" by fastforce
  from assms obtain rc us where rc: "NewReplayCache h = Ok rc" and us: "GetUsers odb (NodeID c) = Ok us"
    by (cases r) (auto simp: RunSSServer_def init bind_result_iffs)
  define server where "server = \<lparr>ss_m = sm, ss_replayCache = rc, ss_ports = Map.empty, ss_api = c,
      ss_tcp_open = {}, ss_udp_open = {}, ss_alloc = 0\<rparr>"
  obtain s1 q where run: "doRun env cr specs order order2 server us = (s1, q)" by fastforce
  have "s = s1 \<and> q = Ok ()"
    using assms unfolding RunSSServer_def rc init
    by (cases r) (simp_all add: Let_def server_def [symmetric] us run split: result.splits)
  with run have "doRun env cr specs order order2 server us = (s, Ok ())" by simp
  then show ?thesis
    using rc us by (intro that [of rc c us server]) (simp_all add: init server_def ports_exact_def ports_inv_def)
qed

lemma main_server_capacity:
  assumes "main_server env cr specs order order2 aenv odb t = Ok s"
  shows "capacity (ss_replayCache s) = 0"
proof -
  obtain rc server us where "NewReplayCache 0 = Ok rc" "ss_replayCache server = rc"
    and run: "doRun env cr specs order order2 server us = (s, Ok ())"
    using assms unfolding main_server_def by (rule RunSSServer_ok)
  then have "capacity (ss_replayCache server) = 0" by (auto simp: NewReplayCache_def MaxCapacity_def)
  with doRun_replayCache [of env cr specs order order2 server us] show ?thesis by (simp add: run)
qed

definition toy_api_env :: "unit api_env" where
  "toy_api_env = \<lparr>ae_APIHost = [], ae_LogHost = [], ae_get = \<lambda>_. Inl EOF, ae_post = \<lambda>_ _. Inl EOF, ae_genDecode = Ok,
     ae_newJson = \<lambda>_. Ok (), ae_port = \<lambda>_. [], ae_id = \<lambda>_. 0, ae_cipher = \<lambda>_. [], ae_shuffle = rev\<rparr>"

text \<open>The server that \<open>main\<close> starts has no protection against replayed clients: if it starts at all, its replay cache has
  capacity zero, and accepts every handshake any number of times.\<close>

lemma main_without_replay_history:
  assumes "main_server env cr specs order order2 aenv odb t = Ok s"
  shows "Add (Some (ss_replayCache s)) i salt = (True, Some (ss_replayCache s))"
  using main_server_capacity [OF assms] by (simp add: Add_def)

definition empty_database :: database where
  "empty_database = \<lparr>query_servers = \<lambda>q. Ok ([], None), query_users = \<lambda>q. Ok ([], None)\<rparr>"

lemma main_without_replay_history_witness:
  "\<exists>s. main_server toy_os toy_crypto toy_specs sorted_list_of_set id toy_api_env (Inr empty_database) 0 = Ok s \<and>
     Add (Some (ss_replayCache s)) ''u'' [1, 2, 3] = (True, Some (ss_replayCache s))"
proof -
  obtain s where run: "main_server toy_os toy_crypto toy_specs sorted_list_of_set id toy_api_env (Inr empty_database) 0 = Ok s"
    by (simp add: main_server_def RunSSServer_def GetUsers_def empty_database_def NewReplayCache_def MaxCapacity_def doRun_def
        api_Init_def toy_api_env_def)
  from main_without_replay_history [OF this, of "''u''" "[1, 2, 3]"] run show ?thesis by blast
qed

end
