(* ===== verification/Service_TCP_Total.thy ===== *)
theory Service_TCP_Total
  imports Service_TCP_Relay
begin

text \<open>
  The connection handler of \<^verbatim>\<open>service/tcp.go\<close> returns on every connection, whatever the client sends and whatever
  the sockets do: a client's stream that ends, a target that fails at any byte, a random source that fails. The
  loops of the relay are the partial functions of theory \<^verbatim>\<open>SS_Stream_Reader\<close>; here they are shown to return.
\<close>

section \<open>The pieces\<close>

lemma writer_init_total:
  assumes "cipher_ok cr (ssCipher sw)" and "sw_aead sw = None" and "saltGenerator sw = Some g"
  obtains (failed) e sw1 where "writer_init cr ent sw = Ok (Some e, sw1)"
    | (ready) A sw1 where "writer_init cr ent sw = Ok (None, sw1)" "sw_aead sw1 = Some A"
proof (cases "GetSalt cr g ent (make_bytes (SaltSize (ssCipher sw)))")
  case (Ok salt)
  obtain A where "NewAEAD cr (ssCipher sw) salt = Ok A" using assms(1) by (rule cipher_okE)
  with Ok assms that(2) show ?thesis by (simp add: writer_init_def Let_def)
next
  case (Fail e)
  with assms that(1) show ?thesis by (simp add: writer_init_def)
next
  case (Panic m)
  then show ?thesis using any_salts.salt_no_panic by blast
qed

lemma ReadFrom_total:
  assumes "cipher_ok cr (ssCipher sw)" and "sw_aead sw = None" and "saltGenerator sw = Some g"
  obtains n err sw' r' where "ReadFrom cr ent race sw r = Ok (n, err, sw', r')"
proof (rule writer_init_total [OF assms, of ent])
  fix A sw1
  assume "writer_init cr ent sw = Ok (None, sw1)" and "sw_aead sw1 = Some A"
  then have "\<exists>x. ReadFrom cr ent race sw r = Ok x" by (simp add: ReadFrom_def split: prod.split option.split)
  then show thesis using that by (metis prod.collapse)
qed (use that in \<open>simp add: ReadFrom_def\<close>)

lemma relay_total:
  assumes "cipher_ok (env_crypto env) (entry_Cipher entry)" and "chunk_inv (env_crypto env) (rc_cr ssr)"
  shows "\<exists>out. relay env entry uid s conn ssr target = Some (Ok out)"
proof -
  obtain p tgt where target: "target = (p, tgt)" by (cases target)
  let ?ssw = "SetSaltGenerator (NewShadowsocksWriter (conn_writer conn) (entry_Cipher entry)) (Some (entry_SaltGenerator entry))"
  have sw: "ssCipher ?ssw = entry_Cipher entry" "sw_aead ?ssw = None" "saltGenerator ?ssw = Some (entry_SaltGenerator entry)"
    by (simp_all add: SetSaltGenerator_def NewShadowsocksWriter_def)
  from ss_chunks.conv_WriteTo_writes [OF assms(2), of "\<lambda>x. env_pick env (cr_pool x)" "tgt_writer tgt" 0]
  obtain n err c' w' where
    "conv_WriteTo (\<lambda>x. ReadChunk (env_crypto env) (env_pick env (cr_pool x)) x) ssr (tgt_writer tgt) 0 = Some (Ok (n, err), c', w')"
    by auto
  moreover obtain m err2 sw' r' where
    "ReadFrom (env_crypto env) (env_entropy env) False ?ssw (tgt_reader tgt) = Ok (m, err2, sw', r')"
    by (rule ReadFrom_total [of "env_crypto env" ?ssw, OF _ sw(2,3)]) (use assms(1) sw(1) in auto)
  ultimately show ?thesis by (simp add: relay_def Let_def target)
qed

text \<open>What \<^verbatim>\<open>socks.ReadAddr\<close> promises, from a reader in a proper state: it does not panic, and an address that it
  returns is what successful \<open>Read\<close> calls delivered.\<close>

definition reads_address :: "tcp_env \<Rightarrow> bool" where
  "reads_address env \<longleftrightarrow>
     (\<forall>ssr r ssr'. chunk_inv (env_crypto env) (rc_cr ssr) \<longrightarrow> env_ReadAddr env ssr = (r, ssr') \<longrightarrow>
        (\<forall>m. r \<noteq> Panic m) \<and>
        (\<forall>a. r = Ok a \<longrightarrow>
           (\<exists>ns. conv_reads (\<lambda>x. ReadChunk (env_crypto env) (env_pick env (cr_pool x)) x) ssr ns = Some (a, ssr'))))"

lemma address_inv:
  assumes base: "crypto_ok (env_crypto env)" "supportedAEADs (env_crypto env) = Ok specs" "env_pool env = readBufPool specs"
    and addr: "reads_address env" and ok: "cipher_ok (env_crypto env) (entry_Cipher entry)" and rd: "eof_chained rd"
    and ra: "env_ReadAddr env (NewShadowsocksReader (env_pool env) rd (entry_Cipher entry)) = (r, ssr)"
  shows "r \<noteq> Panic m" and "r = Ok a \<Longrightarrow> chunk_inv (env_crypto env) (rc_cr (lift_ssr (conn_later conn) ssr))"
proof -
  let ?new = "NewShadowsocksReader (env_pool env) rd (entry_Cipher entry)"
  have inv: "chunk_inv (env_crypto env) (rc_cr ?new)"
    using newChunkReader_inv [OF base(1,2) ok rd] base(3) by (simp add: NewShadowsocksReader_def)
  with addr ra show "r \<noteq> Panic m" unfolding reads_address_def by blast
  assume "r = Ok a"
  with addr inv ra obtain ns where
    ns: "conv_reads (\<lambda>x. ReadChunk (env_crypto env) (env_pick env (cr_pool x)) x) ?new ns = Some (a, ssr)"
    unfolding reads_address_def by blast
  have "chunk_inv (env_crypto env) (rc_cr (lift_ssr (conn_later conn) ?new))"
    using newChunkReader_inv [OF base(1,2) ok eof_chained_lift [OF rd, of "conn_later conn"]] base(3)
    by (simp add: lift_ssr_def NewShadowsocksReader_def newChunkReader_def)
  from conv_reads_spec [OF this conv_reads_lift [OF ns]]
  show "chunk_inv (env_crypto env) (rc_cr (lift_ssr (conn_later conn) ssr))" by simp
qed

lemma serve_client_total:
  assumes base: "crypto_ok (env_crypto env)" "supportedAEADs (env_crypto env) = Ok specs" "env_pool env = readBufPool specs"
    and addr: "reads_address env" and ok: "cipher_ok (env_crypto env) (entry_Cipher entry)" and rd: "eof_chained rd"
  shows "\<exists>out. serve_client env entry uid s conn rd = Some (Ok out)"
proof -
  obtain r ssr where ra: "env_ReadAddr env (NewShadowsocksReader (env_pool env) rd (entry_Cipher entry)) = (r, ssr)" by fastforce
  note inv = address_inv [OF assms ra]
  show ?thesis
  proof (cases r)
    case (Ok a)
    note total = relay_total [OF ok inv(2) [OF Ok]]
    obtain atts err where d: "env_dial env (env_addr_String env a) = (atts, err)"
      by (cases "env_dial env (env_addr_String env a)")
    show ?thesis
      using ra Ok d total by (cases "dialTarget (tcp_targetIPValidator s) atts err") (simp_all add: serve_client_def Let_def)
  next
    case (Fail e)
    with ra show ?thesis by (simp add: serve_client_def Let_def split: prod.split)
  next
    case (Panic m)
    with inv(1) show ?thesis by blast
  qed
qed


section \<open>The handler\<close>

lemma handleConnection_returns:
  assumes "crypto_ok (env_crypto env)" and "supportedAEADs (env_crypto env) = Ok specs" and "env_pool env = readBufPool specs"
    and "reads_address env" and "keys_ok (env_crypto env) (tcp_ciphers s)" and "eof_chained (conn_reader conn)"
  shows "\<exists>out. handleConnection env s conn = Some (Ok out)"
proof -
  let ?cr = "env_crypto env" and ?p = "remoteIP (env_host_ip env) (conn_remote conn)"
  show ?thesis
  proof (cases "length (contents (conn_reader conn)) < 50 \<or>
      (\<forall>e \<in> set (cl_list (tcp_ciphers s)).
         \<not> opens ?cr (take 50 (contents (conn_reader conn))) (entry_Cipher (cl_entry (tcp_ciphers s) e)))")
    case True
    from handle_probe [OF assms(5,6) this] show ?thesis by blast
  next
    case False
    then have long: "50 \<le> length (contents (conn_reader conn))" by simp
    obtain r' where r': "eof_chained r'" and found: "findAccessKey ?cr (conn_reader conn) ?p (tcp_ciphers s) =
        (case List.find (\<lambda>e. opens ?cr (take 50 (contents (conn_reader conn))) (entry_Cipher (cl_entry (tcp_ciphers s) e)))
            (SnapshotForClientIP (tcp_ciphers s) ?p) of
           None \<Rightarrow> Ok (\<lparr>ak_elt = None, ak_reader = r', ak_salt = [],
                      ak_err = Some (ErrorNew ''Could not find valid TCP cipher''), ak_id = ''''\<rparr>, tcp_ciphers s)
         | Some e \<Rightarrow> Ok (\<lparr>ak_elt = Some e, ak_reader = MultiReader (BytesReader (take 50 (contents (conn_reader conn)))) r',
               ak_salt = take (SaltSize (entry_Cipher (cl_entry (tcp_ciphers s) e))) (take 50 (contents (conn_reader conn))),
               ak_err = None, ak_id = ID (cl_entry (tcp_ciphers s) e)\<rparr>, MarkUsedByClientIP (tcp_ciphers s) e ?p))"
      by (rule findAccessKey_search [OF assms(6) long assms(5), of ?p]) blast
    show ?thesis
    proof (cases "List.find (\<lambda>e. opens ?cr (take 50 (contents (conn_reader conn))) (entry_Cipher (cl_entry (tcp_ciphers s) e)))
            (SnapshotForClientIP (tcp_ciphers s) ?p)")
      case None
      with found show ?thesis by (simp add: handleConnection_def)
    next
      case (Some e)
      let ?rd = "MultiReader (BytesReader (take 50 (contents (conn_reader conn)))) r'"
      from Some have "e \<in> set (SnapshotForClientIP (tcp_ciphers s) ?p)" by (auto simp: find_Some_iff)
      then have "e \<in> set (cl_list (tcp_ciphers s))" by (simp add: port_ciphers.snapshot_set)
      then have "cipher_ok ?cr (entry_Cipher (cl_entry (MarkUsedByClientIP (tcp_ciphers s) e ?p) e))"
        using assms(5) by (simp add: keys_ok_def)
      from serve_client_total [OF assms(1-4) this, of ?rd] r'
      have serve: "\<exists>out. serve_client env (cl_entry (MarkUsedByClientIP (tcp_ciphers s) e ?p) e) uid s1 conn ?rd = Some (Ok out)"
        for uid s1 by simp
      note found_e = found [unfolded Some option.case]
      show ?thesis
        unfolding handleConnection_found [OF found_e]
        using serve by (auto split: prod.split bool.split)
    qed
  qed
qed

lemma toy_reads_address: "reads_address toy_env"
  unfolding reads_address_def
proof (intro allI impI)
  fix ssr r ssr'
  assume inv: "chunk_inv (env_crypto toy_env) (rc_cr ssr)" and ra: "env_ReadAddr toy_env ssr = (r, ssr')"
  have "r \<noteq> Panic m" for m
    using ss_chunks.conv_Read_spec [of toy_crypto ssr "\<lambda>x. 0" 1] inv ra
    by (auto simp: toy_env_def toy_ReadAddr_def)
  moreover have "conv_reads (\<lambda>x. ReadChunk (env_crypto toy_env) (env_pick toy_env (cr_pool x)) x) ssr [1] = Some (a, ssr')"
    if "r = Ok a" for a
    using ra that by (simp add: toy_env_def toy_ReadAddr_def)
  ultimately show "(\<forall>m. r \<noteq> Panic m) \<and> (\<forall>a. r = Ok a \<longrightarrow>
      (\<exists>ns. conv_reads (\<lambda>x. ReadChunk (env_crypto toy_env) (env_pick toy_env (cr_pool x)) x) ssr ns = Some (a, ssr')))"
    by blast
qed

lemma handleConnection_returns_witness:
  "\<exists>out. handleConnection toy_env toy_service (toy_conn [[1, 2], make_bytes 60] (NetError True)) = Some (Ok out)"
  by (rule handleConnection_returns [OF _ _ _ toy_reads_address])
    (use toy_crypto_ok toy_specs toy_keys_ok in \<open>simp_all add: toy_env_def toy_service_def toy_conn_def\<close>)

end
