(* ===== verification/Service_TCP_Threads.thy ===== *)
theory Service_TCP_Threads
  imports Service_TCP_Total
begin

text \<open>
  The two goroutines that relay a connection of \<^verbatim>\<open>service/tcp.go\<close>, step by step: each iteration of a copying loop, of the
  drain after an error, and each record of traffic is a step, and the scheduler interleaves the steps of the two
  in any way. Theory \<^verbatim>\<open>Service_TCP\<close> runs one direction after the other; here it is shown that this loses nothing.
\<close>

section \<open>The goroutines\<close>

text \<open>From the client to the target: copying with \<open>WriteTo\<close>, draining the client after an error, recording, done. The
  numbers are the bytes written so far.\<close>

datatype up_thread =
    UpCopy ss_reader writer nat
  | UpDrain nat goerror reader writer
  | UpRecord nat "goerror option" reader writer
  | UpDone nat "goerror option" reader writer
  | UpPanic string

definition up_chunks :: "tcp_env \<Rightarrow> chunkReader chunk_fn" where
  "up_chunks env = (\<lambda>x. ReadChunk (env_crypto env) (env_pick env (cr_pool x)) x)"

abbreviation client_side :: "ss_reader \<Rightarrow> reader" where
  "client_side ssr \<equiv> conn_of (cr_reader (rc_cr ssr))"

fun up_step :: "tcp_env \<Rightarrow> up_thread \<Rightarrow> up_thread" where
  "up_step env (UpCopy ssr w n) =
     (case ensureLeftover (up_chunks env) ssr of
        (Panic m, ssr1) \<Rightarrow> UpPanic m
      | (Fail e, ssr1) \<Rightarrow>
          if e = EOF then UpRecord n None (client_side ssr1) w else UpDrain n e (client_side ssr1) w
      | (Ok _, ssr1) \<Rightarrow>
          (case Write w (leftover ssr1) of
             (k, err, w1) \<Rightarrow>
               (let ssr2 = ssr1\<lparr>leftover := drop k (leftover ssr1)\<rparr>
                in case err of
                     Some e \<Rightarrow> UpDrain (n + k) e (client_side ssr2) w1
                   | None \<Rightarrow> UpCopy ssr2 w1 (n + k))))"
| "up_step env (UpDrain i e r w) =
     (case Read r 8192 of
        (d, None, r1) \<Rightarrow> UpDrain i e r1 w
      | (d, Some _, r1) \<Rightarrow> UpRecord i (Some e) r1 w)"
| "up_step env (UpRecord i err r w) = UpDone i err r w"
| "up_step env t = t"

text \<open>From the target to the client: the main loop of \<open>ReadFrom\<close>, recording, done.\<close>

datatype down_thread =
    DownCopy aead Writer reader nat
  | DownRecord nat "goerror option" Writer reader
  | DownDone nat "goerror option" Writer reader
  | DownPanic string
  | DownFail goerror

definition from_error :: "goerror \<Rightarrow> goerror option" where
  "from_error e = (if e = EOF then None else Some (ErrorWrap ''Failed to read payload'' e))"

text \<open>\<open>ReadFrom\<close> before its main loop.\<close>

definition down_start :: "tcp_env \<Rightarrow> Writer \<Rightarrow> reader \<Rightarrow> down_thread" where
  "down_start env ssw r =
     (case writer_init (env_crypto env) (env_entropy env) ssw of
        Panic m \<Rightarrow> DownPanic m
      | Fail e \<Rightarrow> DownFail e
      | Ok (Some e, sw1) \<Rightarrow> DownRecord 0 (Some e) sw1 r
      | Ok (None, sw1) \<Rightarrow>
          (case sw_aead sw1 of
             None \<Rightarrow> DownPanic ''invalid memory address or nil pointer dereference''
           | Some A \<Rightarrow>
               (case (if needFlush sw1 then read_from_first A False sw1 r else (0, None, sw1, r)) of
                  (written, Some e, sw2, r2) \<Rightarrow> DownRecord written (from_error e) sw2 r2
                | (written, None, sw2, r2) \<Rightarrow> DownCopy A sw2 r2 written)))"

fun down_step :: "down_thread \<Rightarrow> down_thread" where
  "down_step (DownCopy A sw r written) =
     (case Read r payloadSizeMask of
        (d, err, r1) \<Rightarrow>
          (case flush A (sw\<lparr>buf := blit (buf sw) (payloadStart A sw) d, pending := length d\<rparr>) of
             (flushErr, sw1) \<Rightarrow>
               (case (case flushErr of Some fe \<Rightarrow> Some fe | None \<Rightarrow> err) of
                  Some e \<Rightarrow> DownRecord (written + length d) (from_error e) sw1 r1
                | None \<Rightarrow> DownCopy A sw1 r1 (written + length d))))"
| "down_step (DownRecord ri err sw r) = DownDone ri err sw r"
| "down_step t = t"

fun up_ended :: "up_thread \<Rightarrow> bool" where
  "up_ended (UpDone i err r w) = True"
| "up_ended (UpPanic m) = True"
| "up_ended _ = False"

fun down_ended :: "down_thread \<Rightarrow> bool" where
  "down_ended (DownDone ri err sw r) = True"
| "down_ended (DownPanic m) = True"
| "down_ended (DownFail e) = True"
| "down_ended _ = False"

section \<open>Interleaving\<close>

text \<open>The goroutines, the client of the panel they share, and which of them has recorded first.\<close>

record relay_run =
  rr_up :: up_thread
  rr_down :: down_thread
  rr_api :: APIClient
  rr_upFirst :: "bool option"

definition first_of :: "bool option \<Rightarrow> bool \<Rightarrow> bool option" where
  "first_of o1 b = (case o1 of None \<Rightarrow> Some b | Some c \<Rightarrow> Some c)"

text \<open>A step of one goroutine, which records its traffic when it gets there.\<close>

definition step_up :: "tcp_env \<Rightarrow> string \<Rightarrow> relay_run \<Rightarrow> relay_run" where
  "step_up env uid st =
     (case rr_up st of
        UpRecord i err r w \<Rightarrow>
          st\<lparr>rr_up := UpDone i err r w, rr_api := AddRepo (rr_api st) \<lparr>UID = uid, ut_U = word_of_nat i, ut_D = 0\<rparr>,
             rr_upFirst := first_of (rr_upFirst st) True\<rparr>
      | t \<Rightarrow> st\<lparr>rr_up := up_step env t\<rparr>)"

definition step_down :: "string \<Rightarrow> relay_run \<Rightarrow> relay_run" where
  "step_down uid st =
     (case rr_down st of
        DownRecord ri err sw r \<Rightarrow>
          st\<lparr>rr_down := DownDone ri err sw r, rr_api := AddRepo (rr_api st) \<lparr>UID = uid, ut_U = 0, ut_D = word_of_nat ri\<rparr>,
             rr_upFirst := first_of (rr_upFirst st) False\<rparr>
      | t \<Rightarrow> st\<lparr>rr_down := down_step t\<rparr>)"

inductive relay_step :: "tcp_env \<Rightarrow> string \<Rightarrow> relay_run \<Rightarrow> relay_run \<Rightarrow> bool" for env uid where
  up: "\<not> up_ended (rr_up st) \<Longrightarrow> relay_step env uid st (step_up env uid st)"
| down: "\<not> down_ended (rr_down st) \<Longrightarrow> relay_step env uid st (step_down uid st)"

inductive_cases relay_stepE: "relay_step env uid st st'"

definition server_writer :: "CipherEntry \<Rightarrow> client_conn \<Rightarrow> Writer" where
  "server_writer entry conn =
     SetSaltGenerator (NewShadowsocksWriter (conn_writer conn) (entry_Cipher entry)) (Some (entry_SaltGenerator entry))"

definition relay_start :: "tcp_env \<Rightarrow> CipherEntry \<Rightarrow> tcpService \<Rightarrow> client_conn \<Rightarrow> ss_reader \<Rightarrow> target_conn \<Rightarrow> relay_run" where
  "relay_start env entry s conn ssr tgt =
     \<lparr>rr_up = UpCopy ssr (tgt_writer tgt) 0, rr_down = down_start env (server_writer entry conn) (tgt_reader tgt),
      rr_api = tcp_api s, rr_upFirst = None\<rparr>"

section \<open>Where each goroutine ends\<close>

text \<open>What a goroutine will have become when it has ended, computed by the loops of the other theories.\<close>

fun up_final :: "tcp_env \<Rightarrow> up_thread \<Rightarrow> up_thread option" where
  "up_final env (UpCopy ssr w n) =
     (case conv_WriteTo (up_chunks env) ssr w n of
        Some (Ok (i, err), ssr1, w1) \<Rightarrow>
          Some (UpDone i err (if err \<noteq> None then snd (snd (copy_discard (client_side ssr1) 0)) else client_side ssr1) w1)
      | Some (Panic m, ssr1, w1) \<Rightarrow> Some (UpPanic m)
      | _ \<Rightarrow> None)"
| "up_final env (UpDrain i e r w) = Some (UpDone i (Some e) (snd (snd (copy_discard r 0))) w)"
| "up_final env (UpRecord i err r w) = Some (UpDone i err r w)"
| "up_final env t = Some t"

fun down_final :: "down_thread \<Rightarrow> down_thread" where
  "down_final (DownCopy A sw r written) =
     (case read_from_loop A sw r written of (n, e, sw1, r1) \<Rightarrow> DownDone n (from_error e) sw1 r1)"
| "down_final (DownRecord ri err sw r) = DownDone ri err sw r"
| "down_final t = t"

lemma copy_discard_count: "snd (snd (copy_discard r m)) = snd (snd (copy_discard r k))"
proof (induction r m arbitrary: k rule: copy_discard.induct)
  case (1 r m)
  obtain d e r1 where rd: "Read r 8192 = (d, e, r1)" by (cases "Read r 8192")
  show ?case
  proof (cases e)
    case None
    with rd "1.IH" [of d "(None, r1)" None r1 "k + length d"] show ?thesis
      by (simp add: copy_discard.simps [of r])
  next
    case (Some x)
    with rd show ?thesis by (simp add: copy_discard.simps [of r])
  qed
qed

lemma up_final_step: "up_final env (up_step env t) = up_final env t"
proof (cases t)
  case (UpCopy ssr w n)
  obtain x ssr1 where el: "ensureLeftover (up_chunks env) ssr = (x, ssr1)" by (cases "ensureLeftover (up_chunks env) ssr")
  obtain k err w1 where wr: "Write w (leftover ssr1) = (k, err, w1)" by (cases "Write w (leftover ssr1)")
  show ?thesis
    using el wr by (cases x; cases err) (simp_all add: UpCopy Let_def conv_WriteTo.simps [of "up_chunks env" ssr w n])
next
  case (UpDrain i e r w)
  obtain d er r1 where "Read r 8192 = (d, er, r1)" by (cases "Read r 8192")
  then show ?thesis
    by (cases er) (simp_all add: UpDrain copy_discard.simps [of r] copy_discard_count [of r1 "length d" 0])
qed simp_all

lemma down_final_step: "down_final (down_step t) = down_final t"
proof (cases t)
  case (DownCopy A sw r n)
  obtain d er r1 where rd: "Read r payloadSizeMask = (d, er, r1)" by (cases "Read r payloadSizeMask")
  obtain fe sw1 where fl: "flush A (sw\<lparr>buf := blit (buf sw) (payloadStart A sw) d, pending := length d\<rparr>) = (fe, sw1)"
    by (cases "flush A (sw\<lparr>buf := blit (buf sw) (payloadStart A sw) d, pending := length d\<rparr>)")
  show ?thesis
    by (cases fe; cases er) (simp_all add: DownCopy rd fl read_from_loop.simps [of A sw r n])
qed simp_all

lemma ReadFrom_final:
  "ReadFrom (env_crypto env) (env_entropy env) False ssw r =
     (case down_final (down_start env ssw r) of
        DownDone n err sw r1 \<Rightarrow> Ok (n, err, sw, r1) | DownPanic m \<Rightarrow> Panic m | DownFail e \<Rightarrow> Fail e)"
proof (cases "writer_init (env_crypto env) (env_entropy env) ssw")
  case (Ok x)
  obtain ie sw1 where x: "x = (ie, sw1)" by (cases x)
  show ?thesis
  proof (cases "ie = None \<and> sw_aead sw1 \<noteq> None")
    case True
    then obtain A where A: "ie = None" "sw_aead sw1 = Some A" by auto
    obtain n err sw2 r2 where pre: "(if needFlush sw1 then read_from_first A False sw1 r else (0, None, sw1, r)) = (n, err, sw2, r2)"
      by (metis prod_cases4)
    obtain n1 e sw3 r3 where loop: "read_from_loop A sw2 r2 n = (n1, e, sw3, r3)" by (metis prod_cases4)
    show ?thesis
      by (cases err) (simp_all add: ReadFrom_def down_start_def Ok x A pre loop from_error_def)
  next
    case False
    with Ok x show ?thesis by (cases ie; cases "sw_aead sw1") (simp_all add: ReadFrom_def down_start_def)
  qed
qed (simp_all add: ReadFrom_def down_start_def)

section \<open>Both goroutines end\<close>

definition up_ends :: "tcp_env \<Rightarrow> up_thread \<Rightarrow> bool" where
  "up_ends env t \<longleftrightarrow> (\<exists>k. up_ended ((up_step env ^^ k) t))"

definition down_ends :: "down_thread \<Rightarrow> bool" where
  "down_ends t \<longleftrightarrow> (\<exists>k. down_ended ((down_step ^^ k) t))"

lemma up_ends_step: "up_ends env (up_step env t) \<Longrightarrow> up_ends env t"
  unfolding up_ends_def by (metis funpow_Suc_right o_apply)

lemma down_ends_step: "down_ends (down_step t) \<Longrightarrow> down_ends t"
  unfolding down_ends_def by (metis funpow_Suc_right o_apply)

lemma up_ends_ended: "up_ended t \<Longrightarrow> up_ends env t"
  unfolding up_ends_def by (metis funpow_0)

lemma down_ends_ended: "down_ended t \<Longrightarrow> down_ends t"
  unfolding down_ends_def by (metis funpow_0)

lemma up_ends_record: "up_ends env (UpRecord i err r w)"
  by (rule up_ends_step) (simp add: up_ends_ended)

lemma down_ends_record: "down_ends (DownRecord ri err sw r)"
  by (rule down_ends_step) (simp add: down_ends_ended)

lemma up_ends_drain: "up_ends env (UpDrain i e r w)"
proof (induction "reads_left r" arbitrary: r rule: less_induct)
  case less
  obtain d er r1 where rd: "Read r 8192 = (d, er, r1)" by (cases "Read r 8192")
  show ?case
  proof (cases er)
    case None
    with rd Read_progress [of r 8192 d r1] less have "up_ends env (UpDrain i e r1 w)" by simp
    with rd None show ?thesis by (intro up_ends_step [of env "UpDrain i e r w"]) simp
  next
    case (Some x)
    with rd show ?thesis by (intro up_ends_step [of env "UpDrain i e r w"]) (simp add: up_ends_record)
  qed
qed

text \<open>The goroutine from the client ends when the loop of \<open>WriteTo\<close> returns.\<close>

lemma up_ends_copy:
  assumes "conv_WriteTo (up_chunks env) ssr w n = Some y"
  shows "up_ends env (UpCopy ssr w n)"
proof -
  let ?P = "\<lambda>rd ssr w n res. rd = up_chunks env \<longrightarrow> up_ends env (UpCopy ssr w n)"
  have "?P (up_chunks env) ssr w n y"
  proof (rule conv_WriteTo.raw_induct [OF _ assms, of ?P])
    fix f :: "chunkReader chunk_fn \<Rightarrow> ss_reader \<Rightarrow> writer \<Rightarrow> nat \<Rightarrow> ((nat \<times> goerror option) result \<times> ss_reader \<times> writer) option"
    fix rd ssr w n res
    assume IH: "\<And>rd ssr w n res. f rd ssr w n = Some res \<Longrightarrow> ?P rd ssr w n res"
      and body: "(case ensureLeftover rd ssr of
        (Panic m, c') \<Rightarrow> Some (Panic m, c', w)
      | (Fail e, c') \<Rightarrow> Some (Ok (n, (if e = EOF then None else Some e)), c', w)
      | (Ok _, c') \<Rightarrow>
          (case Write w (leftover c') of
             (k, err, w') \<Rightarrow>
               (let c2 = c'\<lparr>leftover := drop k (leftover c')\<rparr>
                in case err of
                     Some e \<Rightarrow> Some (Ok (n + k, Some e), c2, w')
                   | None \<Rightarrow> f rd c2 w' (n + k)))) = Some res"
    show "?P rd ssr w n res"
    proof
      assume c: "rd = up_chunks env"
      obtain x ssr1 where el: "ensureLeftover (up_chunks env) ssr = (x, ssr1)"
        by (cases "ensureLeftover (up_chunks env) ssr")
      obtain k err w1 where wr: "Write w (leftover ssr1) = (k, err, w1)" by (cases "Write w (leftover ssr1)")
      have "up_ends env (up_step env (UpCopy ssr w n))"
      proof (cases x)
        case (Ok u)
        show ?thesis
        proof (cases err)
          case None
          with body c el wr Ok have "f rd (ssr1\<lparr>leftover := drop k (leftover ssr1)\<rparr>) w1 (n + k) = Some res"
            by (simp add: Let_def)
          from IH [OF this] c show ?thesis by (simp add: el wr Ok None)
        next
          case (Some e)
          then show ?thesis by (simp add: el wr Ok up_ends_drain)
        qed
      qed (simp_all add: el up_ends_drain up_ends_record up_ends_ended)
      then show "up_ends env (UpCopy ssr w n)" by (rule up_ends_step)
    qed
  qed
  then show ?thesis by simp
qed

lemma down_ends_copy: "down_ends (DownCopy A sw r n)"
proof (induction "reads_left r" arbitrary: sw r n rule: less_induct)
  case less
  obtain d er r1 where rd: "Read r payloadSizeMask = (d, er, r1)" by (cases "Read r payloadSizeMask")
  obtain fe sw1 where fl: "flush A (sw\<lparr>buf := blit (buf sw) (payloadStart A sw) d, pending := length d\<rparr>) = (fe, sw1)"
    by (cases "flush A (sw\<lparr>buf := blit (buf sw) (payloadStart A sw) d, pending := length d\<rparr>)")
  have "down_ends (down_step (DownCopy A sw r n))"
  proof (cases "fe = None \<and> er = None")
    case True
    have "0 < payloadSizeMask" by (simp add: payloadSizeMask_def)
    with True rd Read_progress [of r payloadSizeMask d r1] have "reads_left r1 < reads_left r" by simp
    from less [OF this] True show ?thesis by (simp add: rd fl)
  next
    case False
    then show ?thesis by (cases fe; cases er) (simp_all add: rd fl down_ends_record)
  qed
  then show ?case by (rule down_ends_step)
qed

lemma down_ends_start: "down_ends (down_start env ssw r)"
  unfolding down_start_def
  by (auto split: result.split option.split prod.split
      intro: down_ends_copy down_ends_record down_ends_ended)

section \<open>Every schedule\<close>

lemma step_up_simps [simp]:
  "rr_up (step_up env uid st) = up_step env (rr_up st)" "rr_down (step_up env uid st) = rr_down st"
  by (simp_all add: step_up_def split: up_thread.split)

lemma step_down_simps [simp]:
  "rr_down (step_down uid st) = down_step (rr_down st)" "rr_up (step_down uid st) = rr_up st"
  by (simp_all add: step_down_def split: down_thread.split)

text \<open>A run of \<open>n\<close> steps is \<open>i\<close> steps of one goroutine and \<open>j\<close> of the other, none after its end.\<close>

lemma relay_run_threads:
  assumes "(relay_step env uid ^^ n) st0 st"
  shows "\<exists>i j. n = i + j \<and> rr_up st = (up_step env ^^ i) (rr_up st0) \<and> rr_down st = (down_step ^^ j) (rr_down st0) \<and>
    (\<forall>k < i. \<not> up_ended ((up_step env ^^ k) (rr_up st0))) \<and> (\<forall>k < j. \<not> down_ended ((down_step ^^ k) (rr_down st0)))"
  using assms
proof (induction n arbitrary: st)
  case (Suc n)
  then obtain st1 where st1: "(relay_step env uid ^^ n) st0 st1" "relay_step env uid st1 st" by auto
  from Suc.IH [OF st1(1)] obtain i j where ij: "n = i + j" "rr_up st1 = (up_step env ^^ i) (rr_up st0)"
    "rr_down st1 = (down_step ^^ j) (rr_down st0)" "\<forall>k < i. \<not> up_ended ((up_step env ^^ k) (rr_up st0))"
    "\<forall>k < j. \<not> down_ended ((down_step ^^ k) (rr_down st0))" by blast
  from st1(2) show ?case
  proof (rule relay_stepE)
    assume "st = step_up env uid st1" "\<not> up_ended (rr_up st1)"
    with ij show ?thesis by (intro exI [of _ "Suc i"] exI [of _ j]) (auto simp: less_Suc_eq)
  next
    assume "st = step_down uid st1" "\<not> down_ended (rr_down st1)"
    with ij show ?thesis by (intro exI [of _ i] exI [of _ "Suc j"]) (auto simp: less_Suc_eq)
  qed
qed simp

lemma relay_run_bounded:
  assumes "up_ends env (rr_up st0)" and "down_ends (rr_down st0)"
  shows "\<exists>N. \<forall>n st. (relay_step env uid ^^ n) st0 st \<longrightarrow> n \<le> N"
proof -
  from assms obtain U D where "up_ended ((up_step env ^^ U) (rr_up st0))" "down_ended ((down_step ^^ D) (rr_down st0))"
    by (auto simp: up_ends_def down_ends_def)
  then have "n \<le> U + D" if "(relay_step env uid ^^ n) st0 st" for n st
    using relay_run_threads [OF that] by (metis add_mono not_le)
  then show ?thesis by blast
qed

text \<open>What has been recorded.\<close>

definition up_rec :: "string \<Rightarrow> up_thread \<Rightarrow> UserTraffic list" where
  "up_rec uid t = (case t of UpDone i err r w \<Rightarrow> [\<lparr>UID = uid, ut_U = word_of_nat i, ut_D = 0\<rparr>] | _ \<Rightarrow> [])"

definition down_rec :: "string \<Rightarrow> down_thread \<Rightarrow> UserTraffic list" where
  "down_rec uid t = (case t of DownDone ri err sw r \<Rightarrow> [\<lparr>UID = uid, ut_U = 0, ut_D = word_of_nat ri\<rparr>] | _ \<Rightarrow> [])"

definition recorded :: "string \<Rightarrow> APIClient \<Rightarrow> relay_run \<Rightarrow> bool" where
  "recorded uid c st \<longleftrightarrow>
     rr_api st = foldl AddRepo c
       (if rr_upFirst st = Some True then up_rec uid (rr_up st) @ down_rec uid (rr_down st)
        else down_rec uid (rr_down st) @ up_rec uid (rr_up st)) \<and>
     (rr_upFirst st = None \<longleftrightarrow> up_rec uid (rr_up st) = [] \<and> down_rec uid (rr_down st) = []) \<and>
     (rr_upFirst st = Some True \<longrightarrow> up_rec uid (rr_up st) \<noteq> []) \<and>
     (rr_upFirst st = Some False \<longrightarrow> down_rec uid (rr_down st) \<noteq> [])"

lemma rec_step_up:
  "\<not> up_ended t \<Longrightarrow> up_rec uid t = []"
  by (cases t) (simp_all add: up_rec_def)

lemma rec_step_down:
  "\<not> down_ended t \<Longrightarrow> down_rec uid t = []"
  by (cases t) (simp_all add: down_rec_def)

lemma up_rec_step: "\<forall>i err r w. t \<noteq> UpRecord i err r w \<Longrightarrow> \<not> up_ended t \<Longrightarrow> up_rec uid (up_step env t) = []"
  by (cases t) (auto simp: up_rec_def Let_def split: prod.split result.split option.splits up_thread.split if_splits)

lemma down_rec_step: "\<forall>i err r w. t \<noteq> DownRecord i err r w \<Longrightarrow> \<not> down_ended t \<Longrightarrow> down_rec uid (down_step t) = []"
  by (cases t) (auto simp: down_rec_def Let_def split: prod.split option.splits down_thread.split)

lemma recorded_step:
  assumes "relay_step env uid st st'" and "recorded uid c st"
  shows "recorded uid c st'"
  using assms(1)
proof (rule relay_stepE)
  assume st': "st' = step_up env uid st" and run: "\<not> up_ended (rr_up st)"
  note none = rec_step_up [OF run, of uid]
  show ?thesis
  proof (cases "\<exists>i err r w. rr_up st = UpRecord i err r w")
    case True
    then obtain i err r w where t: "rr_up st = UpRecord i err r w" by blast
    show ?thesis
      using assms(2) none unfolding st'
      by (cases "rr_upFirst st") (auto simp: recorded_def step_up_def t first_of_def up_rec_def)
  next
    case False
    then have same: "step_up env uid st = st\<lparr>rr_up := up_step env (rr_up st)\<rparr>"
      by (simp add: step_up_def split: up_thread.split)
    from False up_rec_step [of "rr_up st" uid env] run have "up_rec uid (up_step env (rr_up st)) = []" by blast
    with assms(2) none show ?thesis unfolding st' same by (simp add: recorded_def)
  qed
next
  assume st': "st' = step_down uid st" and run: "\<not> down_ended (rr_down st)"
  note none = rec_step_down [OF run, of uid]
  show ?thesis
  proof (cases "\<exists>i err r w. rr_down st = DownRecord i err r w")
    case True
    then obtain i err r w where t: "rr_down st = DownRecord i err r w" by blast
    show ?thesis
      using assms(2) none unfolding st'
      by (cases "rr_upFirst st") (auto simp: recorded_def step_down_def t first_of_def down_rec_def)
  next
    case False
    then have same: "step_down uid st = st\<lparr>rr_down := down_step (rr_down st)\<rparr>"
      by (simp add: step_down_def split: down_thread.split)
    from False down_rec_step [of "rr_down st" uid] run have "down_rec uid (down_step (rr_down st)) = []" by blast
    with assms(2) none show ?thesis unfolding st' same by (simp add: recorded_def)
  qed
qed

text \<open>Every state of a run ends where the run would have ended from its start.\<close>

lemma relay_run_inv:
  assumes "(relay_step env uid ^^ n) st0 st" and "recorded uid c st0"
  shows "up_final env (rr_up st) = up_final env (rr_up st0) \<and> down_final (rr_down st) = down_final (rr_down st0) \<and>
    recorded uid c st"
  using assms(1)
proof (induction n arbitrary: st)
  case (Suc n)
  then obtain st1 where st1: "(relay_step env uid ^^ n) st0 st1" "relay_step env uid st1 st" by auto
  from st1(2) have "up_final env (rr_up st) = up_final env (rr_up st1) \<and> down_final (rr_down st) = down_final (rr_down st1)"
    by (rule relay_stepE) (simp_all add: up_final_step down_final_step)
  with Suc.IH [OF st1(1)] recorded_step [OF st1(2)] show ?case by simp
qed (use assms(2) in simp)

lemma up_final_ended: "up_ended t \<Longrightarrow> up_final env t = Some t"
  by (cases t) simp_all

lemma down_final_ended: "down_ended t \<Longrightarrow> down_final t = t"
  by (cases t) simp_all

lemma down_ended_final: "down_ended (down_final t)"
  by (cases t) (simp_all split: prod.split)

lemma recorded_start: "recorded uid (tcp_api s) (relay_start env entry s conn ssr tgt)"
proof -
  have "down_rec uid (down_start env ssw r) = []" for ssw r
    by (auto simp: down_start_def down_rec_def split: result.split option.split prod.split)
  then show ?thesis by (simp add: recorded_def relay_start_def up_rec_def)
qed

text \<open>The outcome of \<open>relay\<close> in terms of where its goroutines end.\<close>

lemma relay_final:
  assumes "relay env entry uid s conn ssr (p, tgt) = Some (Ok out)"
  obtains i ferr r w ri terr sw tr where "up_final env (UpCopy ssr (tgt_writer tgt) 0) = Some (UpDone i ferr r w)"
    "down_final (down_start env (server_writer entry conn) (tgt_reader tgt)) = DownDone ri terr sw tr"
    "out_client out = sw_writer sw" "out_target out = Some (p, w)" "out_unread out = r"
    "tcp_api (out_service out) = foldl AddRepo (tcp_api s)
       (if env_client_first env then up_rec uid (UpDone i ferr r w) @ down_rec uid (DownDone ri terr sw tr)
        else down_rec uid (DownDone ri terr sw tr) @ up_rec uid (UpDone i ferr r w))"
proof -
  let ?up = "conv_WriteTo (up_chunks env) ssr (tgt_writer tgt) 0"
  let ?down = "ReadFrom (env_crypto env) (env_entropy env) False (server_writer entry conn) (tgt_reader tgt)"
  note relay = assms [unfolded relay_def Let_def prod.case, folded up_chunks_def server_writer_def]
  obtain i ferr ssr1 w where up: "?up = Some (Ok (i, ferr), ssr1, w)"
    using relay by (auto split: option.splits result.splits)
  obtain ri terr sw tr where down: "?down = Ok (ri, terr, sw, tr)"
    using relay up by (auto split: result.splits)
  have d: "down_final (down_start env (server_writer entry conn) (tgt_reader tgt)) = DownDone ri terr sw tr"
    using down down_ended_final [of "down_start env (server_writer entry conn) (tgt_reader tgt)"]
    unfolding ReadFrom_final by (auto split: down_thread.splits)
  show ?thesis
    using that [OF _ d] relay up down by (auto simp: finish_def up_rec_def down_rec_def)
qed

lemma env_order_simps [simp]:
  "up_chunks (env\<lparr>env_client_first := b\<rparr>) = up_chunks env"
  "down_start (env\<lparr>env_client_first := b\<rparr>) ssw r = down_start env ssw r"
  by (simp_all add: up_chunks_def down_start_def)

section \<open>Property\<close>

text \<open>It does not matter how the two goroutines of a connection are scheduled. Under every interleaving of their
  iterations the relay ends after a bounded number of steps, neither goroutine panics, and the bytes at the
  client and at the target, what is left unread and the list of traffic records are those of \<open>relay\<close>, which runs
  one direction after the other, with the records in the order in which the goroutines got to them.\<close>

lemma relay_schedules:
  assumes "cipher_ok (env_crypto env) (entry_Cipher entry)" and "chunk_inv (env_crypto env) (rc_cr ssr)"
  shows "\<exists>N. \<forall>n st. (relay_step env uid ^^ n) (relay_start env entry s conn ssr tgt) st \<longrightarrow>
     n \<le> N \<and>
     ((\<forall>st'. \<not> relay_step env uid st st') \<longrightarrow>
        (\<exists>i ferr r w ri terr sw tr out. rr_up st = UpDone i ferr r w \<and> rr_down st = DownDone ri terr sw tr \<and>
          relay (env\<lparr>env_client_first := (rr_upFirst st = Some True)\<rparr>) entry uid s conn ssr (p, tgt) = Some (Ok out) \<and>
          out_client out = sw_writer sw \<and> out_target out = Some (p, w) \<and> out_unread out = r \<and>
          tcp_api (out_service out) = rr_api st))"
proof -
  let ?st0 = "relay_start env entry s conn ssr tgt"
  have start: "rr_up ?st0 = UpCopy ssr (tgt_writer tgt) 0"
    "rr_down ?st0 = down_start env (server_writer entry conn) (tgt_reader tgt)"
    by (simp_all add: relay_start_def)
  have returns: "\<exists>out. relay (env\<lparr>env_client_first := b\<rparr>) entry uid s conn ssr (p, tgt) = Some (Ok out)" for b
    using assms by (intro relay_total) simp_all
  obtain y where "conv_WriteTo (up_chunks env) ssr (tgt_writer tgt) 0 = Some y"
    using returns [of True] by (auto simp: relay_def Let_def up_chunks_def split: option.splits)
  then have "up_ends env (rr_up ?st0)" unfolding start by (rule up_ends_copy)
  moreover have "down_ends (rr_down ?st0)" unfolding start by (rule down_ends_start)
  ultimately obtain N where N: "\<And>n st. (relay_step env uid ^^ n) ?st0 st \<Longrightarrow> n \<le> N"
    using relay_run_bounded [of env ?st0 uid] by blast
  have "\<exists>i ferr r w ri terr sw tr out. rr_up st = UpDone i ferr r w \<and> rr_down st = DownDone ri terr sw tr \<and>
      relay (env\<lparr>env_client_first := (rr_upFirst st = Some True)\<rparr>) entry uid s conn ssr (p, tgt) = Some (Ok out) \<and>
      out_client out = sw_writer sw \<and> out_target out = Some (p, w) \<and> out_unread out = r \<and>
      tcp_api (out_service out) = rr_api st"
    if run: "(relay_step env uid ^^ n) ?st0 st" and stuck: "\<forall>st'. \<not> relay_step env uid st st'" for n st
  proof -
    have ended: "up_ended (rr_up st)" "down_ended (rr_down st)" using stuck relay_step.intros by blast+
    note inv = relay_run_inv [OF run recorded_start, unfolded start]
    from returns obtain out where out: "relay (env\<lparr>env_client_first := (rr_upFirst st = Some True)\<rparr>) entry uid s conn ssr (p, tgt) =
      Some (Ok out)" by blast
    from out obtain i ferr r w ri terr sw tr where fin: "up_final env (UpCopy ssr (tgt_writer tgt) 0) = Some (UpDone i ferr r w)"
      "down_final (down_start env (server_writer entry conn) (tgt_reader tgt)) = DownDone ri terr sw tr"
      "out_client out = sw_writer sw" "out_target out = Some (p, w)" "out_unread out = r"
      "tcp_api (out_service out) = foldl AddRepo (tcp_api s)
       (if rr_upFirst st = Some True then up_rec uid (UpDone i ferr r w) @ down_rec uid (DownDone ri terr sw tr)
        else down_rec uid (DownDone ri terr sw tr) @ up_rec uid (UpDone i ferr r w))"
      by (rule relay_final) simp
    have "rr_up st = UpDone i ferr r w" "rr_down st = DownDone ri terr sw tr"
      using inv fin(1,2) up_final_ended [OF ended(1)] down_final_ended [OF ended(2)] by auto
    moreover from this inv have "rr_api st = tcp_api (out_service out)" by (simp add: recorded_def fin(6))
    ultimately show ?thesis using out fin(3-5) by metis
  qed
  with N show ?thesis by blast
qed

text \<open>A client that sends nothing more after the address, over a schedule in which the goroutines take turns.\<close>

lemma relay_schedules_witness:
  "\<exists>N. \<forall>n st. (relay_step toy_env ''u1'' ^^ n) (relay_start toy_env toy_entry toy_service (toy_conn [] EOF)
     (NewShadowsocksReader (readBufPool toy_specs) (ConnReader [] EOF) toy_cipher) toy_target) st \<longrightarrow> n \<le> N"
proof -
  have "chunk_inv toy_crypto (rc_cr (NewShadowsocksReader (readBufPool toy_specs) (ConnReader [] EOF) toy_cipher))"
    using newChunkReader_inv [OF toy_crypto_ok toy_specs toy_cipher_ok, of "ConnReader [] EOF"]
    by (simp add: NewShadowsocksReader_def)
  moreover have "cipher_ok (env_crypto toy_env) (entry_Cipher toy_entry)"
    using toy_cipher_ok by (simp add: toy_env_simps toy_entry_def)
  ultimately show ?thesis
    using relay_schedules [of toy_env toy_entry "NewShadowsocksReader (readBufPool toy_specs) (ConnReader [] EOF) toy_cipher"
        "''u1''" toy_service "toy_conn [] EOF" toy_target "[]"]
    by (auto simp: toy_env_simps)
qed

end
