(* ===== verification/Service_TCP_Handler.thy ===== *)
theory Service_TCP_Handler
  imports Service_TCP_Threads
begin

text \<open>
  The connection handler of \<^verbatim>\<open>service/tcp.go\<close> as a sequence of steps between which other goroutines run. A step does at
  most one operation on what the handlers of the server share: the list of keys, the replay cache, the client of the
  panel and the metrics. \<open>handleConnection\<close> of theory \<^verbatim>\<open>Service_TCP\<close> is what remains when nothing else runs in between.
\<close>

section \<open>Phases of a handler\<close>

text \<open>\<open>HSearch\<close> holds the list as it was when the snapshot was taken, \<open>HFound\<close> the result of the search with the entry,
  \<open>HProbe\<close> a connection to be drained, \<open>HServe\<close> an authenticated one, \<open>HVisit\<close> one whose address is read, \<open>HRelay\<close> one with its
  two goroutines, \<open>HFinish\<close> the key ID, the status and the counts of the metrics that are added last. The last component is what was
  written to the client, the target with what was written to it, and what is left unread.\<close>

type_synonym conn_end = "writer \<times> (ip \<times> writer) option \<times> reader"

datatype handler =
    HSearch cipherList
  | HFound access_key CipherEntry
  | HProbe string string reader
  | HServe CipherEntry string reader
  | HVisit CipherEntry string bytes ss_reader
  | HRelay CipherEntry string "ip \<times> target_conn" relay_run
  | HFinish string string ProxyMetrics conn_end
  | HDone string conn_end
  | HPanic string

definition client_ip :: "tcp_env \<Rightarrow> client_conn \<Rightarrow> ip" where
  "client_ip env conn = remoteIP (env_host_ip env) (conn_remote conn)"

text \<open>The handler begins when its goroutine takes the snapshot of the keys, before it reads. The connection was accepted before.\<close>

definition handler_start :: "tcpService \<Rightarrow> handler" where
  "handler_start s = HSearch (tcp_ciphers s)"

text \<open>The search goes over the snapshot; the key it finds is marked in the list as it is by then.\<close>

definition search_step :: "tcp_env \<Rightarrow> client_conn \<Rightarrow> tcpService \<Rightarrow> cipherList \<Rightarrow> (tcpService \<times> handler) option" where
  "search_step env conn s cl0 =
     (case findAccessKey (env_crypto env) (conn_reader conn) (client_ip env conn) cl0 of
        Panic m \<Rightarrow> Some (s, HPanic m)
      | Fail e \<Rightarrow> None
      | Ok (ak, cl') \<Rightarrow>
          (case (ak_err ak, ak_elt ak) of
             (Some keyErr, _) \<Rightarrow> Some (s, HProbe '''' ''ERR_CIPHER'' (ak_reader ak))
           | (None, None) \<Rightarrow> Some (s, HPanic ''invalid memory address or nil pointer dereference'')
           | (None, Some elt) \<Rightarrow>
               Some (s\<lparr>tcp_ciphers := MarkUsedByClientIP (tcp_ciphers s) elt (client_ip env conn)\<rparr>, HFound ak (cl_entry cl' elt))))"

definition replay_step :: "tcp_env \<Rightarrow> tcpService \<Rightarrow> access_key \<Rightarrow> CipherEntry \<Rightarrow> tcpService \<times> handler" where
  "replay_step env s ak entry =
     (if IsServerSalt (env_crypto env) (entry_SaltGenerator entry) (ak_salt ak)
      then (s, HProbe (ID entry) ''ERR_REPLAY_SERVER'' (conn_of (ak_reader ak)))
      else case Add (tcp_replayCache s) (ID entry) (ak_salt ak) of
             (new, rc') \<Rightarrow>
               (s\<lparr>tcp_replayCache := rc'\<rparr>,
                if new then HServe entry (ak_id ak) (ak_reader ak)
                else HProbe (ID entry) ''ERR_REPLAY_CLIENT'' (conn_of (ak_reader ak))))"

definition probe_step :: "tcp_env \<Rightarrow> client_conn \<Rightarrow> tcpService \<Rightarrow> string \<Rightarrow> string \<Rightarrow> reader \<Rightarrow> tcpService \<times> handler" where
  "probe_step env conn s i status r =
     (case copy_discard r 0 of
        (n, drainErr, r') \<Rightarrow>
          let data = no_bytes\<lparr>ClientProxy := consumed (conn_reader conn) r'\<rparr>
          in (s\<lparr>tcp_m := AddTCPProbe (tcp_m s) status (drainErrToString drainErr) (env_port env) data\<rparr>,
              HFinish i status data (conn_writer conn, None, r')))"

text \<open>Reading the address touches nothing shared.\<close>

definition address_step :: "tcp_env \<Rightarrow> client_conn \<Rightarrow> CipherEntry \<Rightarrow> string \<Rightarrow> reader \<Rightarrow> handler" where
  "address_step env conn entry uid clientReader =
     (case env_ReadAddr env (NewShadowsocksReader (env_pool env) clientReader (entry_Cipher entry)) of
        (Panic m, ssr) \<Rightarrow> HPanic m
      | (Fail e, ssr) \<Rightarrow>
          (case copy_discard (conn_of (cr_reader (rc_cr (lift_ssr (conn_later conn) ssr)))) 0 of
             (n, drainErr, r') \<Rightarrow>
               HFinish (ID entry) ''ERR_READ_ADDRESS''
                 (no_bytes\<lparr>ClientProxy := consumed (lift_deadline (conn_later conn) (conn_reader conn)) r'\<rparr>)
                 (conn_writer conn, None, r'))
      | (Ok tgtAddr, ssr) \<Rightarrow> HVisit entry uid tgtAddr (lift_ssr (conn_later conn) ssr))"

definition visit_step :: "tcp_env \<Rightarrow> client_conn \<Rightarrow> tcpService \<Rightarrow> CipherEntry \<Rightarrow> string \<Rightarrow> bytes \<Rightarrow> ss_reader \<Rightarrow> tcpService \<times> handler" where
  "visit_step env conn s entry uid tgtAddr ssr =
     (let addr = env_addr_String env tgtAddr;
          s1 = s\<lparr>tcp_api := AddWwwRepo (tcp_api s)
                  \<lparr>UNID = uid, Host = addr, Uip = conn_remoteStr conn, www_Date = env_unix env, IsUdp = 0, www_Status = 1\<rparr>\<rparr>;
          (atts, err) = env_dial env addr
      in (s1,
          case dialTarget (tcp_targetIPValidator s) atts err of
            Inl ce \<Rightarrow>
              (let r' = conn_of (cr_reader (rc_cr ssr))
               in HFinish (ID entry) (Status ce)
                    (no_bytes\<lparr>ClientProxy := consumed (lift_deadline (conn_later conn) (conn_reader conn)) r'\<rparr>)
                    (conn_writer conn, None, r'))
          | Inr target \<Rightarrow> HRelay entry uid target (relay_start env entry s1 conn ssr (snd target))))"

text \<open>When both goroutines are done: the status and the counts. A handler one of whose goroutines panicked stays as it is.\<close>

definition relay_status :: "goerror option \<Rightarrow> goerror option \<Rightarrow> string" where
  "relay_status fromClientErr fromTargetErr =
     (if fromClientErr \<noteq> None then ''ERR_RELAY_CLIENT'' else if fromTargetErr \<noteq> None then ''ERR_RELAY_TARGET'' else ''OK'')"

definition relay_data :: "client_conn \<Rightarrow> target_conn \<Rightarrow> reader \<Rightarrow> writer \<Rightarrow> Writer \<Rightarrow> reader \<Rightarrow> ProxyMetrics" where
  "relay_data conn tgt r tw sw tr =
     \<lparr>ClientProxy = consumed (lift_deadline (conn_later conn) (conn_reader conn)) r,
      ProxyTarget = int (length (concat (wout tw))) - int (length (concat (wout (tgt_writer tgt)))),
      TargetProxy = consumed (tgt_reader tgt) tr,
      ProxyClient = int (length (concat (wout (sw_writer sw)))) - int (length (concat (wout (conn_writer conn))))\<rparr>"

definition join_step :: "client_conn \<Rightarrow> CipherEntry \<Rightarrow> ip \<times> target_conn \<Rightarrow> relay_run \<Rightarrow> handler option" where
  "join_step conn entry target rr =
     (case (rr_up rr, rr_down rr) of
        (UpDone i fromClientErr r tw, DownDone ri fromTargetErr sw tr) \<Rightarrow>
          Some (HFinish (ID entry) (relay_status fromClientErr fromTargetErr) (relay_data conn (snd target) r tw sw tr)
            (sw_writer sw, Some (fst target, tw), r))
      | _ \<Rightarrow> None)"

fun main_step :: "tcp_env \<Rightarrow> client_conn \<Rightarrow> tcpService \<Rightarrow> handler \<Rightarrow> (tcpService \<times> handler) option" where
  "main_step env conn s (HSearch cl0) = search_step env conn s cl0"
| "main_step env conn s (HFound ak entry) = Some (replay_step env s ak entry)"
| "main_step env conn s (HProbe i status r) = Some (probe_step env conn s i status r)"
| "main_step env conn s (HServe entry uid r) = Some (s, address_step env conn entry uid r)"
| "main_step env conn s (HVisit entry uid a ssr) = Some (visit_step env conn s entry uid a ssr)"
| "main_step env conn s (HRelay entry uid target rr) = (case join_step conn entry target rr of Some h \<Rightarrow> Some (s, h) | None \<Rightarrow> None)"
| "main_step env conn s (HFinish i status data out) = Some (finish env i status data s, HDone status out)"
| "main_step env conn s (HDone status out) = None"
| "main_step env conn s (HPanic m) = None"

text \<open>A step of the handler's own goroutine, or of one of the two that relay, on the client as it is by then.\<close>

inductive handler_step :: "tcp_env \<Rightarrow> client_conn \<Rightarrow> tcpService \<times> handler \<Rightarrow> tcpService \<times> handler \<Rightarrow> bool" for env conn where
  main: "main_step env conn s h = Some (s', h') \<Longrightarrow> handler_step env conn (s, h) (s', h')"
| relaying: "relay_step env uid (rr\<lparr>rr_api := tcp_api s\<rparr>) rr' \<Longrightarrow>
    handler_step env conn (s, HRelay entry uid target rr) (s\<lparr>tcp_api := rr_api rr'\<rparr>, HRelay entry uid target rr')"

inductive_cases handler_stepE: "handler_step env conn (s, h) (s', h')"
inductive_cases handler_step_finishE: "handler_step env conn (s, HFinish i st data out) x"
inductive_cases handler_step_doneE: "handler_step env conn (s, HDone st out) x"

section \<open>What remains to be done\<close>

text \<open>The outcome that the code of a phase has when it runs alone, with the two goroutines one after the other.\<close>

definition end_outcome :: "string \<Rightarrow> tcpService \<Rightarrow> conn_end \<Rightarrow> tcp_outcome" where
  "end_outcome status s out =
     \<lparr>out_status = status, out_service = s, out_client = fst out, out_target = fst (snd out), out_unread = snd (snd out)\<rparr>"

definition relay_outcome ::
  "tcp_env \<Rightarrow> client_conn \<Rightarrow> CipherEntry \<Rightarrow> ip \<times> target_conn \<Rightarrow> tcpService \<Rightarrow> up_thread \<Rightarrow> down_thread \<Rightarrow> tcp_outcome result option" where
  "relay_outcome env conn entry target s up down =
     (case (up, down) of
        (UpDone i ferr r tw, DownDone ri terr sw tr) \<Rightarrow>
          Some (Ok (end_outcome (relay_status ferr terr)
            (finish env (ID entry) (relay_status ferr terr) (relay_data conn (snd target) r tw sw tr) s)
            (sw_writer sw, Some (fst target, tw), r)))
      | _ \<Rightarrow> None)"

text \<open>The records that the goroutines have yet to make.\<close>

definition unrecorded :: "bool \<Rightarrow> string \<Rightarrow> relay_run \<Rightarrow> up_thread \<Rightarrow> down_thread \<Rightarrow> UserTraffic list" where
  "unrecorded upFirst uid rr up down =
     (let us = if up_ended (rr_up rr) then [] else up_rec uid up;
          ds = if down_ended (rr_down rr) then [] else down_rec uid down
      in if upFirst then us @ ds else ds @ us)"

fun rest :: "tcp_env \<Rightarrow> client_conn \<Rightarrow> tcpService \<Rightarrow> handler \<Rightarrow> tcp_outcome result option" where
  "rest env conn s (HSearch cl0) = handleConnection env (s\<lparr>tcp_ciphers := cl0\<rparr>) conn"
| "rest env conn s (HFound ak entry) =
     (if IsServerSalt (env_crypto env) (entry_SaltGenerator entry) (ak_salt ak)
      then Some (Ok (absorbProbe env (ID entry) ''ERR_REPLAY_SERVER'' s conn (conn_of (ak_reader ak))))
      else case Add (tcp_replayCache s) (ID entry) (ak_salt ak) of
        (False, rc') \<Rightarrow>
          Some (Ok (absorbProbe env (ID entry) ''ERR_REPLAY_CLIENT'' (s\<lparr>tcp_replayCache := rc'\<rparr>) conn (conn_of (ak_reader ak))))
      | (True, rc') \<Rightarrow> serve_client env entry (ak_id ak) (s\<lparr>tcp_replayCache := rc'\<rparr>) conn (ak_reader ak))"
| "rest env conn s (HProbe i status r) = Some (Ok (absorbProbe env i status s conn r))"
| "rest env conn s (HServe entry uid r) = serve_client env entry uid s conn r"
| "rest env conn s (HVisit entry uid a ssr) =
     (case visit_step env conn s entry uid a ssr of
        (s1, HRelay e u target rr) \<Rightarrow> relay env entry uid s1 conn ssr target
      | (s1, HFinish i st data out) \<Rightarrow> Some (Ok (end_outcome st (finish env i st data s1) out))
      | _ \<Rightarrow> None)"
| "rest env conn s (HRelay entry uid target rr) =
     (case up_final env (rr_up rr) of
        None \<Rightarrow> None
      | Some up \<Rightarrow>
          relay_outcome env conn entry target
            (s\<lparr>tcp_api := foldl AddRepo (tcp_api s) (unrecorded (env_client_first env) uid rr up (down_final (rr_down rr)))\<rparr>)
            up (down_final (rr_down rr)))"
| "rest env conn s (HFinish i st data out) = Some (Ok (end_outcome st (finish env i st data s) out))"
| "rest env conn s (HDone st out) = Some (Ok (end_outcome st s out))"
| "rest env conn s (HPanic m) = None"

lemma relay_outcome_Some:
  "relay_outcome env conn entry target s up down = Some y \<longleftrightarrow>
     (\<exists>i ferr r tw ri terr sw tr. up = UpDone i ferr r tw \<and> down = DownDone ri terr sw tr \<and>
        y = Ok (end_outcome (relay_status ferr terr)
            (finish env (ID entry) (relay_status ferr terr) (relay_data conn (snd target) r tw sw tr) s)
            (sw_writer sw, Some (fst target, tw), r)))"
  by (cases up; cases down) (auto simp: relay_outcome_def)

lemma relay_start_threads [simp]:
  "rr_up (relay_start env entry s conn ssr tgt) = UpCopy ssr (tgt_writer tgt) 0"
  "rr_down (relay_start env entry s conn ssr tgt) = down_start env (server_writer entry conn) (tgt_reader tgt)"
  "rr_api (relay_start env entry s conn ssr tgt) = tcp_api s"
  "rr_upFirst (relay_start env entry s conn ssr tgt) = None"
  by (simp_all add: relay_start_def)

text \<open>Where both goroutines have a proper end, \<open>relay\<close> is the sum of the two ends.\<close>

lemma relay_sum:
  assumes "up_final env (UpCopy ssr (tgt_writer tgt) 0) = Some (UpDone i ferr r tw)"
    and "down_final (down_start env (server_writer entry conn) (tgt_reader tgt)) = DownDone ri terr sw tr"
  shows "relay env entry uid s conn ssr (p, tgt) =
    relay_outcome env conn entry (p, tgt)
      (s\<lparr>tcp_api := foldl AddRepo (tcp_api s)
         (if env_client_first env then up_rec uid (UpDone i ferr r tw) @ down_rec uid (DownDone ri terr sw tr)
          else down_rec uid (DownDone ri terr sw tr) @ up_rec uid (UpDone i ferr r tw))\<rparr>)
      (UpDone i ferr r tw) (DownDone ri terr sw tr)"
proof -
  obtain ssr1 where up: "conv_WriteTo (up_chunks env) ssr (tgt_writer tgt) 0 = Some (Ok (i, ferr), ssr1, tw)"
    and r: "r = (if ferr \<noteq> None then snd (snd (copy_discard (client_side ssr1) 0)) else client_side ssr1)"
    using assms(1) by (auto split: option.splits prod.splits result.splits)
  have down: "ReadFrom (env_crypto env) (env_entropy env) False (server_writer entry conn) (tgt_reader tgt) = Ok (ri, terr, sw, tr)"
    by (simp add: ReadFrom_final assms(2))
  show ?thesis
    unfolding relay_def Let_def prod.case up_chunks_def [symmetric] server_writer_def [symmetric] up down
    by (simp add: relay_outcome_def end_outcome_def relay_data_def relay_status_def up_rec_def down_rec_def r)
qed

lemma down_start_recorded: "down_ended (down_start env ssw r) \<Longrightarrow> down_final (down_start env ssw r) \<noteq> DownDone ri terr sw tr"
  by (auto simp: down_start_def split: result.splits option.splits prod.splits)

lemma rest_relay_start:
  "rest env conn s (HRelay entry uid (p, tgt) (relay_start env entry s conn ssr tgt)) = Some (Ok out) \<longleftrightarrow>
     relay env entry uid s conn ssr (p, tgt) = Some (Ok out)"
proof
  assume l: "rest env conn s (HRelay entry uid (p, tgt) (relay_start env entry s conn ssr tgt)) = Some (Ok out)"
  then obtain i ferr r tw ri terr sw tr where
    fin: "up_final env (UpCopy ssr (tgt_writer tgt) 0) = Some (UpDone i ferr r tw)"
      "down_final (down_start env (server_writer entry conn) (tgt_reader tgt)) = DownDone ri terr sw tr"
    by (auto simp: relay_outcome_Some simp del: up_final.simps split: option.splits)
  have "\<not> down_ended (down_start env (server_writer entry conn) (tgt_reader tgt))"
    using down_start_recorded fin(2) by blast
  with l show "relay env entry uid s conn ssr (p, tgt) = Some (Ok out)"
    unfolding relay_sum [OF fin] by (simp add: fin unrecorded_def Let_def del: up_final.simps split: if_splits)
next
  assume relay: "relay env entry uid s conn ssr (p, tgt) = Some (Ok out)"
  obtain i ferr r tw ri terr sw tr where
    fin: "up_final env (UpCopy ssr (tgt_writer tgt) 0) = Some (UpDone i ferr r tw)"
      "down_final (down_start env (server_writer entry conn) (tgt_reader tgt)) = DownDone ri terr sw tr"
    using relay_final [OF relay] by metis
  have "\<not> down_ended (down_start env (server_writer entry conn) (tgt_reader tgt))"
    using down_start_recorded fin(2) by blast
  with relay show "rest env conn s (HRelay entry uid (p, tgt) (relay_start env entry s conn ssr tgt)) = Some (Ok out)"
    unfolding relay_sum [OF fin] by (simp add: fin unrecorded_def Let_def del: up_final.simps split: if_splits)
qed

section \<open>Steps keep the outcome\<close>

text \<open>What \<open>findAccessKey\<close> returns, in whatever state list and connection are.\<close>

lemma findEntry_mem:
  "findEntry cr entries d es = Ok (Some e) \<Longrightarrow> e \<in> set es \<and> opens cr d (entry_Cipher (entries e))"
  by (induction es) (auto simp: opens_def Let_def split: if_splits result.splits)

lemma findAccessKey_cases:
  assumes "findAccessKey cr r p cl = Ok (ak, cl')"
  obtains (none) "cl' = cl" "ak_elt ak = None" "ak_err ak \<noteq> None"
    | (found) e d r' where "e \<in> set (cl_list cl)" "ReadFull r 50 = (d, None, r')" "opens cr d (entry_Cipher (cl_entry cl e))"
      "cl' = MarkUsedByClientIP cl e p" "ak_elt ak = Some e" "ak_err ak = None" "ak_id ak = ID (cl_entry cl e)"
proof -
  obtain d oe r' where rf: "ReadFull r 50 = (d, oe, r')" by (cases "ReadFull r 50")
  show thesis
  proof (cases oe)
    case (Some x)
    with assms rf show ?thesis by (intro none) (auto simp: findAccessKey_def bytesForKeyFinding_def)
  next
    case None
    with assms rf obtain f where f: "findEntry cr (cl_entry cl) d (SnapshotForClientIP cl p) = Ok f"
      by (auto simp: findAccessKey_def bytesForKeyFinding_def bind_result_Ok_iff)
    show ?thesis
    proof (cases f)
      case None
      with assms rf f \<open>oe = None\<close> show ?thesis by (intro none) (auto simp: findAccessKey_def bytesForKeyFinding_def)
    next
      case (Some e)
      with findEntry_mem [of cr "cl_entry cl" d "SnapshotForClientIP cl p" e] f
      have "e \<in> set (cl_list cl)" "opens cr d (entry_Cipher (cl_entry cl e))" by (simp_all add: port_ciphers.snapshot_set)
      with assms rf f Some \<open>oe = None\<close> show ?thesis
        by (intro found [of e d r']) (auto simp: findAccessKey_def bytesForKeyFinding_def)
    qed
  qed
qed

text \<open>Which goroutine may have recorded first, and that it has then ended.\<close>

definition order_ok :: "relay_run \<Rightarrow> bool" where
  "order_ok rr \<longleftrightarrow> (rr_upFirst rr = Some True \<longrightarrow> up_ended (rr_up rr)) \<and> (rr_upFirst rr = Some False \<longrightarrow> down_ended (rr_down rr))"

fun handler_ok :: "handler \<Rightarrow> bool" where
  "handler_ok (HRelay entry uid target rr) = order_ok rr"
| "handler_ok h = True"

fun first_recorder :: "handler \<Rightarrow> bool option" where
  "first_recorder (HRelay entry uid target rr) = rr_upFirst rr"
| "first_recorder h = None"

lemma up_done_stays: "up_ended t \<Longrightarrow> up_step env t = t"
  by (cases t) simp_all

lemma relay_step_order:
  assumes "relay_step env uid rr rr'" and "order_ok rr"
  shows "order_ok rr'"
  using assms(1)
proof (rule relay_stepE)
  assume rr': "rr' = step_up env uid rr" and run: "\<not> up_ended (rr_up rr)"
  with assms(2) show ?thesis
    by (cases "rr_up rr") (auto simp: order_ok_def step_up_def first_of_def split: option.splits)
next
  assume rr': "rr' = step_down uid rr" and run: "\<not> down_ended (rr_down rr)"
  with assms(2) show ?thesis
    by (cases "rr_down rr") (auto simp: order_ok_def step_down_def first_of_def split: option.splits)
qed

lemma up_step_not_record:
  "\<not> up_ended t \<Longrightarrow> (\<And>i err r w. t \<noteq> UpRecord i err r w) \<Longrightarrow> up_ended (up_step env t) \<Longrightarrow> \<exists>m. up_step env t = UpPanic m"
  by (cases t) (auto simp: Let_def split: prod.splits result.splits option.splits if_splits)

lemma down_step_not_record:
  "\<not> down_ended t \<Longrightarrow> (\<And>i err sw r. t \<noteq> DownRecord i err sw r) \<Longrightarrow> \<not> down_ended (down_step t)"
  by (cases t) (auto simp: Let_def split: prod.splits option.splits)

text \<open>Recording and leaving a record to be made come to the same, if the record comes first in the chosen order.\<close>

lemma unrecorded_step:
  assumes step: "relay_step env uid rr rr'" and ok: "order_ok rr" and b: "rr_upFirst rr' = None \<or> rr_upFirst rr' = Some b"
    and up: "up_final env (rr_up rr) = Some (UpDone i ferr r tw)" and down: "down_final (rr_down rr) = DownDone ri terr sw tr"
  shows "foldl AddRepo (rr_api rr) (unrecorded b uid rr (UpDone i ferr r tw) (DownDone ri terr sw tr)) =
    foldl AddRepo (rr_api rr') (unrecorded b uid rr' (UpDone i ferr r tw) (DownDone ri terr sw tr))"
  using step
proof (rule relay_stepE)
  assume rr': "rr' = step_up env uid rr" and run: "\<not> up_ended (rr_up rr)"
  show ?thesis
  proof (cases "\<exists>i err r w. rr_up rr = UpRecord i err r w")
    case True
    then obtain i' err r' w where t: "rr_up rr = UpRecord i' err r' w" by blast
    with up have "i' = i" by simp
    moreover have "b \<or> down_ended (rr_down rr)"
      using b ok by (cases "rr_upFirst rr") (auto simp: rr' step_up_def t first_of_def order_ok_def)
    ultimately show ?thesis
      by (auto simp: rr' step_up_def t unrecorded_def up_rec_def down_rec_def Let_def)
  next
    case False
    have final: "up_final env (up_step env (rr_up rr)) = Some (UpDone i ferr r tw)" by (simp add: up_final_step up)
    have "\<not> up_ended (up_step env (rr_up rr))"
    proof
      assume "up_ended (up_step env (rr_up rr))"
      with up_step_not_record [OF run] False obtain m where "up_step env (rr_up rr) = UpPanic m" by blast
      with final show False by simp
    qed
    moreover have "rr' = rr\<lparr>rr_up := up_step env (rr_up rr)\<rparr>" using False by (simp add: rr' step_up_def split: up_thread.split)
    ultimately show ?thesis using run by (simp add: unrecorded_def Let_def)
  qed
next
  assume rr': "rr' = step_down uid rr" and run: "\<not> down_ended (rr_down rr)"
  show ?thesis
  proof (cases "\<exists>i err sw r. rr_down rr = DownRecord i err sw r")
    case True
    then obtain i' err sw' r' where t: "rr_down rr = DownRecord i' err sw' r'" by blast
    with down have "i' = ri" by simp
    moreover have "\<not> b \<or> up_ended (rr_up rr)"
      using b ok by (cases "rr_upFirst rr") (auto simp: rr' step_down_def t first_of_def order_ok_def)
    ultimately show ?thesis
      by (auto simp: rr' step_down_def t unrecorded_def up_rec_def down_rec_def Let_def)
  next
    case False
    then have "\<not> down_ended (down_step (rr_down rr))" using down_step_not_record [OF run] by blast
    moreover have "rr' = rr\<lparr>rr_down := down_step (rr_down rr)\<rparr>" using False by (simp add: rr' step_down_def split: down_thread.split)
    ultimately show ?thesis using run by (simp add: unrecorded_def Let_def)
  qed
qed

lemma relaying_rest:
  assumes "relay_step env uid (rr\<lparr>rr_api := tcp_api s\<rparr>) rr'" and "order_ok rr"
    and "rr_upFirst rr' = None \<or> rr_upFirst rr' = Some (env_client_first env)"
  shows "rest env conn s (HRelay entry uid target rr) = Some (Ok out) \<longleftrightarrow>
    rest env conn (s\<lparr>tcp_api := rr_api rr'\<rparr>) (HRelay entry uid target rr') = Some (Ok out)"
proof -
  let ?rr = "rr\<lparr>rr_api := tcp_api s\<rparr>"
  have fin: "up_final env (rr_up rr') = up_final env (rr_up rr)" "down_final (rr_down rr') = down_final (rr_down rr)"
    using assms(1) by (auto elim!: relay_stepE simp: up_final_step down_final_step)
  have ok: "order_ok ?rr" using assms(2) by (simp add: order_ok_def)
  have eq: "foldl AddRepo (tcp_api s) (unrecorded (env_client_first env) uid rr (UpDone i ferr r tw) (DownDone ri terr sw tr)) =
      foldl AddRepo (rr_api rr') (unrecorded (env_client_first env) uid rr' (UpDone i ferr r tw) (DownDone ri terr sw tr))"
    if "up_final env (rr_up rr) = Some (UpDone i ferr r tw)" "down_final (rr_down rr) = DownDone ri terr sw tr"
    for i ferr r tw ri terr sw tr
    using unrecorded_step [OF assms(1) ok assms(3)] that by (simp add: unrecorded_def)
  show ?thesis
    using eq by (auto simp: fin relay_outcome_Some split: option.splits)
qed

text \<open>Every step of the handler's own goroutine.\<close>

lemma search_rest:
  assumes "search_step env conn s cl0 = Some (s', h')" and "cl0 = tcp_ciphers s"
  shows "rest env conn s (HSearch cl0) = Some (Ok out) \<longleftrightarrow> rest env conn s' h' = Some (Ok out)"
proof -
  have same: "s\<lparr>tcp_ciphers := tcp_ciphers s\<rparr> = s" by simp
  from assms(1) consider (panic) m where "h' = HPanic m" "findAccessKey (env_crypto env) (conn_reader conn) (client_ip env conn) cl0 = Panic m"
    | (found) ak cl' where "findAccessKey (env_crypto env) (conn_reader conn) (client_ip env conn) cl0 = Ok (ak, cl')"
    by (auto simp: search_step_def split: result.splits)
  then show ?thesis
  proof cases
    case panic
    then show ?thesis using assms(2) by (simp add: handleConnection_def client_ip_def)
  next
    case found
    from found show ?thesis
    proof (cases rule: findAccessKey_cases)
      case none
      then obtain e where "ak_err ak = Some e" by auto
      with assms found none show ?thesis by (auto simp: search_step_def handleConnection_def client_ip_def Let_def)
    next
      case f: (found e d r')
      show ?thesis
        using assms found f by (auto simp: search_step_def handleConnection_def client_ip_def Let_def split: prod.splits)
    qed
  qed
qed

lemma main_rest:
  assumes "main_step env conn s h = Some (s', h')" and "\<And>cl0. h = HSearch cl0 \<Longrightarrow> cl0 = tcp_ciphers s"
  shows "rest env conn s h = Some (Ok out) \<longleftrightarrow> rest env conn s' h' = Some (Ok out)"
proof (cases h)
  case (HSearch cl0)
  then show ?thesis using assms search_rest [of env conn s cl0 s' h' out] by simp
next
  case (HFound ak entry)
  with assms(1) show ?thesis by (auto simp: replay_step_def split: if_splits prod.splits bool.splits)
next
  case (HProbe i st r)
  with assms(1) show ?thesis
    by (auto simp: probe_step_def absorbProbe_def end_outcome_def Let_def split: prod.splits)
next
  case (HServe entry uid r)
  obtain a ssr where ra: "env_ReadAddr env (NewShadowsocksReader (env_pool env) r (entry_Cipher entry)) = (a, ssr)" by fastforce
  show ?thesis
  proof (cases a)
    case (Ok tgtAddr)
    obtain atts err where d: "env_dial env (env_addr_String env tgtAddr) = (atts, err)" by fastforce
    with assms(1) HServe ra Ok show ?thesis
      by (auto simp: address_step_def serve_client_def visit_step_def end_outcome_def Let_def split: sum.splits)
  qed (use assms(1) HServe ra in \<open>auto simp: address_step_def serve_client_def end_outcome_def Let_def split: prod.splits\<close>)
next
  case (HVisit entry uid a ssr)
  with assms(1) have v: "visit_step env conn s entry uid a ssr = (s', h')" by simp
  show ?thesis
  proof (cases "dialTarget (tcp_targetIPValidator s) (fst (env_dial env (env_addr_String env a))) (snd (env_dial env (env_addr_String env a)))")
    case (Inl ce)
    with v HVisit show ?thesis by (auto simp: visit_step_def Let_def split: prod.splits)
  next
    case (Inr t)
    obtain p tgt where t: "t = (p, tgt)" by fastforce
    from v Inr have h': "h' = HRelay entry uid t (relay_start env entry s' conn ssr tgt)"
      by (auto simp: visit_step_def Let_def t split: prod.splits)
    show ?thesis unfolding HVisit rest.simps(5) v h' t by (simp only: prod.case handler.case rest_relay_start)
  qed
next
  case (HRelay entry uid target rr)
  with assms(1) obtain i ferr r tw ri terr sw tr where
    ended: "rr_up rr = UpDone i ferr r tw" "rr_down rr = DownDone ri terr sw tr"
    by (auto simp: join_step_def split: option.splits up_thread.splits down_thread.splits)
  with assms(1) HRelay show ?thesis
    by (auto simp: join_step_def relay_outcome_def unrecorded_def)
qed (use assms(1) in auto)

section \<open>Running alone\<close>

text \<open>What a handler that runs alone preserves: for every order of the records that is still possible, the outcome of the
  rest is that of \<open>handleConnection\<close> from the start.\<close>

definition agrees :: "tcp_env \<Rightarrow> client_conn \<Rightarrow> tcpService \<Rightarrow> bool option \<Rightarrow> tcpService \<Rightarrow> handler \<Rightarrow> bool" where
  "agrees env conn s0 o1 s h \<longleftrightarrow>
     (\<forall>b out. o1 = None \<or> o1 = Some b \<longrightarrow>
        (handleConnection (env\<lparr>env_client_first := b\<rparr>) s0 conn = Some (Ok out) \<longleftrightarrow>
         rest (env\<lparr>env_client_first := b\<rparr>) conn s h = Some (Ok out)))"

fun alone :: "tcp_env \<Rightarrow> client_conn \<Rightarrow> tcpService \<Rightarrow> tcpService \<times> handler \<Rightarrow> bool" where
  "alone env conn s0 (s, HSearch cl0) \<longleftrightarrow> cl0 = tcp_ciphers s \<and> agrees env conn s0 None s (HSearch cl0)"
| "alone env conn s0 (s, HRelay entry uid target rr) \<longleftrightarrow>
     order_ok rr \<and> agrees env conn s0 (rr_upFirst rr) s (HRelay entry uid target rr)"
| "alone env conn s0 (s, HFinish i st data out) \<longleftrightarrow> (\<exists>o1. agrees env conn s0 o1 s (HFinish i st data out))"
| "alone env conn s0 (s, HDone st out) \<longleftrightarrow> (\<exists>o1. agrees env conn s0 o1 s (HDone st out))"
| "alone env conn s0 (s, h) \<longleftrightarrow> agrees env conn s0 None s h"

lemma alone_start: "alone env conn s (s, handler_start s)"
  by (simp add: handler_start_def agrees_def)

lemma alone_agrees:
  "alone env conn s0 (s, h) \<Longrightarrow> (\<exists>o1. agrees env conn s0 o1 s h) \<and> (\<forall>cl0. h = HSearch cl0 \<longrightarrow> cl0 = tcp_ciphers s)"
  by (cases h) auto

lemma relay_start_order [simp]: "relay_start (env\<lparr>env_client_first := b\<rparr>) = relay_start env"
  by (intro ext) (simp add: relay_start_def)

lemma visit_step_order [simp]: "visit_step (env\<lparr>env_client_first := b\<rparr>) = visit_step env"
  by (intro ext) (simp add: visit_step_def Let_def split: prod.split sum.split)

lemma client_ip_order [simp]: "client_ip (env\<lparr>env_client_first := b\<rparr>) conn = client_ip env conn"
  by (simp add: client_ip_def)

lemma search_step_order [simp]: "search_step (env\<lparr>env_client_first := b\<rparr>) conn s cl0 = search_step env conn s cl0"
  by (simp add: search_step_def split: result.split prod.split option.split)

lemma main_step_order: "main_step (env\<lparr>env_client_first := b\<rparr>) conn s h = main_step env conn s h"
  by (cases h) (simp_all add: replay_step_def probe_step_def address_step_def finish_def)

lemma relay_step_order_env: "relay_step (env\<lparr>env_client_first := b\<rparr>) uid = relay_step env uid"
proof (intro ext)
  fix rr rr'
  have "up_step (env\<lparr>env_client_first := b\<rparr>) t = up_step env t" for t by (cases t) simp_all
  then have "step_up (env\<lparr>env_client_first := b\<rparr>) uid st = step_up env uid st" for st
    by (simp add: step_up_def split: up_thread.split)
  then show "relay_step (env\<lparr>env_client_first := b\<rparr>) uid rr rr' = relay_step env uid rr rr'"
    by (simp add: relay_step.simps)
qed

text \<open>What a step of the handler's own goroutine leads to: never back to a search, and to a relay only at its start.\<close>

fun relay_entered :: "handler \<Rightarrow> bool" where
  "relay_entered (HSearch cl0) = False"
| "relay_entered (HRelay entry uid target rr) = (rr_upFirst rr = None)"
| "relay_entered h = True"

lemma main_step_entered: "main_step env conn s h = Some (s', h') \<Longrightarrow> relay_entered h'"
proof (cases h)
  case (HVisit entry uid a ssr)
  then show "main_step env conn s h = Some (s', h') \<Longrightarrow> relay_entered h'"
    by (auto simp: visit_step_def Let_def split: prod.splits sum.splits)
next
  case (HSearch cl0)
  then show "main_step env conn s h = Some (s', h') \<Longrightarrow> relay_entered h'"
    by (auto simp: search_step_def split: option.splits result.splits prod.splits)
next
  case (HServe entry uid r)
  then show "main_step env conn s h = Some (s', h') \<Longrightarrow> relay_entered h'"
    by (auto simp: address_step_def split: result.splits prod.splits)
next
  case (HRelay entry uid target rr)
  then show "main_step env conn s h = Some (s', h') \<Longrightarrow> relay_entered h'"
    by (auto simp: join_step_def split: option.splits up_thread.splits down_thread.splits)
qed (auto simp: replay_step_def probe_step_def Let_def split: prod.splits if_splits)

lemma alone_entered: "agrees env conn s0 None s h \<Longrightarrow> relay_entered h \<Longrightarrow> alone env conn s0 (s, h)"
  by (cases h) (auto simp: order_ok_def)

lemma agrees_main:
  assumes "main_step env conn s h = Some (s', h')" and "agrees env conn s0 o1 s h" and "\<And>cl0. h = HSearch cl0 \<Longrightarrow> cl0 = tcp_ciphers s"
  shows "agrees env conn s0 o1 s' h'"
  using assms(2) main_rest [of "env\<lparr>env_client_first := b\<rparr>" conn s h s' h' for b] assms(1,3)
  by (simp add: agrees_def main_step_order)

lemma first_of_back: "first_of o1 c = None \<or> first_of o1 c = Some b \<Longrightarrow> o1 = None \<or> o1 = Some b"
  by (cases o1) (simp_all add: first_of_def)

lemma relay_step_first:
  assumes "relay_step env uid rr rr'" and "rr_upFirst rr' = None \<or> rr_upFirst rr' = Some b"
  shows "rr_upFirst rr = None \<or> rr_upFirst rr = Some b"
  using assms(1)
proof (rule relay_stepE)
  assume "rr' = step_up env uid rr"
  with assms(2) first_of_back [of "rr_upFirst rr" True b] show ?thesis
    by (cases "rr_up rr") (simp_all add: step_up_def)
next
  assume "rr' = step_down uid rr"
  with assms(2) first_of_back [of "rr_upFirst rr" False b] show ?thesis
    by (cases "rr_down rr") (simp_all add: step_down_def)
qed

lemma agrees_relaying:
  assumes step: "relay_step env uid (rr\<lparr>rr_api := tcp_api s\<rparr>) rr'" and ok: "order_ok rr"
    and eq: "agrees env conn s0 (rr_upFirst rr) s (HRelay entry uid target rr)"
  shows "agrees env conn s0 (rr_upFirst rr') (s\<lparr>tcp_api := rr_api rr'\<rparr>) (HRelay entry uid target rr')"
  unfolding agrees_def
proof (intro allI impI)
  fix b out
  assume b: "rr_upFirst rr' = None \<or> rr_upFirst rr' = Some b"
  then have "rr_upFirst rr = None \<or> rr_upFirst rr = Some b" using relay_step_first [OF step] by simp
  with eq have "handleConnection (env\<lparr>env_client_first := b\<rparr>) s0 conn = Some (Ok out) \<longleftrightarrow>
      rest (env\<lparr>env_client_first := b\<rparr>) conn s (HRelay entry uid target rr) = Some (Ok out)"
    unfolding agrees_def by blast
  also have "\<dots> \<longleftrightarrow> rest (env\<lparr>env_client_first := b\<rparr>) conn (s\<lparr>tcp_api := rr_api rr'\<rparr>) (HRelay entry uid target rr') = Some (Ok out)"
    by (rule relaying_rest) (use step ok b in \<open>simp_all add: relay_step_order_env\<close>)
  finally show "handleConnection (env\<lparr>env_client_first := b\<rparr>) s0 conn = Some (Ok out) \<longleftrightarrow>
      rest (env\<lparr>env_client_first := b\<rparr>) conn (s\<lparr>tcp_api := rr_api rr'\<rparr>) (HRelay entry uid target rr') = Some (Ok out)" .
qed

lemma alone_step:
  assumes "handler_step env conn (s, h) (s', h')" and "alone env conn s0 (s, h)"
  shows "alone env conn s0 (s', h')"
  using assms(1)
proof (rule handler_stepE)
  assume step: "main_step env conn s h = Some (s', h')"
  have fresh: "alone env conn s0 (s', h')" if "agrees env conn s0 None s h" "\<And>cl0. h = HSearch cl0 \<Longrightarrow> cl0 = tcp_ciphers s"
    by (rule alone_entered [OF agrees_main [OF step that] main_step_entered [OF step]])
  show ?thesis
  proof (cases h)
    case (HRelay entry uid target rr)
    with assms(2) have "agrees env conn s0 (rr_upFirst rr) s h" by simp
    from agrees_main [OF step this] HRelay have "agrees env conn s0 (rr_upFirst rr) s' h'" by simp
    moreover from step HRelay have "\<exists>i st data out. h' = HFinish i st data out"
      by (auto simp: join_step_def split: option.splits up_thread.splits down_thread.splits)
    ultimately show ?thesis by auto
  next
    case (HFinish i st data out)
    with assms(2) obtain o1 where "agrees env conn s0 o1 s h" by auto
    from agrees_main [OF step this] HFinish have "agrees env conn s0 o1 s' h'" by simp
    with step HFinish show ?thesis by auto
  next
    case (HDone st out)
    with step show ?thesis by simp
  next
    case (HPanic m)
    with step show ?thesis by simp
  qed (rule fresh, use assms(2) in simp_all)+
next
  fix uid rr rr' entry target
  assume "h = HRelay entry uid target rr" "s' = s\<lparr>tcp_api := rr_api rr'\<rparr>" "h' = HRelay entry uid target rr'"
    "relay_step env uid (rr\<lparr>rr_api := tcp_api s\<rparr>) rr'"
  moreover from this assms(2) have "order_ok (rr\<lparr>rr_api := tcp_api s\<rparr>)" by (simp add: order_ok_def)
  ultimately show ?thesis
    using assms(2) agrees_relaying [of env uid s rr rr' conn s0 entry target] relay_step_order by simp
qed

section \<open>Running among others\<close>

text \<open>A step of a handler while the other goroutines may have done anything to what is shared, except that the target IP
  validator is the one the service was started with.\<close>

definition free_step :: "tcp_env \<Rightarrow> client_conn \<Rightarrow> TargetIPValidator \<Rightarrow> handler \<Rightarrow> handler \<Rightarrow> bool" where
  "free_step env conn v h h' \<longleftrightarrow> (\<exists>t t'. tcp_targetIPValidator t = v \<and> handler_step env conn (t, h) (t', h'))"

definition ends_within :: "tcp_env \<Rightarrow> client_conn \<Rightarrow> TargetIPValidator \<Rightarrow> nat \<Rightarrow> handler \<Rightarrow> bool" where
  "ends_within env conn v N h \<longleftrightarrow> (\<forall>n h'. (free_step env conn v ^^ n) h h' \<longrightarrow> n \<le> N)"

lemma ends_within_step:
  assumes "\<And>h'. free_step env conn v h h' \<Longrightarrow> ends_within env conn v N h'"
  shows "ends_within env conn v (Suc N) h"
  unfolding ends_within_def
proof (intro allI impI)
  fix n h'
  assume run: "(free_step env conn v ^^ n) h h'"
  show "n \<le> Suc N"
  proof (cases n)
    case (Suc m)
    with run obtain h1 where "free_step env conn v h h1" "(free_step env conn v ^^ m) h1 h'" by (metis relpowp_Suc_E2)
    with assms Suc show ?thesis unfolding ends_within_def by blast
  qed simp
qed

lemma ends_within_mono: "ends_within env conn v N h \<Longrightarrow> N \<le> M \<Longrightarrow> ends_within env conn v M h"
  unfolding ends_within_def by (meson le_trans)

text \<open>What is needed of each phase to go on to the end.\<close>

fun good :: "tcp_env \<Rightarrow> client_conn \<Rightarrow> handler \<Rightarrow> bool" where
  "good env conn (HSearch cl0) \<longleftrightarrow> keys_ok (env_crypto env) cl0 \<and> eof_chained (conn_reader conn)"
| "good env conn (HFound ak entry) \<longleftrightarrow> cipher_ok (env_crypto env) (entry_Cipher entry) \<and> eof_chained (ak_reader ak)"
| "good env conn (HServe entry uid r) \<longleftrightarrow> cipher_ok (env_crypto env) (entry_Cipher entry) \<and> eof_chained r"
| "good env conn (HVisit entry uid a ssr) \<longleftrightarrow>
     cipher_ok (env_crypto env) (entry_Cipher entry) \<and> chunk_inv (env_crypto env) (rc_cr ssr)"
| "good env conn (HRelay entry uid target rr) \<longleftrightarrow>
     (\<exists>i ferr r w. up_final env (rr_up rr) = Some (UpDone i ferr r w)) \<and> (\<exists>ri terr sw tr. down_final (rr_down rr) = DownDone ri terr sw tr)"
| "good env conn (HPanic m) \<longleftrightarrow> False"
| "good env conn h \<longleftrightarrow> True"

definition env_ok :: "tcp_env \<Rightarrow> bool" where
  "env_ok env \<longleftrightarrow> crypto_ok (env_crypto env) \<and>
     (\<exists>specs. supportedAEADs (env_crypto env) = Ok specs \<and> env_pool env = readBufPool specs) \<and> reads_address env"

lemma good_search:
  assumes "good env conn (HSearch cl0)"
  obtains s' h' where "search_step env conn s cl0 = Some (s', h')" "good env conn h'"
    "(\<exists>i st r. h' = HProbe i st r) \<or> (\<exists>ak entry. h' = HFound ak entry)"
proof -
  let ?cr = "env_crypto env" and ?p = "client_ip env conn"
  have keys: "keys_ok ?cr cl0" and conn: "eof_chained (conn_reader conn)" using assms by simp_all
  show thesis
  proof (cases "length (contents (conn_reader conn)) < 50")
    case True
    from findAccessKey_short [OF conn True, of ?cr ?p cl0] that show thesis by (auto simp: search_step_def)
  next
    case False
    then have long: "50 \<le> length (contents (conn_reader conn))" by simp
    obtain r' where r': "eof_chained r'" and found: "findAccessKey ?cr (conn_reader conn) ?p cl0 =
        (case List.find (\<lambda>e. opens ?cr (take 50 (contents (conn_reader conn))) (entry_Cipher (cl_entry cl0 e)))
            (SnapshotForClientIP cl0 ?p) of
           None \<Rightarrow> Ok (\<lparr>ak_elt = None, ak_reader = r', ak_salt = [],
                      ak_err = Some (ErrorNew ''Could not find valid TCP cipher''), ak_id = ''''\<rparr>, cl0)
         | Some e \<Rightarrow> Ok (\<lparr>ak_elt = Some e, ak_reader = MultiReader (BytesReader (take 50 (contents (conn_reader conn)))) r',
               ak_salt = take (SaltSize (entry_Cipher (cl_entry cl0 e))) (take 50 (contents (conn_reader conn))),
               ak_err = None, ak_id = ID (cl_entry cl0 e)\<rparr>, MarkUsedByClientIP cl0 e ?p))"
      by (rule findAccessKey_search [OF conn long keys, of ?p]) blast
    show thesis
    proof (cases "List.find (\<lambda>e. opens ?cr (take 50 (contents (conn_reader conn))) (entry_Cipher (cl_entry cl0 e))) (SnapshotForClientIP cl0 ?p)")
      case None
      with found that show thesis by (auto simp: search_step_def)
    next
      case (Some e)
      then have "e \<in> set (SnapshotForClientIP cl0 ?p)" by (auto simp: find_Some_iff)
      then have "e \<in> set (cl_list cl0)" by (simp add: port_ciphers.snapshot_set)
      then have "cipher_ok ?cr (entry_Cipher (cl_entry cl0 e))" using keys by (simp add: keys_ok_def)
      with Some found r' that show thesis by (auto simp: search_step_def)
    qed
  qed
qed

lemma good_address:
  assumes "env_ok env" and "good env conn (HServe entry uid r)"
  shows "good env conn (address_step env conn entry uid r)"
proof -
  obtain specs where base: "crypto_ok (env_crypto env)" "supportedAEADs (env_crypto env) = Ok specs" "env_pool env = readBufPool specs"
    and addr: "reads_address env" using assms(1) by (auto simp: env_ok_def)
  have ok: "cipher_ok (env_crypto env) (entry_Cipher entry)" and rd: "eof_chained r" using assms(2) by simp_all
  obtain x ssr where ra: "env_ReadAddr env (NewShadowsocksReader (env_pool env) r (entry_Cipher entry)) = (x, ssr)" by fastforce
  note inv = address_inv [OF base addr ok rd ra]
  show ?thesis
    by (cases x) (use ra ok inv(1) inv(2) [of _ conn] in \<open>auto simp: address_step_def split: prod.split\<close>)
qed

lemma good_visit:
  assumes "good env conn (HVisit entry uid a ssr)" and "visit_step env conn s entry uid a ssr = (s', h')"
  shows "good env conn h'"
proof -
  from assms(2) consider (failed) i st data e where "h' = HFinish i st data e"
    | (relay) p tgt where "h' = HRelay entry uid (p, tgt) (relay_start env entry s' conn ssr tgt)"
    by (auto simp: visit_step_def Let_def split: prod.splits sum.splits)
  then show ?thesis
  proof cases
    case relay
    from assms(1) have "\<exists>out. relay env entry uid s' conn ssr (p, tgt) = Some (Ok out)" by (intro relay_total) simp_all
    then obtain out where "relay env entry uid s' conn ssr (p, tgt) = Some (Ok out)" by blast
    from relay_final [OF this] show ?thesis unfolding relay good.simps relay_start_threads by metis
  qed simp
qed

lemma good_step:
  assumes "env_ok env" and "good env conn h" and "handler_step env conn (s, h) (s', h')"
  shows "good env conn h'"
  using assms(3)
proof (rule handler_stepE)
  assume step: "main_step env conn s h = Some (s', h')"
  show ?thesis
  proof (cases h)
    case (HSearch cl0)
    with step assms(2) good_search [of env conn cl0 s] show ?thesis by (metis main_step.simps(1) option.inject prod.inject)
  next
    case (HFound ak entry)
    with step assms(2) show ?thesis by (auto simp: replay_step_def split: if_splits prod.splits)
  next
    case (HProbe i st r)
    with step show ?thesis by (auto simp: probe_step_def Let_def split: prod.splits)
  next
    case (HServe entry uid r)
    with step assms(2) good_address [OF assms(1)] show ?thesis by auto
  next
    case (HVisit entry uid a ssr)
    with step assms(2) good_visit show ?thesis by (metis main_step.simps(5) option.inject)
  next
    case (HRelay entry uid target rr)
    with step show ?thesis by (auto simp: join_step_def split: option.splits up_thread.splits down_thread.splits)
  qed (use step assms(2) in auto)
next
  fix uid rr rr' entry target
  assume h: "h = HRelay entry uid target rr" "h' = HRelay entry uid target rr'"
    and step: "relay_step env uid (rr\<lparr>rr_api := tcp_api s\<rparr>) rr'"
  from step have "up_final env (rr_up rr') = up_final env (rr_up rr)" "down_final (rr_down rr') = down_final (rr_down rr)"
    by (auto elim!: relay_stepE simp: up_final_step down_final_step)
  with assms(2) h show ?thesis by simp
qed

text \<open>A phase that has what it needs goes on, whatever the state of what is shared, until the connection is done.\<close>

lemma good_enabled:
  assumes "good env conn h" and "\<And>st out. h \<noteq> HDone st out"
  shows "\<exists>y. handler_step env conn (s, h) y"
proof (cases h)
  case (HSearch cl0)
  with assms(1) good_search [of env conn cl0 s] handler_step.main [of env conn s h] show ?thesis by (metis main_step.simps(1))
next
  case (HRelay entry uid target rr)
  let ?rr = "rr\<lparr>rr_api := tcp_api s\<rparr>"
  show ?thesis
  proof (cases "up_ended (rr_up ?rr) \<and> down_ended (rr_down ?rr)")
    case True
    with assms(1) HRelay up_final_ended down_final_ended obtain i ferr r w ri terr sw tr where
      "rr_up rr = UpDone i ferr r w" "rr_down rr = DownDone ri terr sw tr" by auto
    then have "\<exists>y. main_step env conn s h = Some y" by (simp add: HRelay join_step_def)
    then show ?thesis by (auto intro: handler_step.main)
  next
    case False
    then have "\<exists>rr'. relay_step env uid ?rr rr'" using relay_step.up relay_step.down by blast
    then show ?thesis unfolding HRelay using handler_step.relaying by blast
  qed
next
  case (HDone st out)
  with assms(2) show ?thesis by blast
next
  case (HPanic m)
  with assms(1) show ?thesis by simp
qed (use handler_step.main [of env conn s h] in \<open>metis main_step.simps prod.collapse\<close>)+

text \<open>How long each phase takes at most.\<close>

lemma free_stepE:
  assumes "free_step env conn v h h'"
  obtains (main) t t' where "tcp_targetIPValidator t = v" "main_step env conn t h = Some (t', h')"
    | (relaying) entry uid target rr rr' and t :: tcpService where "h = HRelay entry uid target rr" "h' = HRelay entry uid target rr'"
        "relay_step env uid (rr\<lparr>rr_api := tcp_api t\<rparr>) rr'"
proof -
  from assms obtain t t' where t: "tcp_targetIPValidator t = v" and step: "handler_step env conn (t, h) (t', h')"
    unfolding free_step_def by blast
  from step show thesis
  proof (rule handler_stepE)
    assume "main_step env conn t h = Some (t', h')"
    with t show thesis by (rule main)
  next
    fix uid rr rr' entry target
    assume "h = HRelay entry uid target rr" "h' = HRelay entry uid target rr'" "relay_step env uid (rr\<lparr>rr_api := tcp_api t\<rparr>) rr'"
    then show thesis by (rule relaying)
  qed
qed

lemma free_step_done [simp]: "\<not> free_step env conn v (HDone st out) h'" "\<not> free_step env conn v (HPanic m) h'"
  by (auto elim: free_stepE)

lemma free_step_finish: "free_step env conn v (HFinish i st data out) h' \<Longrightarrow> h' = HDone st out"
  by (erule free_stepE) auto

lemma ends_stuck: "(\<And>h'. \<not> free_step env conn v h h') \<Longrightarrow> ends_within env conn v N h"
  unfolding ends_within_def by (metis le0 not0_implies_Suc relpowp_Suc_E2)

lemma ends_done: "ends_within env conn v 0 (HDone st out)" "ends_within env conn v 0 (HPanic m)"
  by (rule ends_stuck, simp)+

lemma ends_finish: "ends_within env conn v 1 (HFinish i st data out)"
  unfolding One_nat_def by (rule ends_within_step) (auto dest: free_step_finish intro: ends_done)

lemma ends_relay:
  "up_ended ((up_step env ^^ U) (rr_up rr)) \<Longrightarrow> down_ended ((down_step ^^ D) (rr_down rr)) \<Longrightarrow>
     ends_within env conn v (Suc (Suc (U + D))) (HRelay entry uid target rr)"
proof (induction "U + D" arbitrary: U D rr)
  case 0
  show ?case
  proof (rule ends_within_step)
    fix h'
    assume "free_step env conn v (HRelay entry uid target rr) h'"
    then show "ends_within env conn v (Suc (U + D)) h'"
      by (cases rule: free_stepE)
        (use 0 in \<open>auto simp: join_step_def intro: ends_within_mono [OF ends_finish] elim!: relay_stepE
          split: option.splits up_thread.splits down_thread.splits\<close>)
  qed
next
  case (Suc N)
  show ?case
  proof (rule ends_within_step)
    fix h'
    assume "free_step env conn v (HRelay entry uid target rr) h'"
    then show "ends_within env conn v (Suc (U + D)) h'"
    proof (cases rule: free_stepE)
      case (main t t')
      then show ?thesis
        by (auto simp: join_step_def intro: ends_within_mono [OF ends_finish]
          split: option.splits up_thread.splits down_thread.splits)
    next
      case (relaying entry' uid' target' rr0 rr' t)
      then have h': "h' = HRelay entry uid target rr'" and rs: "relay_step env uid (rr\<lparr>rr_api := tcp_api t\<rparr>) rr'" by auto
      from rs show ?thesis
      proof (rule relay_stepE)
        assume rr': "rr' = step_up env uid (rr\<lparr>rr_api := tcp_api t\<rparr>)" and "\<not> up_ended (rr_up (rr\<lparr>rr_api := tcp_api t\<rparr>))"
        with Suc.prems(1) obtain V where V: "U = Suc V" by (cases U) auto
        with Suc.prems have "up_ended ((up_step env ^^ V) (rr_up rr'))" "down_ended ((down_step ^^ D) (rr_down rr'))"
          by (simp_all add: rr' funpow_swap1)
        from Suc.hyps(1) [OF _ this] Suc.hyps(2) V show ?thesis by (simp add: h')
      next
        assume rr': "rr' = step_down uid (rr\<lparr>rr_api := tcp_api t\<rparr>)" and "\<not> down_ended (rr_down (rr\<lparr>rr_api := tcp_api t\<rparr>))"
        with Suc.prems(2) obtain V where V: "D = Suc V" by (cases D) auto
        with Suc.prems have "up_ended ((up_step env ^^ U) (rr_up rr'))" "down_ended ((down_step ^^ V) (rr_down rr'))"
          by (simp_all add: rr' funpow_swap1)
        from Suc.hyps(1) [OF _ this] Suc.hyps(2) V show ?thesis by (simp add: h')
      qed
    qed
  qed
qed

lemma ends_probe: "ends_within env conn v 2 (HProbe i st r)"
  unfolding numeral_2_eq_2
  by (rule ends_within_step) (auto simp: probe_step_def Let_def elim!: free_stepE intro: ends_finish [unfolded One_nat_def] split: prod.splits)

lemma ends_visit:
  assumes "good env conn (HVisit entry uid a ssr)"
  shows "\<exists>N. ends_within env conn v N (HVisit entry uid a ssr)"
proof -
  let ?d = "dialTarget v (fst (env_dial env (env_addr_String env a))) (snd (env_dial env (env_addr_String env a)))"
  have next_h: "h' = (case ?d of
        Inl ce \<Rightarrow> HFinish (ID entry) (Status ce)
          (no_bytes\<lparr>ClientProxy := consumed (lift_deadline (conn_later conn) (conn_reader conn)) (client_side ssr)\<rparr>)
          (conn_writer conn, None, client_side ssr)
      | Inr target \<Rightarrow> HRelay entry uid target (relay_start env entry t' conn ssr (snd target)))"
    if "tcp_targetIPValidator t = v" "main_step env conn t (HVisit entry uid a ssr) = Some (t', h')" for t t' h'
    using that by (auto simp: visit_step_def Let_def split: prod.splits sum.split)
  show ?thesis
  proof (cases ?d)
    case (Inl ce)
    have "ends_within env conn v (Suc 1) (HVisit entry uid a ssr)"
    proof (rule ends_within_step)
      fix h'
      assume "free_step env conn v (HVisit entry uid a ssr) h'"
      then show "ends_within env conn v 1 h'"
      proof (cases rule: free_stepE)
        case (main t t')
        from next_h [OF this] show ?thesis by (simp only: Inl sum.case ends_finish)
      qed auto
    qed
    then show ?thesis by blast
  next
    case (Inr target)
    obtain p tgt where target: "target = (p, tgt)" by fastforce
    from assms have "\<exists>out. relay env entry uid s conn ssr target = Some (Ok out)" for s by (intro relay_total) simp_all
    then obtain y where "conv_WriteTo (up_chunks env) ssr (tgt_writer tgt) 0 = Some y"
      by (fastforce simp: relay_def Let_def target up_chunks_def split: option.splits)
    then obtain U where U: "up_ended ((up_step env ^^ U) (UpCopy ssr (tgt_writer tgt) 0))"
      using up_ends_copy unfolding up_ends_def by blast
    obtain D where D: "down_ended ((down_step ^^ D) (down_start env (server_writer entry conn) (tgt_reader tgt)))"
      using down_ends_start unfolding down_ends_def by blast
    have "ends_within env conn v (Suc (Suc (Suc (U + D)))) (HVisit entry uid a ssr)"
    proof (rule ends_within_step)
      fix h'
      assume "free_step env conn v (HVisit entry uid a ssr) h'"
      then show "ends_within env conn v (Suc (Suc (U + D))) h'"
      proof (cases rule: free_stepE)
        case (main t t')
        from next_h [OF this] have h': "h' = HRelay entry uid target (relay_start env entry t' conn ssr tgt)"
          by (simp add: Inr target)
        show ?thesis unfolding h' by (rule ends_relay) (simp_all add: U D)
      qed auto
    qed
    then show ?thesis by blast
  qed
qed

lemma ends_serve:
  assumes "env_ok env" and "good env conn (HServe entry uid r)"
  shows "\<exists>N. ends_within env conn v N (HServe entry uid r)"
proof -
  have g: "good env conn (address_step env conn entry uid r)" using good_address [OF assms] .
  have "\<exists>N. ends_within env conn v N (address_step env conn entry uid r)"
  proof (cases "address_step env conn entry uid r")
    case (HVisit e u a ssr)
    with g ends_visit show ?thesis by metis
  qed (auto simp: address_step_def intro: ends_finish ends_done split: prod.splits result.splits)
  then obtain N where "ends_within env conn v N (address_step env conn entry uid r)" by blast
  then have "ends_within env conn v (Suc N) (HServe entry uid r)"
    by (intro ends_within_step) (auto elim!: free_stepE)
  then show ?thesis by blast
qed

lemma ends_found:
  assumes "env_ok env" and "good env conn (HFound ak entry)"
  shows "\<exists>N. ends_within env conn v N (HFound ak entry)"
proof -
  obtain N where N: "ends_within env conn v N (HServe entry (ak_id ak) (ak_reader ak))"
    using ends_serve [OF assms(1), of conn entry "ak_id ak" "ak_reader ak" v] assms(2) by auto
  have "ends_within env conn v (Suc (N + 2)) (HFound ak entry)"
  proof (rule ends_within_step)
    fix h'
    assume "free_step env conn v (HFound ak entry) h'"
    then have "(\<exists>i st r. h' = HProbe i st r) \<or> h' = HServe entry (ak_id ak) (ak_reader ak)"
      by (auto elim!: free_stepE simp: replay_step_def split: prod.splits if_splits)
    then show "ends_within env conn v (N + 2) h'"
      using ends_within_mono [OF N] ends_within_mono [OF ends_probe] by auto
  qed
  then show ?thesis by blast
qed

lemma ends_search:
  assumes "env_ok env" and "good env conn (HSearch cl0)"
  shows "\<exists>N. ends_within env conn v N (HSearch cl0)"
proof -
  obtain h0 where h0: "\<And>s. \<exists>s'. search_step env conn s cl0 = Some (s', h0)"
  proof -
    from good_search [OF assms(2), of undefined] obtain s' h' where "search_step env conn undefined cl0 = Some (s', h')" by metis
    then have "\<exists>s'. search_step env conn s cl0 = Some (s', h')" for s
      by (auto simp: search_step_def split: result.splits prod.splits option.splits)
    then show thesis by (rule that)
  qed
  from good_search [OF assms(2), of undefined] h0 [of undefined]
  have "good env conn h0 \<and> ((\<exists>i st r. h0 = HProbe i st r) \<or> (\<exists>ak entry. h0 = HFound ak entry))" by fastforce
  then obtain N where N: "ends_within env conn v N h0" using ends_found [OF assms(1)] ends_probe by metis
  have "ends_within env conn v (Suc N) (HSearch cl0)"
  proof (rule ends_within_step)
    fix h'
    assume "free_step env conn v (HSearch cl0) h'"
    then show "ends_within env conn v N h'"
    proof (cases rule: free_stepE)
      case (main t t')
      with h0 [of t] N show ?thesis by auto
    qed auto
  qed
  then show ?thesis by blast
qed

lemma good_run:
  assumes "env_ok env" and "(free_step env conn v ^^ n) h h'" and "good env conn h"
  shows "good env conn h'"
  using assms(2)
proof (induction n arbitrary: h')
  case (Suc n)
  then obtain h1 where "(free_step env conn v ^^ n) h h1" "free_step env conn v h1 h'" by auto
  with Suc.IH good_step [OF assms(1)] show ?case unfolding free_step_def by blast
qed (use assms(3) in simp)

lemma free_enabled:
  assumes "good env conn h" and "\<And>h'. \<not> free_step env conn v h h'"
  shows "\<exists>st out. h = HDone st out"
proof (rule ccontr)
  assume "\<not> ?thesis"
  with good_enabled [OF assms(1)] have "\<exists>y. handler_step env conn (t, h) y" for t :: tcpService by blast
  then obtain y where "handler_step env conn (undefined\<lparr>tcp_targetIPValidator := v\<rparr>, h) y" by blast
  then have "free_step env conn v h (snd y)" unfolding free_step_def by (metis prod.collapse tcpService.select_convs(4) tcpService.surjective tcpService.update_convs(4))
  with assms(2) show False by blast
qed

lemma handler_step_validator:
  assumes "handler_step env conn (s, h) (s', h')"
  shows "tcp_targetIPValidator s' = tcp_targetIPValidator s"
  using assms
proof (rule handler_stepE)
  assume "main_step env conn s h = Some (s', h')"
  then show ?thesis
    by (cases h) (auto simp: search_step_def replay_step_def probe_step_def visit_step_def finish_def Let_def
        split: result.splits prod.splits option.splits if_splits)
qed simp

text \<open>A run of a handler alone is one among others.\<close>

lemma alone_run:
  assumes "(handler_step env conn ^^ n) (s, handler_start s) (s', h)"
  shows "alone env conn s (s', h) \<and> tcp_targetIPValidator s' = tcp_targetIPValidator s \<and>
    (free_step env conn (tcp_targetIPValidator s) ^^ n) (handler_start s) h"
  using assms
proof (induction n arbitrary: s' h)
  case (Suc n)
  then obtain s1 h1 where run: "(handler_step env conn ^^ n) (s, handler_start s) (s1, h1)"
    and step: "handler_step env conn (s1, h1) (s', h)" by auto
  note IH = Suc.IH [OF run]
  have "free_step env conn (tcp_targetIPValidator s) h1 h" unfolding free_step_def using IH step by metis
  with IH alone_step [OF step] handler_step_validator [OF step] show ?case by auto
qed (simp add: alone_start)

section \<open>Properties\<close>

text \<open>C15: A connection comes to its end, whatever the other connections do. The key list, the replay cache, the traffic records
  and the metrics may be changed in any way between any two steps of the handler and its two relay goroutines: these take a
  bounded number of steps, none panics, and where none is left the connection is done, with a status. (The client's
  and the target's streams end at some point, with a close, a timeout or an error; the keys are usable, reading an address never
  panics.)\<close>

theorem handler_among_others:
  assumes "env_ok env" and "keys_ok (env_crypto env) cl" and "eof_chained (conn_reader conn)"
  shows "\<exists>N. \<forall>n h. (free_step env conn v ^^ n) (HSearch cl) h \<longrightarrow>
    n \<le> N \<and> (\<forall>m. h \<noteq> HPanic m) \<and> ((\<forall>h'. \<not> free_step env conn v h h') \<longrightarrow> (\<exists>st out. h = HDone st out))"
proof -
  have start: "good env conn (HSearch cl)" using assms(2,3) by simp
  from ends_search [OF assms(1) start] obtain N where N: "ends_within env conn v N (HSearch cl)" by blast
  have "n \<le> N \<and> (\<forall>m. h \<noteq> HPanic m) \<and> ((\<forall>h'. \<not> free_step env conn v h h') \<longrightarrow> (\<exists>st out. h = HDone st out))"
    if run: "(free_step env conn v ^^ n) (HSearch cl) h" for n h
  proof -
    from good_run [OF assms(1) run start] have good: "good env conn h" .
    then have "\<forall>m. h \<noteq> HPanic m" by auto
    with N run free_enabled [OF good] show ?thesis unfolding ends_within_def by blast
  qed
  then show ?thesis by blast
qed

lemma toy_env_ok: "env_ok toy_env"
  using toy_crypto_ok toy_specs toy_reads_address by (auto simp: env_ok_def toy_env_def)

theorem handler_among_others_witness:
  "\<exists>N. \<forall>n h. (free_step toy_env (toy_conn [[1, 2], make_bytes 60] (NetError True)) RequirePublicIP ^^ n) (HSearch toy_list) h \<longrightarrow> n \<le> N"
proof -
  have "keys_ok (env_crypto toy_env) toy_list" "eof_chained (conn_reader (toy_conn [[1, 2], make_bytes 60] (NetError True)))"
    using toy_keys_ok by (simp_all add: toy_env_def toy_conn_def)
  from handler_among_others [OF toy_env_ok this, of RequirePublicIP] show ?thesis by blast
qed

text \<open>C10: Handling a connection in steps comes to the same as handling it at once. When no other connection interferes, then
  however the three goroutines of the connection are scheduled, they take a bounded number of steps, and when
  no step is left the connection is done with the status, the keys, the replay cache, the traffic records, the metrics and the
  bytes at the client and at the target that \<open>handleConnection\<close> computes, with the two traffic records in one of the two orders.\<close>

theorem handler_schedules:
  assumes "env_ok env" and "keys_ok (env_crypto env) (tcp_ciphers s)" and "eof_chained (conn_reader conn)"
  shows "\<exists>N. \<forall>n s' h. (handler_step env conn ^^ n) (s, handler_start s) (s', h) \<longrightarrow>
    n \<le> N \<and>
    ((\<forall>y. \<not> handler_step env conn (s', h) y) \<longrightarrow>
       (\<exists>b st out. h = HDone st out \<and>
          handleConnection (env\<lparr>env_client_first := b\<rparr>) s conn = Some (Ok (end_outcome st s' out))))"
proof -
  have start: "good env conn (handler_start s)" using assms(2,3) by (simp add: handler_start_def)
  from ends_search [OF assms(1) start [unfolded handler_start_def]] obtain N where
    N: "ends_within env conn (tcp_targetIPValidator s) N (handler_start s)" by (auto simp: handler_start_def)
  have "n \<le> N \<and> ((\<forall>y. \<not> handler_step env conn (s', h) y) \<longrightarrow> (\<exists>b st out. h = HDone st out \<and>
      handleConnection (env\<lparr>env_client_first := b\<rparr>) s conn = Some (Ok (end_outcome st s' out))))"
    if run: "(handler_step env conn ^^ n) (s, handler_start s) (s', h)" for n s' h
  proof (intro conjI impI)
    note r = alone_run [OF run]
    show "n \<le> N" using N r unfolding ends_within_def by blast
    assume stuck: "\<forall>y. \<not> handler_step env conn (s', h) y"
    have "good env conn h" using good_run [OF assms(1) _ start] r by blast
    with good_enabled [of env conn h s'] stuck obtain st out where h: "h = HDone st out" by blast
    from r h obtain o1 where "agrees env conn s o1 s' (HDone st out)" by auto
    moreover obtain b where "o1 = None \<or> o1 = Some b" by (cases o1) auto
    ultimately have "handleConnection (env\<lparr>env_client_first := b\<rparr>) s conn = Some (Ok (end_outcome st s' out))"
      unfolding agrees_def by (metis rest.simps(8))
    with h show "\<exists>b st out. h = HDone st out \<and>
        handleConnection (env\<lparr>env_client_first := b\<rparr>) s conn = Some (Ok (end_outcome st s' out))" by blast
  qed
  then show ?thesis by blast
qed

theorem handler_schedules_witness:
  "\<exists>N. \<forall>n s' h. (handler_step toy_env (toy_conn [[1, 2], make_bytes 60] (NetError True)) ^^ n)
     (toy_service, handler_start toy_service) (s', h) \<longrightarrow> n \<le> N"
proof -
  have "keys_ok (env_crypto toy_env) (tcp_ciphers toy_service)" "eof_chained (conn_reader (toy_conn [[1, 2], make_bytes 60] (NetError True)))"
    using toy_keys_ok by (simp_all add: toy_env_def toy_service_def toy_conn_def)
  from handler_schedules [OF toy_env_ok this] show ?thesis by blast
qed

end
