(* ===== verification/Server_Accounts.thy ===== *)
theory Server_Accounts
  imports End_to_End Service_TCP_Handler
begin

text \<open>
  What connections and packets record in the two books of the server: the traffic records of \<^verbatim>\<open>api.APIClient\<close>, from which
  users are billed, and the counters of \<^verbatim>\<open>shadowsocksMetrics\<close>. The lemmas say, for every operation of the services,
  that what is added to one is added to the other; theory \<^verbatim>\<open>Server_Net_Safe\<close> composes them.
\<close>

section \<open>What a connection records\<close>

text \<open>The amounts of the metrics that are billed to a user.\<close>

definition billable_U :: "shadowsocksMetrics \<Rightarrow> string \<Rightarrow> int" where
  "billable_U m i = dataBytes m [''p>t'', ''tcp'', i] + dataBytes m [''c>p'', ''udp'', i]"

definition billable_D :: "shadowsocksMetrics \<Rightarrow> string \<Rightarrow> int" where
  "billable_D m i = dataBytes m [''p<t'', ''tcp'', i] + dataBytes m [''p>t'', ''udp'', i]"

text \<open>A change of metrics and client that adds the same amounts to both.\<close>

definition books_equal :: "shadowsocksMetrics \<Rightarrow> APIClient \<Rightarrow> shadowsocksMetrics \<Rightarrow> APIClient \<Rightarrow> bool" where
  "books_equal m c m' c' \<longleftrightarrow>
     (\<forall>i. i \<noteq> '''' \<longrightarrow>
        user_U i (r_RepoList (Rtask c')) - user_U i (r_RepoList (Rtask c)) = word_of_int (billable_U m' i - billable_U m i) \<and>
        user_D i (r_RepoList (Rtask c')) - user_D i (r_RepoList (Rtask c)) = word_of_int (billable_D m' i - billable_D m i))"

lemma books_equal_refl [simp]: "books_equal m c m c"
  by (simp add: books_equal_def)

lemma addIfNonZero_at: "0 \<le> n \<Longrightarrow> addIfNonZero n v l k = v k + (if k = l then n else 0)"
  by (simp add: addIfNonZero_def)

lemma addIfNonZero_elsewhere: "k \<noteq> l \<Longrightarrow> addIfNonZero n v l k = v k"
  by (simp add: addIfNonZero_def)

lemma AddClosed_billable:
  assumes "0 \<le> ProxyTarget data" and "0 \<le> TargetProxy data"
  shows "billable_U (AddClosedTCPConnection m loc k st data t d) i = billable_U m i + (if i = k then ProxyTarget data else 0)"
    and "billable_D (AddClosedTCPConnection m loc k st data t d) i = billable_D m i + (if i = k then TargetProxy data else 0)"
  using assms by (simp_all add: billable_U_def billable_D_def AddClosedTCPConnection_def Let_def addIfNonZero_at addIfNonZero_elsewhere)

lemma AddUDPClient_billable:
  assumes "0 \<le> cp" and "0 \<le> pt"
  shows "billable_U (AddUDPPacketFromClient m loc k st cp pt t) i = billable_U m i + (if i = k then cp else 0)"
    and "billable_D (AddUDPPacketFromClient m loc k st cp pt t) i = billable_D m i + (if i = k then pt else 0)"
  using assms by (simp_all add: billable_U_def billable_D_def AddUDPPacketFromClient_def Let_def addIfNonZero_at addIfNonZero_elsewhere)

lemma unbilled_metrics [simp]:
  "billable_U (AddUDPPacketFromTarget m loc k st tp pc) i = billable_U m i"
  "billable_D (AddUDPPacketFromTarget m loc k st tp pc) i = billable_D m i"
  "billable_U (AddTCPProbe m st dr port data) i = billable_U m i"
  "billable_D (AddTCPProbe m st dr port data) i = billable_D m i"
  "billable_U (AddUDPNatEntry m) i = billable_U m i" "billable_D (AddUDPNatEntry m) i = billable_D m i"
  "billable_U (RemoveUDPNatEntry m) i = billable_U m i" "billable_D (RemoveUDPNatEntry m) i = billable_D m i"
  "billable_U (SetNumAccessKeys m n p) i = billable_U m i" "billable_D (SetNumAccessKeys m n p) i = billable_D m i"
  "billable_U (SetBuildInfo m v) i = billable_U m i" "billable_D (SetBuildInfo m v) i = billable_D m i"
  by (simp_all add: billable_U_def billable_D_def AddUDPPacketFromTarget_def AddTCPProbe_def AddUDPNatEntry_def
      RemoveUDPNatEntry_def SetNumAccessKeys_def SetBuildInfo_def Let_def addIfNonZero_elsewhere)

text \<open>What \<open>WriteTo\<close> returns is the number of bytes it wrote, for every writer.\<close>

lemma conv_WriteTo_counts:
  assumes "conv_WriteTo rd c w n0 = Some (Ok (n, err), c', w')"
  shows "n0 + length (concat (wout w')) = n + length (concat (wout w))"
proof -
  let ?P = "\<lambda>rd c w n0 res. \<forall>n err c' w'. res = (Ok (n, err), c', w') \<longrightarrow>
    n0 + length (concat (wout w')) = n + length (concat (wout w))"
  have "?P rd c w n0 (Ok (n, err), c', w')"
  proof (rule conv_WriteTo.raw_induct [OF _ assms, of ?P])
    fix f :: "'a chunk_fn \<Rightarrow> 'a readConverter \<Rightarrow> writer \<Rightarrow> nat \<Rightarrow> ((nat \<times> goerror option) result \<times> 'a readConverter \<times> writer) option"
    fix rd c w n0 res
    assume IH: "\<And>rd c w n0 res. f rd c w n0 = Some res \<Longrightarrow> ?P rd c w n0 res"
      and body: "(case ensureLeftover rd c of
        (Panic m, c') \<Rightarrow> Some (Panic m, c', w)
      | (Fail e, c') \<Rightarrow> Some (Ok (n0, (if e = EOF then None else Some e)), c', w)
      | (Ok _, c') \<Rightarrow>
          (case Write w (leftover c') of
             (n, err, w') \<Rightarrow>
               (let c2 = c'\<lparr>leftover := drop n (leftover c')\<rparr>
                in case err of
                     Some e \<Rightarrow> Some (Ok (n0 + n, Some e), c2, w')
                   | None \<Rightarrow> f rd c2 w' (n0 + n)))) = Some res"
    obtain r c1 where E: "ensureLeftover rd c = (r, c1)" by (cases "ensureLeftover rd c")
    obtain k e w1 where W: "Write w (leftover c1) = (k, e, w1)" by (cases "Write w (leftover c1)")
    note bound = Write_bound [OF W]
    show "?P rd c w n0 res"
    proof (cases "\<exists>u. r = Ok u \<and> e = None")
      case True
      with body E W have "f rd (c1\<lparr>leftover := drop k (leftover c1)\<rparr>) w1 (n0 + k) = Some res" by (auto simp: Let_def)
      from IH [OF this] bound show ?thesis by (auto simp: min_absorb2)
    next
      case False
      with body E W bound show ?thesis by (cases r) (auto simp: min_def split: option.splits)
    qed
  qed
  then show ?thesis by simp
qed

text \<open>Reading moves bytes out of a reader, in whatever state it is, and \<open>ReadFrom\<close> returns how many it has read.\<close>

lemma Read_moves:
  "Read r n = (d, e, r') \<Longrightarrow> contents r = d @ contents r' \<and> (e = Some EOF \<longrightarrow> contents r' = [])"
proof (induction r n arbitrary: d e r' rule: Read.induct)
  case (3 r1 r2 n)
  obtain d1 e1 s1 where r1: "Read r1 n = (d1, e1, s1)" by (cases "Read r1 n")
  from 3 r1 show ?case by (cases "e1 = Some EOF") (auto split: if_splits)
qed (auto split: list.splits if_splits)

lemma read_from_loop_counts:
  "read_from_loop A sw r k = (n, e, sw', r') \<Longrightarrow> n + length (contents r') = k + length (contents r)"
proof (induction A sw r k rule: read_from_loop.induct)
  case (1 A sw r k)
  obtain d err r1 where rd: "Read r payloadSizeMask = (d, err, r1)" by (cases "Read r payloadSizeMask")
  obtain fe sw1 where fl: "flush A (sw\<lparr>buf := blit (buf sw) (payloadStart A sw) d, pending := length d\<rparr>) = (fe, sw1)"
    by (cases "flush A (sw\<lparr>buf := blit (buf sw) (payloadStart A sw) d, pending := length d\<rparr>)")
  have len: "length (contents r) = length d + length (contents r1)" using Read_moves [OF rd] by simp
  show ?case
  proof (cases "case fe of Some x \<Rightarrow> Some x | None \<Rightarrow> err")
    case None
    from "1.IH" [OF rd [symmetric] refl fl [symmetric] None] "1.prems" len show ?thesis
      by (simp add: read_from_loop.simps [of A sw r k] rd fl None)
  next
    case (Some x)
    with "1.prems" len show ?thesis by (simp add: read_from_loop.simps [of A sw r k] rd fl)
  qed
qed

lemma ReadFrom_counts:
  assumes "ReadFrom cr ent race sw r = Ok (n, err, sw', r')" and "\<not> needFlush sw"
  shows "n + length (contents r') = length (contents r)"
proof -
  from assms(1) obtain ierr sw1 where init: "writer_init cr ent sw = Ok (ierr, sw1)"
    by (auto simp: ReadFrom_def bind_result_Ok_iff)
  then have "needFlush sw1 = needFlush sw"
    by (auto simp: writer_init_def Let_def split: option.splits result.splits)
  with assms init show ?thesis
    by (auto simp: ReadFrom_def split: option.splits prod.splits dest: read_from_loop_counts)
qed

text \<open>The reader of a connection only loses bytes.\<close>

lemma finish_billable:
  assumes "0 \<le> ProxyTarget data" and "0 \<le> TargetProxy data"
  shows "billable_U (tcp_m (finish env k st data s)) i = billable_U (tcp_m s) i + (if i = k then ProxyTarget data else 0)"
    and "billable_D (tcp_m (finish env k st data s)) i = billable_D (tcp_m s) i + (if i = k then TargetProxy data else 0)"
    and "tcp_api (finish env k st data s) = tcp_api s" and "tcp_ciphers (finish env k st data s) = tcp_ciphers s"
    and "tcp_replayCache (finish env k st data s) = tcp_replayCache s"
  using AddClosed_billable [OF assms] by (simp_all add: finish_def)

lemma absorbProbe_books:
  "books_equal (tcp_m s) (tcp_api s) (tcp_m (out_service (absorbProbe env i st s conn r))) (tcp_api (out_service (absorbProbe env i st s conn r)))"
  by (simp add: absorbProbe_def Let_def finish_billable no_bytes_def books_equal_def split: prod.split)

lemma AddRepo_pair:
  assumes "i \<noteq> ''''"
  shows "user_U i (r_RepoList (Rtask (AddRepo (AddRepo c s) t))) - user_U i (r_RepoList (Rtask c)) =
      (if UID s = i then ut_U s else 0) + (if UID t = i then ut_U t else 0)"
    and "user_D i (r_RepoList (Rtask (AddRepo (AddRepo c s) t))) - user_D i (r_RepoList (Rtask c)) =
      (if UID s = i then ut_D s else 0) + (if UID t = i then ut_D t else 0)"
  using AddRepo_user [OF assms] by simp_all

lemma relay_books:
  assumes "relay env entry (ID entry) s conn ssr t = Some (Ok out)"
  shows "books_equal (tcp_m s) (tcp_api s) (tcp_m (out_service out)) (tcp_api (out_service out))"
proof -
  obtain p tgt where t: "t = (p, tgt)" by (cases t)
  let ?ssw = "SetSaltGenerator (NewShadowsocksWriter (conn_writer conn) (entry_Cipher entry)) (Some (entry_SaltGenerator entry))"
  from assms obtain n1 e1 ssr' tw where
    up: "conv_WriteTo (\<lambda>x. ReadChunk (env_crypto env) (env_pick env (cr_pool x)) x) ssr (tgt_writer tgt) 0 = Some (Ok (n1, e1), ssr', tw)"
    by (auto simp: relay_def t Let_def split: option.splits prod.splits result.splits)
  from assms up obtain n2 e2 ssw' tr where
    down: "ReadFrom (env_crypto env) (env_entropy env) False ?ssw (tgt_reader tgt) = Ok (n2, e2, ssw', tr)"
    by (auto simp: relay_def t Let_def split: result.splits)
  have n1: "int (length (concat (wout tw))) - int (length (concat (wout (tgt_writer tgt)))) = int n1"
    using conv_WriteTo_counts [OF up] by simp
  have "\<not> needFlush ?ssw" by (simp add: SetSaltGenerator_def NewShadowsocksWriter_def)
  from ReadFrom_counts [OF down this] have n2: "consumed (tgt_reader tgt) tr = int n2" by (simp add: consumed_def)
  let ?up = "\<lparr>UID = ID entry, ut_U = word_of_nat n1, ut_D = 0\<rparr>" and ?down = "\<lparr>UID = ID entry, ut_U = 0, ut_D = word_of_nat n2\<rparr>"
  obtain st data where out: "out_service out = finish env (ID entry) st data (s\<lparr>tcp_api :=
        (if env_client_first env then AddRepo (AddRepo (tcp_api s) ?up) ?down else AddRepo (AddRepo (tcp_api s) ?down) ?up)\<rparr>)"
      "ProxyTarget data = int n1" "TargetProxy data = int n2"
    using assms up down n1 n2 by (force simp: relay_def t Let_def)
  then show ?thesis
    by (auto simp: books_equal_def finish_billable AddRepo_pair)
qed

lemma Rtask_AddWwwRepo [simp]: "Rtask (AddWwwRepo c t) = Rtask c"
  by (simp add: AddWwwRepo_def)

lemma books_equal_www: "books_equal m (AddWwwRepo c t) m' c' \<longleftrightarrow> books_equal m c m' c'"
  by (simp add: books_equal_def)

lemma serve_client_books:
  assumes "serve_client env entry (ID entry) s conn rd = Some (Ok out)"
  shows "books_equal (tcp_m s) (tcp_api s) (tcp_m (out_service out)) (tcp_api (out_service out)) \<and>
    tcp_ciphers (out_service out) = tcp_ciphers s \<and> tcp_replayCache (out_service out) = tcp_replayCache s"
proof -
  obtain r ssr where ra: "env_ReadAddr env (NewShadowsocksReader (env_pool env) rd (entry_Cipher entry)) = (r, ssr)"
    by (cases "env_ReadAddr env (NewShadowsocksReader (env_pool env) rd (entry_Cipher entry))")
  show ?thesis
  proof (cases r)
    case (Ok a)
    obtain atts err where d: "env_dial env (env_addr_String env a) = (atts, err)" by (cases "env_dial env (env_addr_String env a)")
    show ?thesis
    proof (cases "dialTarget (tcp_targetIPValidator s) atts err")
      case (Inl ce)
      with assms ra Ok d show ?thesis
        by (auto simp: serve_client_def Let_def no_bytes_def finish_billable books_equal_def)
    next
      case (Inr t)
      let ?s = "s\<lparr>tcp_api := AddWwwRepo (tcp_api s)
         \<lparr>UNID = ID entry, Host = env_addr_String env a, Uip = conn_remoteStr conn, www_Date = env_unix env, IsUdp = 0, www_Status = 1\<rparr>\<rparr>"
      have run: "relay env entry (ID entry) ?s conn (lift_ssr (conn_later conn) ssr) t = Some (Ok out)"
        using assms ra Ok d Inr by (simp add: serve_client_def Let_def)
      then have "tcp_ciphers (out_service out) = tcp_ciphers s \<and> tcp_replayCache (out_service out) = tcp_replayCache s"
        by (auto simp: relay_def Let_def finish_def split: option.splits prod.splits result.splits)
      with relay_books [OF run] show ?thesis by (simp add: books_equal_www)
    qed
  next
    case (Fail e)
    with assms ra show ?thesis
      by (auto simp: serve_client_def Let_def no_bytes_def finish_billable books_equal_def split: prod.splits)
  qed (use assms ra in \<open>simp add: serve_client_def\<close>)
qed

lemma absorbProbe_keeps [simp]:
  "tcp_ciphers (out_service (absorbProbe env i st s conn r)) = tcp_ciphers s"
  "out_target (absorbProbe env i st s conn r) = None"
  by (simp_all add: absorbProbe_def Let_def finish_def split: prod.split)

text \<open>The effect of a connection on what the services share: the list of the port is unchanged or has one key marked as used,
  the books stay equal, and a target was connected only for a key of the list that authenticates the first bytes.\<close>

lemma handleConnection_effect:
  assumes "handleConnection env s conn = Some (Ok out)"
  shows "books_equal (tcp_m s) (tcp_api s) (tcp_m (out_service out)) (tcp_api (out_service out)) \<and>
    (tcp_ciphers (out_service out) = tcp_ciphers s \<or> (\<exists>e p. tcp_ciphers (out_service out) = MarkUsedByClientIP (tcp_ciphers s) e p)) \<and>
    (out_target out \<noteq> None \<longrightarrow> (\<exists>e \<in> set (cl_list (tcp_ciphers s)).
       opens (env_crypto env) (fst (ReadFull (conn_reader conn) 50)) (entry_Cipher (cl_entry (tcp_ciphers s) e))))"
proof -
  let ?p = "remoteIP (env_host_ip env) (conn_remote conn)"
  from assms obtain ak cl' where ak: "findAccessKey (env_crypto env) (conn_reader conn) ?p (tcp_ciphers s) = Ok (ak, cl')"
    by (auto simp: handleConnection_def split: result.splits)
  from ak show ?thesis
  proof (cases rule: findAccessKey_cases)
    case none
    with assms ak show ?thesis
      using absorbProbe_books [of s env] by (auto simp: handleConnection_def Let_def)
  next
    case (found e d r')
    let ?s = "s\<lparr>tcp_ciphers := cl'\<rparr>"
    have i: "ak_id ak = ID (cl_entry cl' e)" using found by simp
    have "books_equal (tcp_m s) (tcp_api s) (tcp_m (out_service out)) (tcp_api (out_service out)) \<and>
      tcp_ciphers (out_service out) = cl'"
    proof -
      consider (absorbed) i st s1 r where "out = absorbProbe env i st s1 conn r" "tcp_m s1 = tcp_m s" "tcp_api s1 = tcp_api s"
          "tcp_ciphers s1 = cl'"
        | (served) rc where "serve_client env (cl_entry cl' e) (ID (cl_entry cl' e)) (?s\<lparr>tcp_replayCache := rc\<rparr>) conn (ak_reader ak) =
            Some (Ok out)"
      proof (cases "IsServerSalt (env_crypto env) (entry_SaltGenerator (cl_entry cl' e)) (ak_salt ak)")
        case True
        with assms ak found absorbed [of _ _ ?s] show ?thesis by (auto simp: handleConnection_def Let_def)
      next
        case False
        obtain b rc where add: "Add (tcp_replayCache s) (ID (cl_entry cl' e)) (ak_salt ak) = (b, rc)"
          by (cases "Add (tcp_replayCache s) (ID (cl_entry cl' e)) (ak_salt ak)")
        show ?thesis
        proof (cases b)
          case True
          with False add assms ak found(5,6) i served [of rc] show ?thesis by (simp add: handleConnection_def Let_def)
        next
          case b: False
          with False add assms ak found(5,6) absorbed [of _ _ "?s\<lparr>tcp_replayCache := rc\<rparr>"] show ?thesis
            by (auto simp: handleConnection_def Let_def)
        qed
      qed
      then show ?thesis
      proof cases
        case absorbed
        then show ?thesis using absorbProbe_books [of s1 env] by simp
      next
        case served
        from serve_client_books [OF this] show ?thesis by simp
      qed
    qed
    with found show ?thesis by auto
  qed
qed

section \<open>What a packet records\<close>

text \<open>Forwarding a packet changes no amount that is billed, before its report.\<close>

definition unbilled :: "udpService \<Rightarrow> udpService \<Rightarrow> bool" where
  "unbilled u u' \<longleftrightarrow> udp_api u' = udp_api u \<and>
     (\<forall>i. billable_U (udp_m u') i = billable_U (udp_m u) i \<and> billable_D (udp_m u') i = billable_D (udp_m u) i)"

definition marks :: "cipherList \<Rightarrow> cipherList \<Rightarrow> bool" where
  "marks cl cl' \<longleftrightarrow> cl' = cl \<or> (\<exists>e p. cl' = MarkUsedByClientIP cl e p)"

lemma unbilled_books: "unbilled u u' \<Longrightarrow> books_equal (udp_m u) (udp_api u) (udp_m u') (udp_api u')"
  by (simp add: unbilled_def books_equal_def)

lemma forward_payload_unbilled:
  assumes "forward_payload env u p v payload tgt = (v', u')"
  shows "unbilled u u' \<and> udp_ciphers u' = udp_ciphers u"
  using assms by (auto simp: forward_payload_def Let_def unbilled_def split: prod.splits sum.splits)

lemma nat_Add_unbilled:
  assumes "nat_Add u key c loc i = (p, u')"
  shows "unbilled u u' \<and> udp_ciphers u' = udp_ciphers u"
  using assms by (auto simp: nat_Add_def nat_set_def Let_def unbilled_def)

lemma findAccessKeyUDP_marks: "findAccessKeyUDP cr p dst src cl = (res, cl') \<Longrightarrow> marks cl cl'"
  by (auto simp: findAccessKeyUDP_def marks_def split: result.splits option.splits)

lemma forward_new_unbilled:
  assumes "forward_new env u d a = (v, u')"
  shows "unbilled u u' \<and> marks (udp_ciphers u) (udp_ciphers u')"
proof -
  obtain res cl where key: "findAccessKeyUDP (ue_crypto env) (udp_IP a) serverUDPBufferSize d (udp_ciphers u) = (res, cl)"
    by (cases "findAccessKeyUDP (ue_crypto env) (udp_IP a) serverUDPBufferSize d (udp_ciphers u)")
  note m = findAccessKeyUDP_marks [OF key]
  show ?thesis
  proof (cases res)
    case (Ok x)
    obtain t i c where x: "x = (t, i, c)" by (cases x)
    let ?u1 = "u\<lparr>udp_ciphers := cl\<rparr>" and ?loc = "fst (GetLocation (ue_country env) (ue_host_ip env) (ue_String env a))"
    obtain p u2 where add: "nat_Add ?u1 (ue_String env a) c ?loc i = (p, u2)" by (cases "nat_Add ?u1 (ue_String env a) c ?loc i")
    from nat_Add_unbilled [OF add] have u2: "unbilled u u2" "udp_ciphers u2 = cl" by (simp_all add: unbilled_def)
    show ?thesis
    proof (cases "validatePacket env (udp_targetIPValidator u) t")
      case (Inl e)
      with assms key Ok x m show ?thesis by (auto simp: forward_new_def Let_def unbilled_def)
    next
      case (Inr pt)
      obtain payload tgt where pt: "pt = (payload, tgt)" by (cases pt)
      show ?thesis
      proof (cases "ue_ListenPacket env")
        case None
        with assms key Ok x Inr pt add obtain v0 where "forward_payload env u2 p v0 payload tgt = (v, u')"
          by (auto simp: forward_new_def Let_def no_forward_def)
        from forward_payload_unbilled [OF this] u2 m show ?thesis by (simp add: unbilled_def)
      next
        case (Some e)
        with assms key Ok x Inr pt m show ?thesis by (auto simp: forward_new_def Let_def unbilled_def)
      qed
    qed
  qed (use assms key m in \<open>auto simp: forward_new_def Let_def unbilled_def\<close>)
qed

lemma forward_known_unbilled:
  assumes "forward_known env u p d = (v, u')"
  shows "unbilled u u' \<and> udp_ciphers u' = udp_ciphers u"
  using assms
  by (auto simp: forward_known_def Let_def unbilled_def split: result.splits sum.splits prod.splits
      dest!: forward_payload_unbilled)

lemma report_packet_books:
  assumes "report_packet env u n (Some a) v = Ok u'"
  shows "books_equal (udp_m u) (udp_api u) (udp_m u') (udp_api u')"
  using assms AddUDPClient_billable [of "int n" "int (uf_proxyTargetBytes v)"]
  by (auto simp: report_packet_def Let_def books_equal_def AddRepo_user)

lemma books_equal_trans:
  assumes "books_equal m c m1 c1" and "books_equal m1 c1 m2 c2"
  shows "books_equal m c m2 c2"
proof -
  have trans: "(x2 :: 64 word) - x0 = word_of_int (b2 - b0)" if "x1 - x0 = word_of_int (b1 - b0)" "x2 - x1 = word_of_int (b2 - b1)"
    for x0 x1 x2 b0 b1 b2
  proof -
    have "x2 - x0 = (x1 - x0) + (x2 - x1)" by simp
    also have "\<dots> = word_of_int ((b1 - b0) + (b2 - b1))" unfolding that by (simp only: wi_hom_add)
    finally show ?thesis by simp
  qed
  show ?thesis
    unfolding books_equal_def
  proof (intro allI impI)
    fix i :: string
    assume "i \<noteq> ''''"
    with assms have first: "user_U i (r_RepoList (Rtask c1)) - user_U i (r_RepoList (Rtask c)) = word_of_int (billable_U m1 i - billable_U m i)"
        "user_D i (r_RepoList (Rtask c1)) - user_D i (r_RepoList (Rtask c)) = word_of_int (billable_D m1 i - billable_D m i)"
      and second: "user_U i (r_RepoList (Rtask c2)) - user_U i (r_RepoList (Rtask c1)) = word_of_int (billable_U m2 i - billable_U m1 i)"
        "user_D i (r_RepoList (Rtask c2)) - user_D i (r_RepoList (Rtask c1)) = word_of_int (billable_D m2 i - billable_D m1 i)"
      unfolding books_equal_def by simp_all
    from trans [OF first(1) second(1)] trans [OF first(2) second(2)]
    show "user_U i (r_RepoList (Rtask c2)) - user_U i (r_RepoList (Rtask c)) = word_of_int (billable_U m2 i - billable_U m i) \<and>
        user_D i (r_RepoList (Rtask c2)) - user_D i (r_RepoList (Rtask c)) = word_of_int (billable_D m2 i - billable_D m i)" by blast
  qed
qed

lemma serve_packet_effect:
  assumes "serve_packet env u r = (b, u')"
  shows "books_equal (udp_m u) (udp_api u) (udp_m u') (udp_api u') \<and> marks (udp_ciphers u) (udp_ciphers u')"
proof (cases r)
  case (Inl err)
  with assms have "u' = u" by (auto simp: serve_packet_def report_packet_def split: if_splits)
  then show ?thesis by (simp add: marks_def)
next
  case (Inr da)
  obtain d a where da: "da = (d, a)" by (cases da)
  let ?d = "take serverUDPBufferSize d"
  obtain v u1 where fw: "(case nat_Get u (ue_String env a) of None \<Rightarrow> forward_new env u ?d a | Some p \<Rightarrow> forward_known env u p ?d) = (v, u1)"
    by fastforce
  then have u1: "unbilled u u1" "marks (udp_ciphers u) (udp_ciphers u1)"
    using forward_new_unbilled forward_known_unbilled by (fastforce split: option.splits simp: marks_def)+
  obtain u2 where rep: "report_packet env u1 (length ?d) (Some a) v = Ok u2" by (rule report_packet_ok)
  with assms fw have "u' = u2" by (auto simp: serve_packet_def Inr da Let_def)
  moreover have "udp_ciphers u2 = udp_ciphers u1" using report_packet_keeps [OF rep] by simp
  ultimately show ?thesis
    using books_equal_trans [OF unbilled_books [OF u1(1)] report_packet_books [OF rep]] u1(2) by simp
qed

text \<open>Operations of the services only add to the list of records.\<close>

definition grows :: "APIClient \<Rightarrow> APIClient \<Rightarrow> bool" where
  "grows c c' \<longleftrightarrow> (\<exists>l. r_RepoList (Rtask c') = r_RepoList (Rtask c) @ l)"

lemma grows_simps [simp]: "grows c c" "grows c (AddRepo c t)" "grows c (AddWwwRepo c w)" "grows c (AddRepo (AddWwwRepo c w) t)"
  by (simp_all add: grows_def AddRepo_def AddWwwRepo_def)

lemma serve_packet_grows:
  assumes "serve_packet env u r = (b, u')"
  shows "grows (udp_api u) (udp_api u')"
proof (cases r)
  case (Inl err)
  with assms show ?thesis by (auto simp: serve_packet_def report_packet_def split: if_splits)
next
  case (Inr da)
  obtain d a where da: "da = (d, a)" by (cases da)
  let ?d = "take serverUDPBufferSize d"
  obtain v u1 where fw: "(case nat_Get u (ue_String env a) of None \<Rightarrow> forward_new env u ?d a | Some p \<Rightarrow> forward_known env u p ?d) = (v, u1)"
    by fastforce
  then have "udp_api u1 = udp_api u"
    using forward_new_unbilled [of env u ?d a v u1] forward_known_unbilled [of env u _ ?d v u1]
    by (fastforce split: option.splits simp: unbilled_def)
  moreover obtain u2 where rep: "report_packet env u1 (length ?d) (Some a) v = Ok u2" by (rule report_packet_ok)
  moreover from rep assms fw have "u' = u2" by (auto simp: serve_packet_def Inr da Let_def)
  ultimately show ?thesis by (auto simp: report_packet_def Let_def)
qed

lemma timedCopy_step_unbilled:
  assumes "timedCopy_step env write u p pkt r = Ok (b, u', pkt')"
  shows "unbilled u u'"
proof -
  from assms obtain out c' x where o: "timedCopy_packet env write (udp_conns u p) pkt r = Ok (out, c', x)"
    by (auto simp: timedCopy_step_def Let_def bind_result_Ok_iff)
  with assms show ?thesis by (cases out) (auto simp: timedCopy_step_def Let_def unbilled_def)
qed

lemma nat_finish_unbilled: "unbilled u (snd (nat_finish u p key))"
  by (simp add: nat_finish_def nat_del_def unbilled_def split: option.split)

end
