(* ===== verification/Server_System.thy ===== *)
theory Server_System
  imports Server_Main Server_Accounts
begin

text \<open>
  The server of \<^verbatim>\<open>cmd/quick_ss/main.go\<close> with the keys of its ports: opening and closing ports and replacing lists installs
  only keys of listed users and leaves the traffic as it is. The state in which \<open>main\<close> has started the server, its invariant, and an
  example. Theory \<^verbatim>\<open>Server_Net\<close> says how it runs.
\<close>

section \<open>The keys of the ports\<close>

text \<open>Every key on a port is that of a user of a set, on the user's port and with the user's cipher and secret.\<close>

definition listed_entry :: "crypto \<Rightarrow> aeadSpec list \<Rightarrow> Key set \<Rightarrow> int \<Rightarrow> CipherEntry \<Rightarrow> bool" where
  "listed_entry cr specs K p e \<longleftrightarrow>
     (\<exists>k \<in> K. Port k = p \<and> ID e = key_ID k \<and> NewCipher cr specs (key_Cipher k) (Secret k) = Ok (entry_Cipher e))"

definition port_listed :: "crypto \<Rightarrow> aeadSpec list \<Rightarrow> Key set \<Rightarrow> int \<Rightarrow> cipherList \<Rightarrow> bool" where
  "port_listed cr specs K p cl \<longleftrightarrow> (\<forall>e \<in> set (cl_list cl). listed_entry cr specs K p (cl_entry cl e))"

definition server_listed :: "crypto \<Rightarrow> aeadSpec list \<Rightarrow> Key set \<Rightarrow> SSServer \<Rightarrow> bool" where
  "server_listed cr specs K s \<longleftrightarrow> (\<forall>p port. ss_ports s p = Some port \<longrightarrow> port_listed cr specs K p (port_cipherList port))"

lemma cl_list_mark [simp]: "set (cl_list (MarkUsedByClientIP cl e p)) = set (cl_list cl)"
  using port_ciphers.mark_elements [of cl e p] by (rule mset_eq_setD)

lemma port_listed_marks: "marks cl cl' \<Longrightarrow> port_listed cr specs K p cl' = port_listed cr specs K p cl"
  by (auto simp: marks_def port_listed_def listed_entry_def)

lemma port_listed_keys_ok:
  assumes "port_listed cr specs K p cl" and "crypto_ok cr" and "supportedAEADs cr = Ok specs"
  shows "keys_ok cr cl"
  using assms(1) NewCipher_cipher_ok [OF assms(2,3)] unfolding port_listed_def listed_entry_def keys_ok_def by blast

lemma server_listed_mono: "server_listed cr specs K s \<Longrightarrow> K \<subseteq> L \<Longrightarrow> server_listed cr specs L s"
  by (fastforce simp: server_listed_def port_listed_def listed_entry_def)

lemma startPort_listed: "server_listed cr specs K s \<Longrightarrow> server_listed cr specs K (fst (startPort env s p))"
  by (auto simp: server_listed_def startPort_def Let_def port_listed_def NewCipherList_def split: option.split)

lemma removePort_listed: "server_listed cr specs K s \<Longrightarrow> server_listed cr specs K (fst (removePort env s p))"
  by (auto simp: server_listed_def removePort_def Let_def split: option.split)

lemma change_ports_listed: "server_listed cr specs K s \<Longrightarrow> server_listed cr specs K (fst (change_ports env ch ps s))"
proof (induction env ch ps s rule: change_ports.induct)
  case (2 env ch p ps s)
  then show ?case
    using startPort_listed [of cr specs K s env p] removePort_listed [of cr specs K s env p]
    by (auto split: prod.split option.split)
qed simp

lemma install_listed:
  "(\<forall>e \<in> set es. listed_entry cr specs K p e) \<Longrightarrow> port_listed cr specs K p (install cl base es)"
  by (auto simp: port_listed_def install_def Update_def)

lemma update_lists_listed:
  assumes "update_lists pcs s = Ok s'" and "server_listed cr specs K s"
    and "\<forall>(p, es) \<in> set pcs. \<forall>e \<in> set es. listed_entry cr specs K p e"
  shows "server_listed cr specs K s'"
  using assms
proof (induction pcs s rule: update_lists.induct)
  case (2 p es pcs s)
  from 2(2) obtain port where port: "ss_ports s p = Some port" by (auto split: option.splits)
  let ?s = "s\<lparr>ss_ports := (ss_ports s)(p \<mapsto> \<lparr>port_cipherList = install (port_cipherList port) (ss_alloc s) es\<rparr>),
               ss_alloc := ss_alloc s + length es\<rparr>"
  have "server_listed cr specs K ?s"
    using 2(3,4) install_listed [of es cr specs K p] by (auto simp: server_listed_def)
  with 2(1) [OF port] 2(2,4) port show ?case by simp
qed simp

lemma list_all2_mem2: "list_all2 P xs ys \<Longrightarrow> y \<in> set ys \<Longrightarrow> \<exists>x \<in> set xs. P x y"
  by (induction rule: list_all2_induct) auto

lemma loaded_listed:
  assumes "loaded cr specs ks pcs" and "(p, es) \<in> set pcs" and "e \<in> set es"
  shows "listed_entry cr specs (set ks) p e"
proof -
  from assms(1,2) have "list_all2 (key_entry cr specs) (filter (\<lambda>k. Port k = p) ks) es" by (auto simp: loaded_def)
  from list_all2_mem2 [OF this assms(3)] show ?thesis by (auto simp: listed_entry_def key_entry_def)
qed

text \<open>Running a list, whether or not it succeeds, installs only keys of its users, and neither traffic nor the amounts that
  are billed change.\<close>

lemma doRun_listed:
  assumes "server_listed cr specs K s" and "\<And>xs. mset (order2 xs) = mset xs"
  shows "server_listed cr specs (K \<union> set users) (fst (doRun env cr specs order order2 s users))"
proof (cases "load_keys cr specs users []")
  case (Ok pcs)
  have loaded: "loaded cr specs users pcs"
    using load_keys_spec [OF Ok, of "[]"] by (simp add: loaded_def)
  have set2: "set (order2 pcs) = set pcs" using assms(2) by (metis mset_eq_setD)
  have new: "\<forall>(p, es) \<in> set (order2 pcs). \<forall>e \<in> set es. listed_entry cr specs (K \<union> set users) p e"
    unfolding set2 using loaded_listed [OF loaded] by (fastforce simp: listed_entry_def)
  let ?ch = "\<lambda>p. (if p \<in> set (map fst pcs) then 1 else 0) - (if p \<in> dom (ss_ports s) then 1 else 0) :: int"
  obtain s1 err where s1: "change_ports env ?ch (order (set (map fst pcs) \<union> dom (ss_ports s))) s = (s1, err)"
    by (cases "change_ports env ?ch (order (set (map fst pcs) \<union> dom (ss_ports s))) s")
  have "server_listed cr specs (K \<union> set users) s" using assms(1) by (rule server_listed_mono) blast
  from change_ports_listed [OF this, of env ?ch "order (set (map fst pcs) \<union> dom (ss_ports s))"]
  have l1: "server_listed cr specs (K \<union> set users) s1" unfolding s1 by simp
  have "server_listed cr specs (K \<union> set users) (s2\<lparr>ss_m := m\<rparr>)" if "update_lists (order2 pcs) s1 = Ok s2" for s2 m
    using update_lists_listed [OF that l1 new] by (simp add: server_listed_def)
  with l1 s1 show ?thesis unfolding doRun_def Ok Let_def by (simp split: option.split result.split)
qed (use server_listed_mono [OF assms(1), of "K \<union> set users"] in \<open>simp_all add: doRun_def\<close>)

definition same_books :: "SSServer \<Rightarrow> SSServer \<Rightarrow> bool" where
  "same_books s s' \<longleftrightarrow> ss_api s' = ss_api s \<and>
     (\<forall>i. billable_U (ss_m s') i = billable_U (ss_m s) i \<and> billable_D (ss_m s') i = billable_D (ss_m s) i)"

lemma startPort_books: "same_books s (fst (startPort env s p))"
  by (simp add: same_books_def startPort_def Let_def split: option.split)

lemma removePort_books: "same_books s (fst (removePort env s p))"
  by (simp add: same_books_def removePort_def Let_def split: option.split)

lemma change_ports_books: "same_books s (fst (change_ports env ch ps s))"
proof (induction env ch ps s rule: change_ports.induct)
  case (2 env ch p ps s)
  then show ?case
    using startPort_books [of s env p] removePort_books [of s env p]
    by (auto simp: same_books_def split: prod.split option.split)
qed (simp add: same_books_def)

lemma update_lists_books: "update_lists pcs s = Ok s' \<Longrightarrow> same_books s s'"
  by (induction pcs s rule: update_lists.induct) (auto simp: same_books_def split: option.splits)

lemma doRun_books: "same_books s (fst (doRun env cr specs order order2 s users))"
proof (cases "load_keys cr specs users []")
  case (Ok pcs)
  let ?ch = "\<lambda>p. (if p \<in> set (map fst pcs) then 1 else 0) - (if p \<in> dom (ss_ports s) then 1 else 0) :: int"
  obtain s1 err where s1: "change_ports env ?ch (order (set (map fst pcs) \<union> dom (ss_ports s))) s = (s1, err)"
    by (cases "change_ports env ?ch (order (set (map fst pcs) \<union> dom (ss_ports s))) s")
  from change_ports_books [of s env ?ch "order (set (map fst pcs) \<union> dom (ss_ports s))"]
  have b1: "same_books s s1" unfolding s1 by simp
  have "same_books s (s2\<lparr>ss_m := SetNumAccessKeys (ss_m s2) n m\<rparr>)" if "update_lists (order2 pcs) s1 = Ok s2" for s2 n m
    using update_lists_books [OF that] b1 by (simp add: same_books_def)
  with b1 s1 show ?thesis unfolding doRun_def Ok Let_def by (simp split: option.split result.split)
qed (simp_all add: doRun_def same_books_def)

section \<open>The server as it starts\<close>

text \<open>The TCP service of a port over the objects it shares: the port's list, the metrics, the replay cache and the client.\<close>

definition port_tcp :: "SSServer \<Rightarrow> ssPort \<Rightarrow> tcpService" where
  "port_tcp s port =
     \<lparr>tcp_ciphers = port_cipherList port, tcp_m = ss_m s, tcp_replayCache = Some (ss_replayCache s),
      tcp_targetIPValidator = RequirePublicIP, tcp_api = ss_api s\<rparr>"

text \<open>The server with the hashes of \<open>CheckUser\<close>. \<open>sys_reported\<close> are the records handed to reports so far, and \<open>sys_listed\<close>
  the users of all lists read so far.\<close>

record system =
  sys_server :: SSServer
  sys_hash :: "Key \<rightharpoonup> 32 word"
  sys_reported :: "UserTraffic list list"
  sys_listed :: "Key set"

text \<open>The state in which \<open>main\<close> has started the server.\<close>

definition sys_started :: "crypto \<Rightarrow> aeadSpec list \<Rightarrow> 'j api_env \<Rightarrow> system \<Rightarrow> bool" where
  "sys_started cr specs aenv st \<longleftrightarrow>
     (\<exists>oe order order2 odb t users.
        map_order order \<and> (\<forall>xs. mset (order2 xs) = mset xs) \<and>
        main_server oe cr specs order order2 aenv odb t = Ok (sys_server st) \<and>
        GetUsers odb (NodeID (ss_api (sys_server st))) = Ok users \<and>
        sys_hash st = Map.empty \<and> sys_reported st = [] \<and> sys_listed st = set users)"

section \<open>Invariants of the running server\<close>

definition books_balance :: "system \<Rightarrow> bool" where
  "books_balance st \<longleftrightarrow>
     (\<forall>i. i \<noteq> '''' \<longrightarrow>
        user_U i (concat (sys_reported st)) + user_U i (r_RepoList (Rtask (ss_api (sys_server st)))) =
          word_of_int (billable_U (ss_m (sys_server st)) i) \<and>
        user_D i (concat (sys_reported st)) + user_D i (r_RepoList (Rtask (ss_api (sys_server st)))) =
          word_of_int (billable_D (ss_m (sys_server st)) i))"

definition sys_inv :: "crypto \<Rightarrow> aeadSpec list \<Rightarrow> system \<Rightarrow> bool" where
  "sys_inv cr specs st \<longleftrightarrow> ports_inv (sys_server st) \<and> server_listed cr specs (sys_listed st) (sys_server st) \<and> books_balance st"

lemma user_nil: "user_U i [] = 0" "user_D i [] = 0"
  by (simp_all add: user_U_def user_D_def)

lemma same_books_equal: "same_books s s' \<Longrightarrow> books_equal (ss_m s) (ss_api s) (ss_m s') (ss_api s')"
  by (simp add: same_books_def books_equal_def)

lemma doRun_ports_inv: "ports_inv s \<Longrightarrow> ports_inv (fst (doRun oe cr specs order order2 s users))"
  using server_exec_inv [of s cr specs order order2 "RunUsers oe users"] by simp

lemma sys_started_inv:
  assumes "sys_started cr specs aenv st"
  shows "sys_inv cr specs st"
proof -
  from assms obtain oe order order2 odb t users where start:
      "\<And>xs. mset (order2 xs) = mset xs" "main_server oe cr specs order order2 aenv odb t = Ok (sys_server st)"
      "GetUsers odb (NodeID (ss_api (sys_server st))) = Ok users" "sys_reported st = []" "sys_listed st = set users"
    unfolding sys_started_def by blast
  from start(2) show ?thesis
    unfolding main_server_def
  proof (rule RunSSServer_ok)
    fix rc c us server
    assume a: "c = snd (api_Init (aenv\<lparr>ae_APIHost := ''https://aerodrome.onemelody.cn/'',
          ae_LogHost := ''http://vice.mobileairport.net/''\<rparr>) (api_New 0 t))"
      "GetUsers odb (NodeID c) = Ok us" "ss_api server = c" "ports_exact server" "dom (ss_ports server) = {}"
      "doRun oe cr specs order order2 server us = (sys_server st, Ok ())"
      "ss_m server = SetBuildInfo newShadowsocksMetrics ''dev''"
    have s: "sys_server st = fst (doRun oe cr specs order order2 server us)" using a(6) by simp
    have books: "same_books server (sys_server st)" unfolding s by (rule doRun_books)
    then have "us = users" using a(2,3) start(3) by (simp add: same_books_def)
    moreover have "server_listed cr specs {} server" using a(5) by (simp add: server_listed_def)
    ultimately have "server_listed cr specs (sys_listed st) (sys_server st)"
      using doRun_listed [of cr specs "{}" server order2 us oe order] start(1,5) s by simp
    moreover have "ports_inv (sys_server st)" unfolding s using a(4) doRun_ports_inv by (simp add: ports_exact_def)
    moreover have "Rtask (ss_api (sys_server st)) = Rtask (api_New 0 t)" using books a(1,3) by (simp add: same_books_def)
    then have "books_balance st"
      using books a(7) start(4)
      by (simp add: books_balance_def same_books_def api_New_def user_U_def user_D_def billable_U_def billable_D_def
          newShadowsocksMetrics_def SetBuildInfo_def)
    ultimately show ?thesis by (simp add: sys_inv_def)
  qed
qed

text \<open>A server that \<open>main\<close> starts from a database with one user.\<close>

definition toy_database :: database where
  "toy_database = \<lparr>query_servers = \<lambda>q. Ok ([Inr (3, \<lparr>keys_Port = 1, keys_Cipher = ''AES-128-gcm''\<rparr>)], None),
     query_users = \<lambda>q. Ok ([Inr \<lparr>Nid = ''u1'', WgKey = ''pw'', key2_Port = 443\<rparr>], None)\<rparr>"

lemma toy_users: "GetUsers (Inr toy_database) nodeID = Ok [toy_key]"
  by (simp add: GetUsers_def toy_database_def mergeToUserEntry_def toy_key_def)

lemma toy_started:
  obtains st port where "sys_started toy_crypto toy_specs toy_api_env st" "ss_ports (sys_server st) 443 = Some port"
    "sys_listed st = {toy_key}" "ss_api (sys_server st) = api_New 0 0"
    "capacity (ss_replayCache (sys_server st)) = 0"
    "\<exists>es. port_keys (sys_server st) 443 = Some es \<and> list_all2 (key_entry toy_crypto toy_specs) [toy_key] es"
proof -
  let ?server = "\<lparr>ss_m = SetBuildInfo newShadowsocksMetrics ''dev'', ss_replayCache = \<lparr>capacity = 0, active = {}, archive = {}\<rparr>,
    ss_ports = Map.empty, ss_api = api_New 0 0, ss_tcp_open = {}, ss_udp_open = {}, ss_alloc = 0\<rparr>"
  have order: "map_order sorted_list_of_set" by (simp add: map_order_def)
  have "\<exists>s'. doRun toy_os toy_crypto toy_specs sorted_list_of_set id ?server [toy_key] = (s', Ok ()) \<and> ports_exact s' \<and>
      dom (ss_ports s') = Port ` set [toy_key] \<and>
    (\<forall>p \<in> Port ` set [toy_key]. \<exists>es. port_keys s' p = Some es \<and>
       list_all2 (key_entry toy_crypto toy_specs) (filter (\<lambda>k. Port k = p) [toy_key]) es) \<and>
    accessKeys (ss_m s') = int (length [toy_key]) \<and> ports_gauge (ss_m s') = int (card (Port ` set [toy_key]))"
    by (rule doRun_ok [OF order]) (simp_all add: toy_os_def os_ok_def ports_exact_def ports_inv_def toy_key_def toy_NewCipher)
  then obtain s where run: "doRun toy_os toy_crypto toy_specs sorted_list_of_set id ?server [toy_key] = (s, Ok ())"
    and dom: "dom (ss_ports s) = {443}"
    and keys: "\<exists>es. port_keys s 443 = Some es \<and> list_all2 (key_entry toy_crypto toy_specs) [toy_key] es" by (auto simp: toy_key_def)
  have books: "same_books ?server s" using doRun_books [of ?server toy_os toy_crypto toy_specs sorted_list_of_set id "[toy_key]"] run by simp
  let ?st = "\<lparr>sys_server = s, sys_hash = Map.empty, sys_reported = [], sys_listed = {toy_key}\<rparr>"
  have init: "api_Init (toy_api_env\<lparr>ae_APIHost := h, ae_LogHost := l\<rparr>) c = (Fail EOF, c)" for h l c
    by (simp add: toy_api_env_def api_Init_def)
  have "main_server toy_os toy_crypto toy_specs sorted_list_of_set id toy_api_env (Inr toy_database) 0 = Ok s"
    using run by (simp add: main_server_def RunSSServer_def NewReplayCache_def MaxCapacity_def toy_users init)
  then have "sys_started toy_crypto toy_specs toy_api_env ?st"
    unfolding sys_started_def using order toy_users
    by (intro exI [of _ toy_os] exI [of _ sorted_list_of_set] exI [of _ id] exI [of _ "Inr toy_database"] exI [of _ 0] exI [of _ "[toy_key]"]) simp
  moreover obtain port where "ss_ports s 443 = Some port" using dom by blast
  moreover have "ss_replayCache s = ss_replayCache ?server"
    using doRun_replayCache [of toy_os toy_crypto toy_specs sorted_list_of_set id ?server "[toy_key]"] run by simp
  ultimately show ?thesis using books keys by (intro that [of ?st port]) (simp_all add: same_books_def)
qed

end
