(* ===== verification/Server_Users.thy ===== *)
theory Server_Users
  imports Server_System
begin

text \<open>
  What loading a list of users means to a client: \<^verbatim>\<open>doRun\<close> of \<^verbatim>\<open>cmd/quick_ss/main.go\<close> composed with the handling of
  connections on the ports it opened. A user of the list is served end to end; everyone else is turned away.
\<close>

section \<open>The keys of a loaded port\<close>

lemma NewCipher_key_entry:
  "key_entry cr specs k e \<Longrightarrow> NewCipher cr specs (key_Cipher k) (Secret k) = Ok c \<Longrightarrow> e = MakeCipherEntry cr (key_ID k) c (Secret k)"
  by (auto simp: key_entry_def)

text \<open>After loading a list without duplicates, the port of a user has exactly one element for the user, and an element whose
  cipher opens some bytes belongs to a user of the port whose cipher opens them.\<close>

lemma loaded_port_element:
  assumes "port_keys s p = Some es" and "list_all2 (key_entry cr specs) (filter (\<lambda>k. Port k = p) users) es"
    and "distinct users" and "k \<in> set users" and "Port k = p" and "NewCipher cr specs (key_Cipher k) (Secret k) = Ok c"
  obtains port e where "ss_ports s p = Some port" "e \<in> set (cl_list (port_cipherList port))"
    "cl_entry (port_cipherList port) e = MakeCipherEntry cr (key_ID k) c (Secret k)"
    "\<And>e'. e' \<in> set (cl_list (port_cipherList port)) \<Longrightarrow>
       \<exists>k' \<in> set users. Port k' = p \<and> NewCipher cr specs (key_Cipher k') (Secret k') = Ok (entry_Cipher (cl_entry (port_cipherList port) e')) \<and>
         (k' = k \<longrightarrow> e' = e)"
proof -
  from assms(1) obtain port where port: "ss_ports s p = Some port"
    and es: "es = map (cl_entry (port_cipherList port)) (cl_list (port_cipherList port))" by (auto simp: port_keys_def)
  let ?ks = "filter (\<lambda>k. Port k = p) users" and ?l = "cl_list (port_cipherList port)"
  have len: "length ?ks = length ?l" using list_all2_lengthD [OF assms(2)] es by simp
  have at: "key_entry cr specs (?ks ! i) (cl_entry (port_cipherList port) (?l ! i))" if "i < length ?l" for i
    using list_all2_nthD [OF assms(2), of i] that len es by simp
  have "k \<in> set ?ks" using assms(4,5) by simp
  then obtain j where j: "j < length ?l" "?ks ! j = k" unfolding in_set_conv_nth len by blast
  show ?thesis
  proof (rule that [OF port])
    show "?l ! j \<in> set ?l" using j(1) by simp
    show "cl_entry (port_cipherList port) (?l ! j) = MakeCipherEntry cr (key_ID k) c (Secret k)"
      by (rule NewCipher_key_entry [OF _ assms(6)]) (use at [OF j(1)] j(2) in simp)
  next
    fix e'
    assume "e' \<in> set ?l"
    then obtain i where i: "i < length ?l" "?l ! i = e'" by (auto simp: in_set_conv_nth)
    have mem: "?ks ! i \<in> set ?ks" using i(1) len by (metis nth_mem)
    from at [OF i(1)] i(2) have "NewCipher cr specs (key_Cipher (?ks ! i)) (Secret (?ks ! i)) = Ok (entry_Cipher (cl_entry (port_cipherList port) e'))"
      by (auto simp: key_entry_def)
    moreover have "e' = ?l ! j" if "?ks ! i = k"
    proof -
      have "distinct ?ks" using assms(3) by simp
      with that j i(1) len have "i = j" by (metis nth_eq_iff_index_eq)
      with i(2) show ?thesis by simp
    qed
    ultimately show "\<exists>k' \<in> set users. Port k' = p \<and>
        NewCipher cr specs (key_Cipher k') (Secret k') = Ok (entry_Cipher (cl_entry (port_cipherList port) e')) \<and>
        (k' = k \<longrightarrow> e' = ?l ! j)"
      using mem by (intro bexI [of _ "?ks ! i"]) auto
  qed
qed

section \<open>Properties\<close>

lemma doRun_loaded:
  assumes "map_order order" and "\<And>xs. mset (order2 xs) = mset xs" and "os_ok oe" and "ports_exact s"
    and "\<forall>k \<in> set users. \<exists>c. NewCipher cr specs (key_Cipher k) (Secret k) = Ok c"
  obtains s' where "doRun oe cr specs order order2 s users = (s', Ok ())" "ports_exact s'" "dom (ss_ports s') = Port ` set users"
    "\<And>p. p \<in> Port ` set users \<Longrightarrow> \<exists>es. port_keys s' p = Some es \<and>
       list_all2 (key_entry cr specs) (filter (\<lambda>k. Port k = p) users) es"
proof (rule exE [OF doRun_ok [OF assms]], elim conjE)
  fix s'
  assume a: "doRun oe cr specs order order2 s users = (s', Ok ())" "ports_exact s'" "dom (ss_ports s') = Port ` set users"
    "\<forall>p \<in> Port ` set users. \<exists>es. port_keys s' p = Some es \<and>
       list_all2 (key_entry cr specs) (filter (\<lambda>k. Port k = p) users) es"
  show thesis by (rule that [OF a(1-3) bspec [OF a(4)]])
qed

text \<open>C4: Whoever is not listed is turned away. After a list was loaded, a port on which no user is listed is closed; on every
  other port, a connection whose first bytes authenticate under the cipher of no user of that port, as those of a user
  that was removed from the list, is read to its end without any answer, target, traffic record or change of the
  keys.\<close>

theorem unlisted_user_refused:
  assumes "map_order order" and "\<And>xs. mset (order2 xs) = mset xs" and "os_ok oe" and "ports_exact s"
    and "\<forall>k \<in> set users. \<exists>c. NewCipher cr specs (key_Cipher k) (Secret k) = Ok c"
    and "crypto_ok cr" and "supportedAEADs cr = Ok specs" and "env_crypto env = cr" and "eof_chained (conn_reader conn)"
    and "\<forall>k \<in> set users. \<forall>c. Port k = p \<longrightarrow> NewCipher cr specs (key_Cipher k) (Secret k) = Ok c \<longrightarrow>
      \<not> opens cr (take 50 (contents (conn_reader conn))) c"
  shows "\<exists>s'. doRun oe cr specs order order2 s users = (s', Ok ()) \<and>
    (p \<notin> Port ` set users \<longrightarrow> p \<notin> ss_tcp_open s' \<and> p \<notin> ss_udp_open s') \<and>
    (p \<in> Port ` set users \<longrightarrow> (\<exists>port out. ss_ports s' p = Some port \<and>
       handleConnection env (port_tcp s' port) conn = Some (Ok out) \<and> out_status out = ''ERR_CIPHER'' \<and>
       out_client out = conn_writer conn \<and> out_target out = None \<and> contents (out_unread out) = [] \<and>
       tcp_ciphers (out_service out) = port_cipherList port \<and> tcp_api (out_service out) = ss_api s'))"
proof -
  obtain s' where run: "doRun oe cr specs order order2 s users = (s', Ok ())"
    and exact: "ports_exact s'" "dom (ss_ports s') = Port ` set users"
    and keys: "\<And>p. p \<in> Port ` set users \<Longrightarrow> \<exists>es. port_keys s' p = Some es \<and>
       list_all2 (key_entry cr specs) (filter (\<lambda>k. Port k = p) users) es"
    by (rule doRun_loaded [OF assms(1-5)]) blast
  have closed: "p \<notin> ss_tcp_open s' \<and> p \<notin> ss_udp_open s'" if "p \<notin> Port ` set users"
    using that exact by (simp add: ports_exact_def ports_inv_def)
  have served: "\<exists>port out. ss_ports s' p = Some port \<and>
       handleConnection env (port_tcp s' port) conn = Some (Ok out) \<and> out_status out = ''ERR_CIPHER'' \<and>
       out_client out = conn_writer conn \<and> out_target out = None \<and> contents (out_unread out) = [] \<and>
       tcp_ciphers (out_service out) = port_cipherList port \<and> tcp_api (out_service out) = ss_api s'"
    if "p \<in> Port ` set users"
  proof -
    from keys [OF that] obtain port where port: "ss_ports s' p = Some port"
      and all2: "list_all2 (key_entry cr specs) (filter (\<lambda>k. Port k = p) users)
        (map (cl_entry (port_cipherList port)) (cl_list (port_cipherList port)))" by (auto simp: port_keys_def)
    have entry: "\<exists>k \<in> set users. Port k = p \<and>
        NewCipher cr specs (key_Cipher k) (Secret k) = Ok (entry_Cipher (cl_entry (port_cipherList port) e))"
      if "e \<in> set (cl_list (port_cipherList port))" for e
      using list_all2_mem2 [OF all2, of "cl_entry (port_cipherList port) e"] that by (auto simp: key_entry_def)
    then have ok: "keys_ok cr (port_cipherList port)"
      using NewCipher_cipher_ok [OF assms(6,7)] unfolding keys_ok_def by blast
    have "\<forall>e \<in> set (cl_list (port_cipherList port)).
        \<not> opens cr (take 50 (contents (conn_reader conn))) (entry_Cipher (cl_entry (port_cipherList port) e))"
      using entry assms(10) by blast
    with handle_probe [of env "port_tcp s' port" conn] ok assms(8,9) port show ?thesis by (auto simp: port_tcp_def)
  qed
  from run closed served show ?thesis by blast
qed

lemma toy_load:
  "map_order sorted_list_of_set" "mset (id xs) = mset xs" "os_ok toy_os" "ports_exact toy_server"
  "\<forall>k \<in> set [toy_key]. \<exists>c. NewCipher toy_crypto toy_specs (key_Cipher k) (Secret k) = Ok c"
  "distinct [toy_key]" "toy_key \<in> set [toy_key]" "key_ID toy_key \<noteq> ''''"
  "NewCipher toy_crypto toy_specs (key_Cipher toy_key) (Secret toy_key) = Ok toy_cipher"
  by (simp_all add: map_order_def toy_os_def os_ok_def toy_server_def ports_exact_def ports_inv_def toy_key_def toy_NewCipher)

theorem unlisted_user_refused_witness:
  "\<exists>s' port out. doRun toy_os toy_crypto toy_specs sorted_list_of_set id toy_server [toy_key] = (s', Ok ()) \<and>
     ss_ports s' 443 = Some port \<and> handleConnection toy_env (port_tcp s' port) (toy_conn [[1, 2], [3]] EOF) = Some (Ok out) \<and>
     out_status out = ''ERR_CIPHER'' \<and> wout (out_client out) = []"
proof -
  have env: "env_crypto toy_env = toy_crypto" by (simp add: toy_env_def)
  have conn: "eof_chained (conn_reader (toy_conn [[1, 2], [3]] EOF))" "conn_writer (toy_conn [[1, 2], [3]] EOF) = \<lparr>wout = [], wplan = []\<rparr>"
    by (simp_all add: toy_conn_def)
  obtain A where A: "NewAEAD toy_crypto toy_cipher [1, 2, 3] = Ok A" "aead_ok A" "NonceSize A = 12" "Overhead A = 16"
    by (rule cipher_okE [OF toy_cipher_ok])
  then have "Open A zeroNonce [] = None" using aead_ok_open [OF A(2), of zeroNonce "[]"] by (cases "Open A zeroNonce []") auto
  then have "\<not> opens toy_crypto (take 50 (contents (conn_reader (toy_conn [[1, 2], [3]] EOF)))) toy_cipher"
    using A by (simp add: toy_conn_def opens_def DecryptOnce_cases subslice_def)
  then have "\<forall>k \<in> set [toy_key]. \<forall>c. Port k = 443 \<longrightarrow> NewCipher toy_crypto toy_specs (key_Cipher k) (Secret k) = Ok c \<longrightarrow>
      \<not> opens toy_crypto (take 50 (contents (conn_reader (toy_conn [[1, 2], [3]] EOF)))) c"
    using toy_load(9) by auto
  from unlisted_user_refused [where ?order2.0 = id, OF toy_load(1-5) toy_crypto_ok toy_specs env conn(1) this]
  show ?thesis by (auto simp: toy_key_def conn(2))
qed

text \<open>C1: Whoever is listed is served, end to end. A list without duplicates is loaded, and the client of one of its users dials
  with the user's cipher and secret through a connection to the user's port; no other user of the port has a key that
  opens what it sends, and its salt is new and not a server's. Whatever the application then writes, the connection ends
  with status OK, the target receives exactly that, the client reads exactly what the target answers, and the traffic
  records of this user grow by exactly these two lengths.\<close>

theorem listed_user_served:
  assumes load: "map_order order" "\<And>xs. mset (order2 xs) = mset xs" "os_ok oe" "ports_exact s"
      "\<forall>k \<in> set users. \<exists>c. NewCipher cr specs (key_Cipher k) (Secret k) = Ok c" "distinct users"
    and user: "k \<in> set users" "key_ID k \<noteq> ''''" "NewCipher cr specs (key_Cipher k) (Secret k) = Ok c"
    and base: "crypto_ok cr" "supportedAEADs cr = Ok specs" "env_crypto env = cr" "env_pool env = readBufPool specs"
      "ce_crypto ce = cr" "ce_pool ce = readBufPool specs"
    and client: "sd_cipher d = c" "ce_ParseAddr ce remoteAddr = Some a"
      "sd_endpoint d = Inr \<lparr>px_reader = ConnReader segs EOF, px_writer = \<lparr>wout = [], wplan = []\<rparr>, px_closed = False\<rparr>"
      "GetSalt cr (dial_salter d) ent (make_bytes (SaltSize c)) = Ok salt"
      "client_Dial ce ent d remoteAddr = (Ok (duplexConnAdaptor conn0 ssr ssw), px)"
    and ops: "list_all op_ok xs" "length (a @ concat (map op_input xs)) < 2 ^ 95"
      "writer_run cr ent (xs @ [OpFlush]) ssw = Ok sw'"
    and link: "contents (lift_deadline (conn_later conn) (conn_reader conn)) = concat (wout (sw_writer sw'))"
      "final_error (lift_deadline (conn_later conn) (conn_reader conn)) = EOF"
      "eof_chained (conn_reader conn)" "50 \<le> length (contents (conn_reader conn))"
      "\<forall>k' \<in> set users. \<forall>c'. Port k' = Port k \<longrightarrow> NewCipher cr specs (key_Cipher k') (Secret k') = Ok c' \<longrightarrow>
         opens cr (take 50 (contents (conn_reader conn))) c' \<longrightarrow> k' = k"
    and new: "\<not> IsServerSalt cr (entry_SaltGenerator (MakeCipherEntry cr (key_ID k) c (Secret k))) salt"
      "fst (Add (Some (ss_replayCache s)) (key_ID k) salt)"
    and contract: "\<And>r a' r'. env_ReadAddr env r = (Ok a', r') \<Longrightarrow>
      \<exists>ns. conv_reads (\<lambda>x. ReadChunk cr (env_pick env (cr_pool x)) x) r ns = Some (a', r')"
    and addr: "fst (env_ReadAddr env (NewShadowsocksReader (readBufPool specs) (replayed_reader conn) c)) = Ok a"
    and dial: "dialTarget RequirePublicIP (fst (env_dial env (env_addr_String env a)))
      (snd (env_dial env (env_addr_String env a))) = Inr (ip, tgt)"
    and tgt: "good_target tgt" and cw: "wout (conn_writer conn) = []" "writes_all (conn_writer conn)"
    and salt2: "GetSalt cr (entry_SaltGenerator (MakeCipherEntry cr (key_ID k) c (Secret k))) (env_entropy env)
      (make_bytes (SaltSize c)) = Ok salt2"
  shows "\<exists>s' port out w. doRun oe cr specs order order2 s users = (s', Ok ()) \<and> ss_ports s' (Port k) = Some port \<and>
    handleConnection env (port_tcp s' port) conn = Some (Ok out) \<and> out_status out = ''OK'' \<and>
    out_target out = Some (ip, w) \<and> concat (wout w) = concat (map op_input xs) \<and>
    (concat segs = concat (wout (out_client out)) \<longrightarrow> writes_all app \<longrightarrow>
       (\<exists>c' app'. conv_WriteTo (\<lambda>x. ReadChunk cr (pick x) x) ssr app 0 =
            Some (Ok (length (contents (tgt_reader tgt)), None), c', app') \<and>
          concat (wout app') = concat (wout app) @ contents (tgt_reader tgt))) \<and>
    user_U (key_ID k) (r_RepoList (Rtask (tcp_api (out_service out)))) =
      user_U (key_ID k) (r_RepoList (Rtask (ss_api s))) + word_of_nat (length (concat (map op_input xs))) \<and>
    user_D (key_ID k) (r_RepoList (Rtask (tcp_api (out_service out)))) =
      user_D (key_ID k) (r_RepoList (Rtask (ss_api s))) + word_of_nat (length (contents (tgt_reader tgt)))"
proof -
  obtain s' where run: "doRun oe cr specs order order2 s users = (s', Ok ())"
    and keys: "\<And>p. p \<in> Port ` set users \<Longrightarrow> \<exists>es. port_keys s' p = Some es \<and>
       list_all2 (key_entry cr specs) (filter (\<lambda>k. Port k = p) users) es"
    by (rule doRun_loaded [OF load(1-5)]) blast
  have kept: "ss_replayCache s' = ss_replayCache s" "ss_api s' = ss_api s"
    using doRun_replayCache [of oe cr specs order order2 s users] doRun_books [of s oe cr specs order order2 users] run
    by (simp_all add: same_books_def)
  have "Port k \<in> Port ` set users" using user(1) by blast
  from keys [OF this] obtain es where es: "port_keys s' (Port k) = Some es"
    "list_all2 (key_entry cr specs) (filter (\<lambda>k'. Port k' = Port k) users) es" by blast
  obtain port e where port: "ss_ports s' (Port k) = Some port" and e: "e \<in> set (cl_list (port_cipherList port))"
    and entry: "cl_entry (port_cipherList port) e = MakeCipherEntry cr (key_ID k) c (Secret k)"
    and others: "\<And>e'. e' \<in> set (cl_list (port_cipherList port)) \<Longrightarrow>
       \<exists>k' \<in> set users. Port k' = Port k \<and> NewCipher cr specs (key_Cipher k') (Secret k') = Ok (entry_Cipher (cl_entry (port_cipherList port) e')) \<and>
         (k' = k \<longrightarrow> e' = e)"
    by (rule loaded_port_element [OF es load(6) user(1) refl user(3)]) blast
  let ?t = "port_tcp s' port" and ?p = "remoteIP (env_host_ip env) (conn_remote conn)"
  let ?entry = "cl_entry (MarkUsedByClientIP (tcp_ciphers ?t) e ?p) e"
  have t: "tcp_ciphers ?t = port_cipherList port" "tcp_replayCache ?t = Some (ss_replayCache s)"
    "tcp_targetIPValidator ?t = RequirePublicIP" "tcp_api ?t = ss_api s"
    by (simp_all add: port_tcp_def kept)
  obtain x where x: "x = ?entry" by simp
  then have en: "ID x = key_ID k" "entry_Cipher x = c"
    "entry_SaltGenerator x = entry_SaltGenerator (MakeCipherEntry cr (key_ID k) c (Secret k))"
    by (simp_all add: t entry)
  have ok: "keys_ok (env_crypto env) (tcp_ciphers ?t)"
    unfolding t base(3) keys_ok_def using others NewCipher_cipher_ok [OF base(1,2)] by blast
  have only: "e' = e" if "e' \<in> set (cl_list (tcp_ciphers ?t))"
    "opens (env_crypto env) (take 50 (contents (conn_reader conn))) (entry_Cipher (cl_entry (tcp_ciphers ?t) e'))" for e'
    using others [of e'] link(5) that unfolding t base(3) by blast
  from tunnel_ok [where env = env and ce = ce and d = d and s = ?t and entry = x and app = app and pick = pick, unfolded en t base(3) base(5) client(1),
    OF base(1,2,4) refl base(6) ok [unfolded t base(3)] e x [unfolded t] user(2) refl client(2-5) ops link(1-4)
      only [unfolded t base(3)] new contract addr [folded base(4)] dial tgt cw salt2]
  obtain out w where "handleConnection env ?t conn = Some (Ok out)" "out_status out = ''OK''" "out_target out = Some (ip, w)"
    "concat (wout w) = concat (map op_input xs)"
    "concat segs = concat (wout (out_client out)) \<longrightarrow> writes_all app \<longrightarrow>
       (\<exists>c' app'. conv_WriteTo (\<lambda>x. ReadChunk cr (pick x) x) ssr app 0 =
            Some (Ok (length (contents (tgt_reader tgt)), None), c', app') \<and>
          concat (wout app') = concat (wout app) @ contents (tgt_reader tgt))"
    "user_U (key_ID k) (r_RepoList (Rtask (tcp_api (out_service out)))) =
      user_U (key_ID k) (r_RepoList (Rtask (ss_api s))) + word_of_nat (length (concat (map op_input xs)))"
    "user_D (key_ID k) (r_RepoList (Rtask (tcp_api (out_service out)))) =
      user_D (key_ID k) (r_RepoList (Rtask (ss_api s))) + word_of_nat (length (contents (tgt_reader tgt)))"
    by blast
  with run port show ?thesis by (intro exI [of _ s'] exI [of _ port] exI [of _ out] exI [of _ w] conjI)
qed

theorem listed_user_served_witness:
  "\<exists>ssr ssw sw' k px s' port out w. client_Dial toy_client_env (Inr (\<lambda>_. 0)) toy_dialer ''dns:53'' = (Ok (duplexConnAdaptor k ssr ssw), px) \<and>
     writer_run toy_crypto (Inr (\<lambda>_. 0)) ([OpWrite False [2, 3]] @ [OpFlush]) ssw = Ok sw' \<and>
     doRun toy_os toy_crypto toy_specs sorted_list_of_set id toy_server [toy_key] = (s', Ok ()) \<and> ss_ports s' 443 = Some port \<and>
     handleConnection toy_env (port_tcp s' port) (toy_conn [concat (wout (sw_writer sw'))] EOF) = Some (Ok out) \<and>
     concat (wout w) = [2, 3] \<and> out_target out = Some ([8, 8, 8, 8], w) \<and>
     user_U ''u1'' (r_RepoList (Rtask (tcp_api (out_service out)))) = 2"
proof -
  obtain A ssw sw' ps k px where run: "NewAEAD toy_crypto toy_cipher toy_client_salt = Ok A"
    "client_Dial toy_client_env (Inr (\<lambda>_. 0)) toy_dialer ''dns:53'' =
       (Ok (duplexConnAdaptor k (NewShadowsocksReader (readBufPool toy_specs) (ConnReader [] EOF) toy_cipher) ssw), px)"
    "writer_run toy_crypto (Inr (\<lambda>_. 0)) ([OpWrite False [2, 3]] @ [OpFlush]) ssw = Ok sw'"
    "list_all chunk_ok ps" "ps \<noteq> []" "concat ps = [1] @ [2, 3]" "concat (wout (sw_writer sw')) = wire A toy_client_salt ps"
    "50 \<le> length (wire A toy_client_salt ps)"
    by (rule toy_client_session)
  let ?conn = "toy_conn [concat (wout (sw_writer sw'))] EOF"
  let ?entry = "MakeCipherEntry toy_crypto (key_ID toy_key) toy_cipher (Secret toy_key)"
  have gen: "entry_SaltGenerator ?entry = RandomServerSaltGenerator"
    by (simp add: MakeCipherEntry_def serverSaltMarkLen_def minSaltEntropy_def)
  have hc: "honest_client toy_crypto toy_list ?conn 7 toy_client_salt A ps"
    using run by (simp add: honest_client_def toy_conn_def)
  have addr: "fst (toy_ReadAddr (NewShadowsocksReader (readBufPool toy_specs) (replayed_reader ?conn) toy_cipher)) = Ok [1]"
    using toy_address_of [OF hc, of "[2, 3]"] run(6) by simp
  have link: "contents (lift_deadline (conn_later ?conn) (conn_reader ?conn)) = concat (wout (sw_writer sw'))"
    "final_error (lift_deadline (conn_later ?conn) (conn_reader ?conn)) = EOF" "eof_chained (conn_reader ?conn)"
    "50 \<le> length (contents (conn_reader ?conn))"
    using run(7,8) by (simp_all add: toy_conn_def)
  have new: "\<not> IsServerSalt toy_crypto (entry_SaltGenerator ?entry) toy_client_salt"
    "fst (Add (Some (ss_replayCache toy_server)) (key_ID toy_key) toy_client_salt)"
    by (simp_all add: gen Add_def randomServerSaltGenerator_IsServerSalt_def toy_server_def)
  have env: "env_crypto toy_env = toy_crypto" "env_pool toy_env = readBufPool toy_specs" by (simp_all add: toy_env_def)
  have only: "\<forall>k' \<in> set [toy_key]. \<forall>c'. Port k' = Port toy_key \<longrightarrow> NewCipher toy_crypto toy_specs (key_Cipher k') (Secret k') = Ok c' \<longrightarrow>
      opens toy_crypto (take 50 (contents (conn_reader ?conn))) c' \<longrightarrow> k' = toy_key" by simp
  have reply: "GetSalt toy_crypto (entry_SaltGenerator ?entry) (env_entropy toy_env) (make_bytes (SaltSize toy_cipher)) = Ok (map (\<lambda>_. 9) [0..<16])"
    unfolding gen using toy_reply_salt by (simp add: toy_env_simps)
  have pend: "user_U ''u1'' (r_RepoList (Rtask (ss_api toy_server))) = 0" by (simp add: toy_server_def api_New_def user_U_def)
  have dial: "dialTarget RequirePublicIP (fst (env_dial toy_env (env_addr_String toy_env [1])))
      (snd (env_dial toy_env (env_addr_String toy_env [1]))) = Inr ([8, 8, 8, 8], toy_target)"
    using toy_dial by (simp add: toy_service_def)
  from listed_user_served [where cr = toy_crypto and specs = toy_specs and ?order2.0 = id and xs = "[OpWrite False [2, 3]]" and conn = ?conn and ce = toy_client_env and d = toy_dialer and remoteAddr = "''dns:53''" and env = toy_env and app = "\<lparr>wout = [], wplan = []\<rparr>" and pick = "\<lambda>_. 0",
      unfolded toy_client_simps toy_env_simps,
      OF toy_load toy_crypto_ok toy_specs refl refl refl refl refl refl refl toy_client_salt run(2) _ _ run(3) link only new toy_contract addr dial
        toy_target_ok _ _ reply [unfolded toy_env_simps]]
  have "\<exists>s' port out w. doRun toy_os toy_crypto toy_specs sorted_list_of_set id toy_server [toy_key] = (s', Ok ()) \<and> ss_ports s' 443 = Some port \<and>
     handleConnection toy_env (port_tcp s' port) ?conn = Some (Ok out) \<and> concat (wout w) = [2, 3] \<and> out_target out = Some ([8, 8, 8, 8], w) \<and>
     user_U ''u1'' (r_RepoList (Rtask (tcp_api (out_service out)))) = 2"
    by (auto simp: toy_key_def pend toy_conn_def writes_all_def)
  with run(2,3) show ?thesis by blast
qed

end
