(* ===== verification/Server_Flight.thy ===== *)
theory Server_Flight
  imports Server_Accounts
begin

text \<open>
  The accounts of connections that are still being handled. The relay goroutines of \<^verbatim>\<open>service/tcp.go\<close> record their traffic for
  the panel when they end, the metrics count it when the handler ends; in between, the traffic is in flight. The lemmas say for
  every step of a handler that what the step adds to the two books differs by what it adds to the traffic in flight.
\<close>

section \<open>What the goroutines have counted\<close>

fun up_counts :: "writer \<Rightarrow> up_thread \<Rightarrow> bool" where
  "up_counts w0 (UpCopy ssr w n) \<longleftrightarrow> length (concat (wout w)) = n + length (concat (wout w0))"
| "up_counts w0 (UpDrain n e r w) \<longleftrightarrow> length (concat (wout w)) = n + length (concat (wout w0))"
| "up_counts w0 (UpRecord n e r w) \<longleftrightarrow> length (concat (wout w)) = n + length (concat (wout w0))"
| "up_counts w0 (UpDone n e r w) \<longleftrightarrow> length (concat (wout w)) = n + length (concat (wout w0))"
| "up_counts w0 (UpPanic m) \<longleftrightarrow> True"

fun down_counts :: "reader \<Rightarrow> down_thread \<Rightarrow> bool" where
  "down_counts r0 (DownCopy A sw r n) \<longleftrightarrow> n + length (contents r) = length (contents r0)"
| "down_counts r0 (DownRecord n e sw r) \<longleftrightarrow> n + length (contents r) = length (contents r0)"
| "down_counts r0 (DownDone n e sw r) \<longleftrightarrow> n + length (contents r) = length (contents r0)"
| "down_counts r0 t \<longleftrightarrow> True"

lemma up_counts_step: "up_counts w0 t \<Longrightarrow> up_counts w0 (up_step env t)"
proof (cases t)
  case (UpCopy ssr w n)
  assume counts: "up_counts w0 t"
  obtain x ssr1 where el: "ensureLeftover (up_chunks env) ssr = (x, ssr1)" by (cases "ensureLeftover (up_chunks env) ssr")
  obtain k err w1 where wr: "Write w (leftover ssr1) = (k, err, w1)" by (cases "Write w (leftover ssr1)")
  from Write_bound [OF wr] counts UpCopy el wr show ?thesis
    by (cases x; cases err) (auto simp: Let_def min_absorb2)
next
  case (UpDrain n e r w)
  assume "up_counts w0 t"
  with UpDrain show ?thesis by (auto split: prod.split option.split)
qed simp_all

lemma down_counts_step: "down_counts r0 t \<Longrightarrow> down_counts r0 (down_step t)"
proof (cases t)
  case (DownCopy A sw r n)
  assume counts: "down_counts r0 t"
  obtain d er r1 where rd: "Read r payloadSizeMask = (d, er, r1)" by (cases "Read r payloadSizeMask")
  from Read_moves [OF rd] counts DownCopy rd show ?thesis by (auto split: prod.split option.split)
qed simp_all

lemma down_counts_start: "\<not> needFlush ssw \<Longrightarrow> down_counts r (down_start env ssw r)"
proof -
  assume "\<not> needFlush ssw"
  then have "\<not> needFlush sw1" if "writer_init (env_crypto env) (env_entropy env) ssw = Ok (ierr, sw1)" for ierr sw1
    using that by (auto simp: writer_init_def Let_def split: option.splits result.splits)
  then show ?thesis by (auto simp: down_start_def split: result.split option.split prod.split)
qed

lemma server_writer_plain: "\<not> needFlush (server_writer entry conn)"
  by (simp add: server_writer_def SetSaltGenerator_def NewShadowsocksWriter_def)

fun handler_counts :: "handler \<Rightarrow> bool" where
  "handler_counts (HFound ak entry) \<longleftrightarrow> ak_id ak = ID entry"
| "handler_counts (HServe entry uid r) \<longleftrightarrow> uid = ID entry"
| "handler_counts (HVisit entry uid a ssr) \<longleftrightarrow> uid = ID entry"
| "handler_counts (HRelay entry uid target rr) \<longleftrightarrow>
     uid = ID entry \<and> up_counts (tgt_writer (snd target)) (rr_up rr) \<and> down_counts (tgt_reader (snd target)) (rr_down rr)"
| "handler_counts (HFinish i st data out) \<longleftrightarrow> 0 \<le> ProxyTarget data \<and> 0 \<le> TargetProxy data"
| "handler_counts h \<longleftrightarrow> True"

section \<open>Traffic in flight\<close>

text \<open>What the goroutines have recorded.\<close>

fun up_amount :: "up_thread \<Rightarrow> nat" where
  "up_amount (UpDone n err r w) = n"
| "up_amount t = 0"

fun down_amount :: "down_thread \<Rightarrow> nat" where
  "down_amount (DownDone n err sw r) = n"
| "down_amount t = 0"

text \<open>What a handler has recorded for user \<open>i\<close> and not yet counted in the metrics.\<close>

fun flight_U :: "string \<Rightarrow> handler \<Rightarrow> 64 word" where
  "flight_U i (HRelay entry uid target rr) =
     (if uid = i then word_of_nat (up_amount (rr_up rr)) else 0)"
| "flight_U i (HFinish k st data out) = (if k = i then word_of_int (ProxyTarget data) else 0)"
| "flight_U i h = 0"

fun flight_D :: "string \<Rightarrow> handler \<Rightarrow> 64 word" where
  "flight_D i (HRelay entry uid target rr) =
     (if uid = i then word_of_nat (down_amount (rr_down rr)) else 0)"
| "flight_D i (HFinish k st data out) = (if k = i then word_of_int (TargetProxy data) else 0)"
| "flight_D i h = 0"

text \<open>The changes of the two books differ by the change of what is in flight.\<close>

definition flight_equal :: "tcpService \<Rightarrow> handler \<Rightarrow> tcpService \<Rightarrow> handler \<Rightarrow> bool" where
  "flight_equal s h s' h' \<longleftrightarrow>
     (\<forall>i. i \<noteq> '''' \<longrightarrow>
        user_U i (r_RepoList (Rtask (tcp_api s'))) - user_U i (r_RepoList (Rtask (tcp_api s))) =
          word_of_int (billable_U (tcp_m s') i - billable_U (tcp_m s) i) + (flight_U i h' - flight_U i h) \<and>
        user_D i (r_RepoList (Rtask (tcp_api s'))) - user_D i (r_RepoList (Rtask (tcp_api s))) =
          word_of_int (billable_D (tcp_m s') i - billable_D (tcp_m s) i) + (flight_D i h' - flight_D i h))"

lemma flight_equal_local:
  "Rtask (tcp_api s') = Rtask (tcp_api s) \<Longrightarrow>
   (\<And>i. billable_U (tcp_m s') i = billable_U (tcp_m s) i \<and> billable_D (tcp_m s') i = billable_D (tcp_m s) i) \<Longrightarrow>
   (\<And>i. flight_U i h' = flight_U i h \<and> flight_D i h' = flight_D i h) \<Longrightarrow> flight_equal s h s' h'"
  by (simp add: flight_equal_def)

lemma up_amount_running: "\<not> up_ended t \<Longrightarrow> up_amount t = 0"
  by (cases t) simp_all

lemma down_amount_running: "\<not> down_ended t \<Longrightarrow> down_amount t = 0"
  by (cases t) simp_all

lemma up_step_amount:
  assumes "\<not> up_ended t" and "\<And>i err r w. t \<noteq> UpRecord i err r w"
  shows "up_amount (up_step env t) = 0"
proof (cases "up_ended (up_step env t)")
  case True
  with up_step_not_record [OF assms] obtain m where "up_step env t = UpPanic m" by blast
  then show ?thesis by simp
qed (rule up_amount_running)

lemma down_step_amount:
  "\<not> down_ended t \<Longrightarrow> (\<And>i err sw r. t \<noteq> DownRecord i err sw r) \<Longrightarrow> down_amount (down_step t) = 0"
  by (rule down_amount_running) (rule down_step_not_record)

section \<open>Steps of the goroutines\<close>

lemma relay_step_counts:
  assumes "relay_step env uid rr rr'" and "up_counts w0 (rr_up rr)" and "down_counts r0 (rr_down rr)"
  shows "up_counts w0 (rr_up rr') \<and> down_counts r0 (rr_down rr')"
  using assms(1) by (rule relay_stepE) (use assms(2,3) up_counts_step down_counts_step in simp_all)

lemma relay_step_flight:
  assumes "relay_step env uid (rr\<lparr>rr_api := tcp_api s\<rparr>) rr'"
  shows "flight_equal s (HRelay entry uid target rr) (s\<lparr>tcp_api := rr_api rr'\<rparr>) (HRelay entry uid target rr')"
  using assms
proof (rule relay_stepE)
  let ?rr = "rr\<lparr>rr_api := tcp_api s\<rparr>"
  assume rr': "rr' = step_up env uid ?rr" and run: "\<not> up_ended (rr_up ?rr)"
  show ?thesis
  proof (cases "\<exists>i err r w. rr_up rr = UpRecord i err r w")
    case True
    then obtain n err r w where "rr_up rr = UpRecord n err r w" by blast
    then show ?thesis by (auto simp: flight_equal_def rr' step_up_def AddRepo_user)
  next
    case False
    then have same: "rr' = ?rr\<lparr>rr_up := up_step env (rr_up rr)\<rparr>" by (simp add: rr' step_up_def split: up_thread.split)
    have "up_amount (up_step env (rr_up rr)) = 0" by (rule up_step_amount) (use False run in auto)
    moreover have "up_amount (rr_up rr) = 0" by (rule up_amount_running) (use run in simp)
    ultimately show ?thesis by (intro flight_equal_local) (simp_all add: same)
  qed
next
  let ?rr = "rr\<lparr>rr_api := tcp_api s\<rparr>"
  assume rr': "rr' = step_down uid ?rr" and run: "\<not> down_ended (rr_down ?rr)"
  show ?thesis
  proof (cases "\<exists>i err sw r. rr_down rr = DownRecord i err sw r")
    case True
    then obtain n err sw r where "rr_down rr = DownRecord n err sw r" by blast
    then show ?thesis by (auto simp: flight_equal_def rr' step_down_def AddRepo_user)
  next
    case False
    then have same: "rr' = ?rr\<lparr>rr_down := down_step (rr_down rr)\<rparr>" by (simp add: rr' step_down_def split: down_thread.split)
    have "down_amount (down_step (rr_down rr)) = 0" by (rule down_step_amount) (use False run in auto)
    moreover have "down_amount (rr_down rr) = 0" by (rule down_amount_running) (use run in simp)
    ultimately show ?thesis by (intro flight_equal_local) (simp_all add: same)
  qed
qed

text \<open>The steps of the handler's own goroutine, phase by phase: only the last one changes an amount of the metrics, and only
  by what was in flight.\<close>

lemma search_flight:
  assumes "search_step env conn s cl0 = Some (s', h')"
  shows "flight_equal s (HSearch cl0) s' h' \<and> handler_counts h'"
proof -
  from assms obtain r where r: "findAccessKey (env_crypto env) (conn_reader conn) (client_ip env conn) cl0 = r" by blast
  show ?thesis
  proof (cases r)
    case (Ok x)
    obtain ak cl' where x: "x = (ak, cl')" by fastforce
    from r Ok x have "findAccessKey (env_crypto env) (conn_reader conn) (client_ip env conn) cl0 = Ok (ak, cl')" by simp
    then show ?thesis
    proof (cases rule: findAccessKey_cases)
      case none
      with assms r Ok x show ?thesis by (auto simp: search_step_def intro!: flight_equal_local)
    next
      case (found e d r')
      with assms r Ok x show ?thesis by (auto simp: search_step_def intro!: flight_equal_local)
    qed
  qed (use assms r in \<open>auto simp: search_step_def intro!: flight_equal_local\<close>)
qed

lemma replay_flight:
  assumes "replay_step env s ak entry = (s', h')" and "ak_id ak = ID entry"
  shows "flight_equal s (HFound ak entry) s' h' \<and> handler_counts h'"
  using assms by (auto simp: replay_step_def intro!: flight_equal_local split: if_splits prod.splits)

lemma probe_flight:
  assumes "probe_step env conn s i st r = (s', h')"
  shows "flight_equal s (HProbe i st r) s' h' \<and> handler_counts h'"
  using assms by (auto simp: probe_step_def Let_def no_bytes_def intro!: flight_equal_local split: prod.splits)

lemma address_flight:
  "flight_equal s (HServe entry (ID entry) r) s (address_step env conn entry (ID entry) r) \<and>
   handler_counts (address_step env conn entry (ID entry) r)"
  by (auto simp: address_step_def no_bytes_def intro!: flight_equal_local split: prod.split result.split)

lemma down_start_amount [simp]: "down_amount (down_start env ssw r) = 0"
  by (auto simp: down_start_def split: result.split option.split prod.split)

lemma visit_flight:
  assumes "visit_step env conn s entry (ID entry) a ssr = (s', h')"
  shows "flight_equal s (HVisit entry (ID entry) a ssr) s' h' \<and> handler_counts h'"
proof -
  obtain atts err where d: "env_dial env (env_addr_String env a) = (atts, err)" by fastforce
  show ?thesis
  proof (cases "dialTarget (tcp_targetIPValidator s) atts err")
    case (Inl ce)
    with assms d show ?thesis by (auto simp: visit_step_def Let_def no_bytes_def intro!: flight_equal_local)
  next
    case (Inr t)
    with assms d have h': "h' = HRelay entry (ID entry) t (relay_start env entry s' conn ssr (snd t))"
      and s': "s' = s\<lparr>tcp_api := AddWwwRepo (tcp_api s) \<lparr>UNID = ID entry, Host = env_addr_String env a,
        Uip = conn_remoteStr conn, www_Date = env_unix env, IsUdp = 0, www_Status = 1\<rparr>\<rparr>"
      by (auto simp: visit_step_def Let_def)
    have "flight_equal s (HVisit entry (ID entry) a ssr) s' h'"
      unfolding h' by (rule flight_equal_local) (simp_all add: s')
    with down_counts_start [OF server_writer_plain] show ?thesis by (simp add: h')
  qed
qed

lemma join_flight:
  assumes "join_step conn entry target rr = Some h'" and "handler_counts (HRelay entry uid target rr)"
  shows "flight_equal s (HRelay entry uid target rr) s h' \<and> handler_counts h'"
proof -
  from assms(1) obtain i ferr r tw ri terr sw tr where ended: "rr_up rr = UpDone i ferr r tw" "rr_down rr = DownDone ri terr sw tr"
    and h': "h' = HFinish (ID entry) (relay_status ferr terr) (relay_data conn (snd target) r tw sw tr)
      (sw_writer sw, Some (fst target, tw), r)"
    by (auto simp: join_step_def split: up_thread.splits down_thread.splits)
  with assms(2) have "ProxyTarget (relay_data conn (snd target) r tw sw tr) = int i"
    "TargetProxy (relay_data conn (snd target) r tw sw tr) = int ri" "uid = ID entry"
    by (simp_all add: relay_data_def consumed_def)
  then show ?thesis by (auto simp: h' ended intro!: flight_equal_local)
qed

lemma finish_flight:
  assumes "handler_counts (HFinish i st data out)"
  shows "flight_equal s (HFinish i st data out) (finish env i st data s) (HDone st out)"
  using assms by (simp add: flight_equal_def finish_billable)

lemma handler_step_flight:
  assumes "handler_step env conn (s, h) (s', h')" and "handler_counts h"
  shows "flight_equal s h s' h' \<and> handler_counts h'"
  using assms(1)
proof (rule handler_stepE)
  assume "main_step env conn s h = Some (s', h')"
  with assms(2) show ?thesis
    by (cases h) (auto dest: search_flight replay_flight probe_flight visit_flight join_flight
        simp: address_flight finish_flight split: option.splits)
next
  fix uid rr rr' entry target
  assume "h = HRelay entry uid target rr" "s' = s\<lparr>tcp_api := rr_api rr'\<rparr>" "h' = HRelay entry uid target rr'"
    and step: "relay_step env uid (rr\<lparr>rr_api := tcp_api s\<rparr>) rr'"
  with assms(2) relay_step_flight [OF step, of entry target]
    relay_step_counts [OF step, of "tgt_writer (snd target)" "tgt_reader (snd target)"] show ?thesis by simp
qed

text \<open>No step changes the members of a list of keys.\<close>

lemma marks_simps [simp]: "marks cl cl" "marks cl (MarkUsedByClientIP cl e p)"
  by (auto simp: marks_def)

lemma handler_step_marks:
  assumes "handler_step env conn (s, h) (s', h')"
  shows "marks (tcp_ciphers s) (tcp_ciphers s')"
  using assms
proof (rule handler_stepE)
  assume "main_step env conn s h = Some (s', h')"
  then show ?thesis
    by (cases h) (auto simp: search_step_def replay_step_def probe_step_def visit_step_def finish_def Let_def
        split: result.splits prod.splits option.splits if_splits)
qed simp

lemma handler_step_grows:
  assumes "handler_step env conn (s, h) (s', h')"
  shows "grows (tcp_api s) (tcp_api s')"
  using assms
proof (rule handler_stepE)
  assume "main_step env conn s h = Some (s', h')"
  then show ?thesis
    by (cases h) (auto simp: search_step_def replay_step_def probe_step_def visit_step_def finish_def Let_def
        split: result.splits prod.splits option.splits if_splits)
next
  fix uid rr rr' entry target
  assume "s' = s\<lparr>tcp_api := rr_api rr'\<rparr>" and "relay_step env uid (rr\<lparr>rr_api := tcp_api s\<rparr>) rr'"
  then show ?thesis
    by (auto elim!: relay_stepE simp: step_up_def step_down_def split: up_thread.split down_thread.split)
qed

end
