(* ===== verification/Server_Run.thy ===== *)
theory Server_Run
  imports Server_Main
begin

text \<open>
  \<^verbatim>\<open>SSServer.doRun\<close> of \<^verbatim>\<open>cmd/quick_ss/main.go\<close> step by step. Nothing keeps handlers and packets away while it runs: between opening
  or closing one port and the next, and between replacing the list of one port and the next, they go on. The state of a run is what is left
  of its two loops; theory \<^verbatim>\<open>Server_Net\<close> interleaves its steps with everything else. Without interference the steps come to what \<open>doRun\<close>
  computes at once.
\<close>

section \<open>Runs\<close>

text \<open>The changes, the ports that the loop over \<open>portChanges\<close> has still to visit, the lists that the loop over \<open>portCiphers\<close> has still
  to install, and the numbers of users and ports.\<close>

record run_job =
  rj_changes :: "int \<Rightarrow> int"
  rj_ports :: "int list"
  rj_lists :: "(int \<times> CipherEntry list) list"
  rj_users :: nat
  rj_portCiphers :: nat

text \<open>From the users to the loop over \<open>portChanges\<close>: only the goroutine that runs \<open>doRun\<close> changes which ports there are.\<close>

definition doRun_begin ::
  "crypto \<Rightarrow> aeadSpec list \<Rightarrow> (int set \<Rightarrow> int list) \<Rightarrow>
   ((int \<times> CipherEntry list) list \<Rightarrow> (int \<times> CipherEntry list) list) \<Rightarrow> SSServer \<Rightarrow> Key list \<Rightarrow> run_job result" where
  "doRun_begin cr specs order order2 s users =
     (case load_keys cr specs users [] of
        Fail e \<Rightarrow> Fail e
      | Panic m \<Rightarrow> Panic m
      | Ok portCiphers \<Rightarrow>
          (let wanted = set (map fst portCiphers)
           in Ok \<lparr>rj_changes = (\<lambda>p. (if p \<in> wanted then 1 else 0) - (if p \<in> dom (ss_ports s) then 1 else 0)),
                  rj_ports = order (wanted \<union> dom (ss_ports s)), rj_lists = order2 portCiphers,
                  rj_users = length users, rj_portCiphers = length portCiphers\<rparr>))"

text \<open>A step opens, closes or keeps one port, or replaces the list of one port, or sets the gauges and returns. \<open>Inl\<close> is the rest of the
  run, \<open>Inr\<close> what \<open>doRun\<close> returns.\<close>

definition run_step :: "os_env \<Rightarrow> run_job \<Rightarrow> SSServer \<Rightarrow> SSServer \<times> (run_job + unit result)" where
  "run_step env j s =
     (case rj_ports j of
        p # ps \<Rightarrow>
          (case change_ports env (rj_changes j) [p] s of
             (s1, Some e) \<Rightarrow> (s1, Inr (Fail e))
           | (s1, None) \<Rightarrow> (s1, Inl (j\<lparr>rj_ports := ps\<rparr>)))
      | [] \<Rightarrow>
          (case rj_lists j of
             pe # pcs \<Rightarrow>
               (case update_lists [pe] s of
                  Ok s1 \<Rightarrow> (s1, Inl (j\<lparr>rj_lists := pcs\<rparr>))
                | Fail e \<Rightarrow> (s, Inr (Fail e))
                | Panic m \<Rightarrow> (s, Inr (Panic m)))
           | [] \<Rightarrow> (s\<lparr>ss_m := SetNumAccessKeys (ss_m s) (int (rj_users j)) (int (rj_portCiphers j))\<rparr>, Inr (Ok ()))))"

text \<open>A tick of \<open>CheckUser\<close> up to the run that it starts, if any. A run whose list cannot be loaded is over at once, and its error is
  dropped.\<close>

definition CheckUser_begin ::
  "crypto \<Rightarrow> aeadSpec list \<Rightarrow> (int set \<Rightarrow> int list) \<Rightarrow>
   ((int \<times> CipherEntry list) list \<Rightarrow> (int \<times> CipherEntry list) list) \<Rightarrow> (Key \<rightharpoonup> 32 word) \<Rightarrow> SSServer \<Rightarrow> Key list \<Rightarrow>
   ((Key \<rightharpoonup> 32 word) \<times> run_job option) result" where
  "CheckUser_begin cr specs order order2 hash s users =
     (case CheckUser_tick hash users of
        (hash', doNew) \<Rightarrow>
          if \<not> doNew then Ok (hash', None)
          else
            (case doRun_begin cr specs order order2 s users of
               Ok j \<Rightarrow> Ok (hash', Some j)
             | Fail e \<Rightarrow> Ok (hash', None)
             | Panic m \<Rightarrow> Panic m))"

section \<open>A run without interference\<close>

fun run_steps :: "nat \<Rightarrow> os_env \<Rightarrow> run_job \<Rightarrow> SSServer \<Rightarrow> (SSServer \<times> unit result) option" where
  "run_steps 0 env j s = None"
| "run_steps (Suc n) env j s =
     (case run_step env j s of
        (s1, Inl j1) \<Rightarrow> run_steps n env j1 s1
      | (s1, Inr r) \<Rightarrow> Some (s1, r))"

lemma change_ports_Cons:
  "change_ports env ch (p # ps) s =
     (case change_ports env ch [p] s of (s1, Some e) \<Rightarrow> (s1, Some e) | (s1, None) \<Rightarrow> change_ports env ch ps s1)"
  by (auto split: prod.split option.split)

lemma update_lists_Cons:
  "update_lists (pe # pcs) s = bind_result (update_lists [pe] s) (update_lists pcs)"
  by (cases pe) (auto split: option.split)

lemma update_lists_not_Fail: "update_lists pcs s \<noteq> Fail e"
  by (induction pcs s rule: update_lists.induct) (auto split: option.split)

lemma run_steps_lists:
  assumes "update_lists pcs s = Ok s2"
  shows "run_steps (Suc (length pcs)) env (j\<lparr>rj_ports := [], rj_lists := pcs\<rparr>) s =
    Some (s2\<lparr>ss_m := SetNumAccessKeys (ss_m s2) (int (rj_users j)) (int (rj_portCiphers j))\<rparr>, Ok ())"
  using assms
proof (induction pcs arbitrary: s)
  case (Cons pe pcs)
  then obtain s1 where s1: "update_lists [pe] s = Ok s1" "update_lists pcs s1 = Ok s2"
    by (auto simp: update_lists_Cons [of pe pcs] bind_result_iffs)
  from Cons.IH [OF s1(2)] s1(1) show ?case by (simp add: run_step_def)
qed (simp add: run_step_def)

lemma run_steps_ports:
  assumes "change_ports env (rj_changes j) ps s = (s1, None)"
  shows "run_steps (length ps + n) env (j\<lparr>rj_ports := ps\<rparr>) s = run_steps n env (j\<lparr>rj_ports := []\<rparr>) s1"
  using assms
proof (induction ps arbitrary: s)
  case (Cons p ps)
  then obtain s0 where s0: "change_ports env (rj_changes j) [p] s = (s0, None)" "change_ports env (rj_changes j) ps s0 = (s1, None)"
    by (auto simp only: change_ports_Cons [of env _ p ps] split: prod.splits option.splits)
  from Cons.IH [OF s0(2)] s0(1) show ?case by (simp add: run_step_def del: change_ports.simps)
qed simp

lemma run_steps_ports_fail:
  assumes "change_ports env (rj_changes j) ps s = (s1, Some e)"
  shows "run_steps (length ps) env (j\<lparr>rj_ports := ps\<rparr>) s = Some (s1, Fail e)"
  using assms
proof (induction ps arbitrary: s)
  case (Cons p ps)
  obtain s0 oe where s0: "change_ports env (rj_changes j) [p] s = (s0, oe)" by fastforce
  show ?case
  proof (cases oe)
    case None
    with Cons.prems s0 have "change_ports env (rj_changes j) ps s0 = (s1, Some e)" by (simp only: change_ports_Cons [of env _ p ps]) simp
    from Cons.IH [OF this] s0 None show ?thesis by (simp add: run_step_def del: change_ports.simps)
  next
    case (Some e')
    with Cons.prems s0 have "s0 = s1" "e' = e" by (simp_all only: change_ports_Cons [of env _ p ps]) simp_all
    with s0 Some show ?thesis by (simp add: run_step_def del: change_ports.simps)
  qed
qed simp

text \<open>The steps of a run, one after the other, come to \<open>doRun\<close>, whatever it returns short of a panic.\<close>

lemma run_steps_doRun:
  assumes "doRun env cr specs order order2 s users = (s', r)" and "doRun_begin cr specs order order2 s users = Ok j"
    and "\<And>m. r \<noteq> Panic m"
  shows "\<exists>n. run_steps n env j s = Some (s', r)"
proof -
  from assms(2) obtain pcs where pcs: "load_keys cr specs users [] = Ok pcs" by (auto simp: doRun_begin_def split: result.splits)
  let ?w = "set (map fst pcs)"
  let ?ch = "\<lambda>p. (if p \<in> ?w then 1 else 0) - (if p \<in> dom (ss_ports s) then 1 else 0) :: int" and ?ps = "order (?w \<union> dom (ss_ports s))"
  from assms(2) have j: "j = \<lparr>rj_changes = ?ch, rj_ports = ?ps, rj_lists = order2 pcs, rj_users = length users, rj_portCiphers = length pcs\<rparr>"
    by (simp add: doRun_begin_def pcs Let_def)
  then have j': "j = j\<lparr>rj_ports := ?ps\<rparr>" "j\<lparr>rj_ports := []\<rparr> = j\<lparr>rj_ports := [], rj_lists := order2 pcs\<rparr>" "rj_changes j = ?ch" by simp_all
  obtain s1 oe where s1: "change_ports env ?ch ?ps s = (s1, oe)" by fastforce
  show ?thesis
  proof (cases oe)
    case (Some e)
    with assms(1) s1 pcs have "s' = s1" "r = Fail e" by (simp_all add: doRun_def Let_def)
    with run_steps_ports_fail [of env j ?ps s s1 e] s1 Some j'(1,3) show ?thesis by metis
  next
    case None
    with assms(1,3) s1 pcs update_lists_not_Fail obtain s2 where s2: "update_lists (order2 pcs) s1 = Ok s2"
      and res: "s' = s2\<lparr>ss_m := SetNumAccessKeys (ss_m s2) (int (length users)) (int (length pcs))\<rparr>" "r = Ok ()"
      by (cases "update_lists (order2 pcs) s1") (auto simp: doRun_def Let_def)
    have users: "rj_users j = length users" "rj_portCiphers j = length pcs" by (simp_all add: j)
    have "run_steps (length ?ps + Suc (length (order2 pcs))) env (j\<lparr>rj_ports := ?ps\<rparr>) s =
        run_steps (Suc (length (order2 pcs))) env (j\<lparr>rj_ports := []\<rparr>) s1"
      by (rule run_steps_ports) (use s1 None j'(3) in simp)
    also have "\<dots> = Some (s', r)"
      unfolding run_steps_lists [OF s2, of env j, folded j'(2)] users res ..
    finally show ?thesis using j'(1) by metis
  qed
qed

text \<open>So does a tick with its run come to \<open>CheckUser_step\<close>.\<close>

lemma CheckUser_begin_step:
  assumes "CheckUser_begin cr specs order order2 hash s users = Ok (hash', oj)"
    and "\<And>m. snd (doRun env cr specs order order2 s users) \<noteq> Panic m"
  shows "case oj of
      None \<Rightarrow> CheckUser_step env cr specs order order2 (hash, s) users = (hash', s)
    | Some j \<Rightarrow> \<exists>n s' r. run_steps n env j s = Some (s', r) \<and> CheckUser_step env cr specs order order2 (hash, s) users = (hash', s')"
proof -
  obtain h d where tick: "CheckUser_tick hash users = (h, d)" by fastforce
  obtain s' r where run: "doRun env cr specs order order2 s users = (s', r)" by fastforce
  show ?thesis
  proof (cases d)
    case False
    with assms(1) tick show ?thesis by (auto simp: CheckUser_begin_def CheckUser_step_def)
  next
    case True
    show ?thesis
    proof (cases "doRun_begin cr specs order order2 s users")
      case (Ok j)
      from run_steps_doRun [OF run Ok] assms(2) obtain n where "run_steps n env j s = Some (s', r)" by (auto simp: run)
      moreover have "oj = Some j" "CheckUser_step env cr specs order order2 (hash, s) users = (hash', s')"
        using Ok True tick assms(1) run by (auto simp: CheckUser_begin_def CheckUser_step_def)
      ultimately show ?thesis by (simp only: option.case) (intro exI [of _ n] exI [of _ s'] exI [of _ r] conjI refl)
    next
      case (Fail e)
      then have "doRun env cr specs order order2 s users = (s, Fail e)"
        by (auto simp: doRun_begin_def doRun_def Let_def split: result.splits)
      with Fail True tick assms(1) show ?thesis by (auto simp: CheckUser_begin_def CheckUser_step_def)
    qed (use True tick assms(1) in \<open>simp add: CheckUser_begin_def\<close>)
  qed
qed

end
