(* ===== verification/Server_Net.thy ===== *)
theory Server_Net
  imports Server_System Server_Flight Service_UDP_Run Server_Run
begin

text \<open>
  The running server: \<^verbatim>\<open>cmd/quick_ss/main.go\<close> with the TCP connections that are being handled, goroutine by goroutine,
  the UDP services with their NAT tables, the run of a list of users port by port, and the reports that are under way. The steps of all
  of them are interleaved in any way.

  A port number may be opened, closed and opened again. Its services are told apart by a generation: the services of a closed
  generation go on with the connections and NAT entries they have, over the list of keys they had.
\<close>

section \<open>State\<close>

record live_conn =
  lv_port :: int
  lv_gen :: nat
  lv_env :: tcp_env
  lv_conn :: client_conn
  lv_handler :: handler

text \<open>\<open>net_gen p\<close> is the generation of port \<open>p\<close> that is open, if the port is. \<open>net_serving\<close> says whether the loop of \<open>Serve\<close>
  runs. \<open>net_queue\<close> are the connections that were accepted and whose handlers have not begun, \<open>net_job\<close> the run of \<open>doRun\<close> that
  is under way, \<open>net_report\<close> and \<open>net_www\<close> the reports that are, and \<open>net_lost\<close> the records of traffic that were replaced without having
  been handed to a report.\<close>

record net_state = system +
  net_gen :: "int \<Rightarrow> nat"
  net_udp :: "int \<Rightarrow> nat \<Rightarrow> udpService"
  net_serving :: "int \<Rightarrow> nat \<Rightarrow> bool"
  net_queue :: "(int \<times> nat \<times> client_conn) list"
  net_conns :: "live_conn list"
  net_job :: "run_job option"
  net_report :: "report_run option"
  net_www :: "int option"
  net_lost :: "UserTraffic list"

definition current :: "net_state \<Rightarrow> int \<Rightarrow> nat \<Rightarrow> bool" where
  "current st p g \<longleftrightarrow> ss_ports (sys_server st) p \<noteq> None \<and> net_gen st p = g"

text \<open>The list of keys that the two services of a port share.\<close>

definition inst_list :: "net_state \<Rightarrow> int \<Rightarrow> nat \<Rightarrow> cipherList" where
  "inst_list st p g =
     (case ss_ports (sys_server st) p of
        Some port \<Rightarrow> if net_gen st p = g then port_cipherList port else udp_ciphers (net_udp st p g)
      | None \<Rightarrow> udp_ciphers (net_udp st p g))"

definition put_list :: "int \<Rightarrow> nat \<Rightarrow> cipherList \<Rightarrow> net_state \<Rightarrow> net_state" where
  "put_list p g cl st =
     (if current st p g
      then st\<lparr>sys_server := (sys_server st)\<lparr>ss_ports := (ss_ports (sys_server st))(p \<mapsto> \<lparr>port_cipherList = cl\<rparr>)\<rparr>\<rparr>
      else st\<lparr>net_udp := (net_udp st)(p := (net_udp st p)(g := (net_udp st p g)\<lparr>udp_ciphers := cl\<rparr>))\<rparr>)"

text \<open>The services over the objects they share, and the state after one of them has changed these.\<close>

definition inst_tcp :: "net_state \<Rightarrow> int \<Rightarrow> nat \<Rightarrow> tcpService" where
  "inst_tcp st p g =
     \<lparr>tcp_ciphers = inst_list st p g, tcp_m = ss_m (sys_server st), tcp_replayCache = Some (ss_replayCache (sys_server st)),
      tcp_targetIPValidator = RequirePublicIP, tcp_api = ss_api (sys_server st)\<rparr>"

definition put_tcp :: "int \<Rightarrow> nat \<Rightarrow> tcpService \<Rightarrow> net_state \<Rightarrow> net_state" where
  "put_tcp p g t st =
     put_list p g (tcp_ciphers t)
       (st\<lparr>sys_server := (sys_server st)\<lparr>ss_m := tcp_m t, ss_api := tcp_api t,
          ss_replayCache := (case tcp_replayCache t of Some rc \<Rightarrow> rc | None \<Rightarrow> ss_replayCache (sys_server st))\<rparr>\<rparr>)"

definition inst_udp :: "net_state \<Rightarrow> int \<Rightarrow> nat \<Rightarrow> udpService" where
  "inst_udp st p g =
     (net_udp st p g)\<lparr>udp_ciphers := inst_list st p g, udp_m := ss_m (sys_server st), udp_api := ss_api (sys_server st)\<rparr>"

definition put_udp :: "int \<Rightarrow> nat \<Rightarrow> udpService \<Rightarrow> net_state \<Rightarrow> net_state" where
  "put_udp p g u st =
     put_list p g (udp_ciphers u)
       (st\<lparr>sys_server := (sys_server st)\<lparr>ss_m := udp_m u, ss_api := udp_api u\<rparr>,
          net_udp := (net_udp st)(p := (net_udp st p)(g := u))\<rparr>)"

section \<open>Opening and closing ports\<close>

definition defaultNatTimeout :: int where
  "defaultNatTimeout = 5 * 60 * second"

text \<open>The UDP service that \<open>startPort\<close> creates, once its goroutine has called \<open>Serve\<close>. \<open>store\<close> is the memory of NAT entries.\<close>

definition started_udp :: "(nat \<Rightarrow> natconn) \<Rightarrow> SSServer \<Rightarrow> udpService" where
  "started_udp store s = snd (udp_Serve (NewUDPService defaultNatTimeout (NewCipherList no_entries) (ss_m s) (ss_api s) store))"

text \<open>What a step of \<open>doRun\<close> that turned the server into \<open>s'\<close> did to the services: a port that was opened has a new generation, one
  that was closed has been stopped and keeps its last list.\<close>

definition net_tick :: "(int \<Rightarrow> nat \<Rightarrow> natconn) \<Rightarrow> SSServer \<Rightarrow> net_state \<Rightarrow> net_state" where
  "net_tick stores s' st =
     (let old = ss_ports (sys_server st); new = ss_ports s'
      in st\<lparr>sys_server := s',
            net_gen := (\<lambda>p. if old p = None \<and> new p \<noteq> None then Suc (net_gen st p) else net_gen st p),
            net_udp := (\<lambda>p g.
              if old p = None \<and> new p \<noteq> None \<and> g = Suc (net_gen st p) then started_udp (stores p) s'
              else if old p \<noteq> None \<and> new p = None \<and> g = net_gen st p
                   then (snd (udp_Stop (net_udp st p g)))\<lparr>udp_ciphers := inst_list st p g\<rparr>
              else net_udp st p g),
            net_serving := (\<lambda>p g. if old p = None \<and> new p \<noteq> None \<and> g = Suc (net_gen st p) then True else net_serving st p g)\<rparr>)"

section \<open>Steps\<close>

text \<open>The handler of a connection begins: the first thing it does that depends on what is shared is to take a snapshot of the keys.\<close>

definition begun :: "int \<Rightarrow> nat \<Rightarrow> tcp_env \<Rightarrow> client_conn \<Rightarrow> net_state \<Rightarrow> net_state" where
  "begun p g env conn st = st\<lparr>net_conns := net_conns st @
     [\<lparr>lv_port = p, lv_gen = g, lv_env = env, lv_conn = conn, lv_handler = handler_start (inst_tcp st p g)\<rparr>]\<rparr>"

text \<open>A tick of \<open>CheckUser\<close> up to the run it starts; a step of this run; the halves of a tick of \<open>CheckRepo\<close> and of \<open>CheckWwwRepo\<close>;
  a connection is accepted on an open port; its handler begins, which may be after the list was replaced or the port was closed; a step of
  a handler; a packet from a client; the end of \<open>Serve\<close> after \<open>Stop\<close>; a packet from a target; and the end of a NAT entry's goroutine.
  The goroutine of an entry may end at any time and have any buffer, which includes what it does.\<close>

inductive net_step :: "crypto \<Rightarrow> aeadSpec list \<Rightarrow> net_state \<Rightarrow> net_state \<Rightarrow> bool" for cr specs where
  user_tick: "net_job st = None \<Longrightarrow> GetUsers odb (NodeID (ss_api (sys_server st))) = Ok users \<Longrightarrow> map_order order \<Longrightarrow>
    (\<And>xs. mset (order2 xs) = mset xs) \<Longrightarrow>
    CheckUser_begin cr specs order order2 (sys_hash st) (sys_server st) users = Ok (hash', job) \<Longrightarrow>
    net_step cr specs st (st\<lparr>sys_hash := hash', sys_listed := sys_listed st \<union> set users, net_job := job\<rparr>)"
| run: "net_job st = Some j \<Longrightarrow> run_step oe j (sys_server st) = (s', nxt) \<Longrightarrow> (\<And>m. nxt \<noteq> Inr (Panic m)) \<Longrightarrow>
    net_step cr specs st ((net_tick stores s' st)\<lparr>net_job := (case nxt of Inl j' \<Rightarrow> Some j' | Inr r \<Rightarrow> None)\<rparr>)"
| report_begin: "net_report st = None \<Longrightarrow> CheckRepo_due now (ss_api (sys_server st)) = Some l \<Longrightarrow>
    net_step cr specs st (st\<lparr>sys_reported := sys_reported st @ [l], net_report := Some (now, length l)\<rparr>)"
| report_end: "net_report st = Some (now, n) \<Longrightarrow>
    net_step cr specs st (st\<lparr>sys_server := (sys_server st)\<lparr>ss_api := CheckRepo_done now (ss_api (sys_server st))\<rparr>, net_report := None,
      net_lost := net_lost st @ unreported (net_report st) (r_RepoList (Rtask (ss_api (sys_server st))))\<rparr>)"
| www_begin: "net_www st = None \<Longrightarrow> CheckWwwRepo_due now (ss_api (sys_server st)) = Some l' \<Longrightarrow>
    net_step cr specs st (st\<lparr>net_www := Some now\<rparr>)"
| www_end: "net_www st = Some now \<Longrightarrow>
    net_step cr specs st (st\<lparr>sys_server := (sys_server st)\<lparr>ss_api := CheckWwwRepo_done now (ss_api (sys_server st))\<rparr>, net_www := None\<rparr>)"
| accept: "ss_ports (sys_server st) p \<noteq> None \<Longrightarrow>
    net_step cr specs st (st\<lparr>net_queue := net_queue st @ [(p, net_gen st p, conn)]\<rparr>)"
| handler_begin: "net_queue st = qs @ (p, g, conn) # qs' \<Longrightarrow> env_crypto env = cr \<Longrightarrow>
    net_step cr specs st (begun p g env conn (st\<lparr>net_queue := qs @ qs'\<rparr>))"
| handle: "i < length (net_conns st) \<Longrightarrow> net_conns st ! i = lv \<Longrightarrow>
    handler_step (lv_env lv) (lv_conn lv) (inst_tcp st (lv_port lv) (lv_gen lv), lv_handler lv) (t', h') \<Longrightarrow>
    net_step cr specs st ((put_tcp (lv_port lv) (lv_gen lv) t' st)\<lparr>net_conns := (net_conns st)[i := lv\<lparr>lv_handler := h'\<rparr>]\<rparr>)"
| packet: "net_serving st p g \<Longrightarrow> ue_crypto uenv = cr \<Longrightarrow> \<not> udp_stopped (net_udp st p g) \<or> isl r \<Longrightarrow>
    serve_packet uenv (inst_udp st p g) r = (False, u') \<Longrightarrow>
    net_step cr specs st (put_udp p g u' st)"
| serve_end: "net_serving st p g \<Longrightarrow> serve_packet uenv (inst_udp st p g) (Inl err) = (True, u') \<Longrightarrow>
    net_step cr specs st ((put_udp p g (udp_Serve_end (ue_now uenv) u') st)\<lparr>net_serving := (net_serving st)(p := (net_serving st p)(g := False))\<rparr>)"
| target_packet: "udp_gors (net_udp st p g) k = Some key \<Longrightarrow> ue_crypto uenv = cr \<Longrightarrow>
    timedCopy_step uenv write (inst_udp st p g) k pkt r = Ok (b, u', pkt') \<Longrightarrow>
    net_step cr specs st (put_udp p g u' st)"
| nat_end: "udp_gors (net_udp st p g) k = Some key \<Longrightarrow> nat_finish (inst_udp st p g) k key = (pc, u') \<Longrightarrow>
    net_step cr specs st (put_udp p g u' st)"

text \<open>The state in which \<open>main\<close> has started the server: the services of the open ports serve, no connection has come yet.\<close>

definition net_started :: "crypto \<Rightarrow> aeadSpec list \<Rightarrow> 'j api_env \<Rightarrow> net_state \<Rightarrow> bool" where
  "net_started cr specs aenv st \<longleftrightarrow>
     sys_started cr specs aenv (system.truncate st) \<and> net_queue st = [] \<and> net_conns st = [] \<and> net_job st = None \<and>
     net_report st = None \<and> net_www st = None \<and> net_lost st = [] \<and>
     (\<forall>p g. current st p g \<longrightarrow> net_serving st p g \<and> (\<exists>store. net_udp st p g = started_udp store (sys_server st))) \<and>
     (\<forall>p g. \<not> current st p g \<longrightarrow> \<not> net_serving st p g \<and> (\<exists>cl m c store. cl_list cl = [] \<and> net_udp st p g = NewUDPService defaultNatTimeout cl m c store))"

end
