(* ===== verification/Server_Net_Packets.thy ===== *)
theory Server_Net_Packets
  imports Server_Net
begin

text \<open>
  Packets and NAT entries of the running server: every entry of the table of \<^verbatim>\<open>service/udp.go\<close> holds the cipher and the ID of a
  user that was listed for the port, and what is sent to a target was in a packet that opens under a listed user's secret.
\<close>

section \<open>Finding the user of a packet\<close>

lemma findKeyUDP_opens:
  "findKeyUDP_loop cr entries dst src es = Ok (Some (e, plain)) \<Longrightarrow>
     e \<in> set es \<and> Unpack cr (Some dst) src (entry_Cipher (entries e)) = Ok plain"
  by (induction es) (auto split: result.splits)

lemma findAccessKeyUDP_found:
  assumes "findAccessKeyUDP cr p dst src cl = (Ok (plain, keyID, c), cl')"
  shows "\<exists>e \<in> set (cl_list cl). keyID = ID (cl_entry cl e) \<and> c = entry_Cipher (cl_entry cl e) \<and> Unpack cr (Some dst) src c = Ok plain"
proof -
  from assms obtain e where loop: "findKeyUDP_loop cr (cl_entry cl) dst src (SnapshotForClientIP cl p) = Ok (Some (e, plain))"
    and e: "keyID = ID (cl_entry cl e)" "c = entry_Cipher (cl_entry cl e)"
    by (auto simp: findAccessKeyUDP_def split: result.splits option.splits)
  from findKeyUDP_opens [OF loop] have "e \<in> set (cl_list cl)" "Unpack cr (Some dst) src c = Ok plain"
    by (simp_all add: port_ciphers.snapshot_set e)
  with e show ?thesis by blast
qed

section \<open>Entries of listed users\<close>

definition natconn_listed :: "crypto \<Rightarrow> aeadSpec list \<Rightarrow> Key set \<Rightarrow> int \<Rightarrow> natconn \<Rightarrow> bool" where
  "natconn_listed cr specs K p c \<longleftrightarrow>
     (\<exists>k \<in> K. Port k = p \<and> nc_keyID c = key_ID k \<and> NewCipher cr specs (key_Cipher k) (Secret k) = Ok (nc_cipher c))"

definition udp_listed :: "crypto \<Rightarrow> aeadSpec list \<Rightarrow> Key set \<Rightarrow> int \<Rightarrow> udpService \<Rightarrow> bool" where
  "udp_listed cr specs K p u \<longleftrightarrow>
     port_listed cr specs K p (udp_ciphers u) \<and>
     (\<forall>key k. udp_keyConn u key = Some k \<longrightarrow> k < udp_fresh u) \<and>
     (\<forall>k < udp_fresh u. natconn_listed cr specs K p (udp_conns u k)) \<and>
     udp_targetIPValidator u = RequirePublicIP \<and> sent_inv u"

text \<open>What connection \<open>k\<close> has sent.\<close>

definition sent_by :: "udpService \<Rightarrow> nat \<Rightarrow> (UDPAddr \<times> bytes) list" where
  "sent_by u k = (if k < udp_fresh u then nc_sent (udp_conns u k) else [])"

text \<open>A packet \<open>d\<close> of the client is that of a listed user: it opens under the user's secret, to an address and the payload.\<close>

definition client_packet :: "crypto \<Rightarrow> aeadSpec list \<Rightarrow> Key set \<Rightarrow> int \<Rightarrow> udp_env \<Rightarrow> bytes \<Rightarrow> string \<Rightarrow> UDPAddr \<times> bytes \<Rightarrow> bool" where
  "client_packet cr specs K p env d uid x \<longleftrightarrow>
     RequirePublicIP (udp_IP (fst x)) = None \<and>
     (\<exists>k \<in> K. Port k = p \<and> uid = key_ID k \<and>
        (\<exists>c dst plain addr. NewCipher cr specs (key_Cipher k) (Secret k) = Ok c \<and> Unpack cr dst d c = Ok plain \<and>
           ue_SplitAddr env plain = Some addr \<and> ue_ResolveUDPAddr env (ue_Addr_String env addr) = Inr (fst x) \<and>
           snd x = drop (length addr) plain))"

lemma forward_payload_conn:
  assumes "forward_payload env u q v payload tgt = (v', u')"
  obtains c' where "u' = u\<lparr>udp_conns := (udp_conns u)(q := c')\<rparr>" "nc_cipher c' = nc_cipher (udp_conns u q)"
    "nc_keyID c' = nc_keyID (udp_conns u q)" "nc_sent c' = nc_sent (udp_conns u q) \<or> nc_sent c' = nc_sent (udp_conns u q) @ [(tgt, payload)]"
    "uf_keyID v' = uf_keyID v"
proof (rule that)
  let ?c = "fst (nat_WriteTo (ue_now env) (udp_conns u q) payload tgt (ue_WriteTo env payload tgt))"
  have w: "nc_cipher (onWrite t c a) = nc_cipher c" "nc_keyID (onWrite t c a) = nc_keyID c" "nc_sent (onWrite t c a) = nc_sent c" for t c a
    by (simp_all add: onWrite_def Let_def)
  show "u' = u\<lparr>udp_conns := (udp_conns u)(q := ?c)\<rparr>" "uf_keyID v' = uf_keyID v"
    using assms by (auto simp: forward_payload_def Let_def split: prod.splits sum.splits)
  show "nc_cipher ?c = nc_cipher (udp_conns u q)" "nc_keyID ?c = nc_keyID (udp_conns u q)"
    "nc_sent ?c = nc_sent (udp_conns u q) \<or> nc_sent ?c = nc_sent (udp_conns u q) @ [(tgt, payload)]"
    by (simp_all add: nat_WriteTo_def Let_def w split: sum.split)
qed

lemma validatePacket_Inr:
  assumes "validatePacket env validator plain = Inr (payload, tgt)"
  obtains addr where "ue_SplitAddr env plain = Some addr" "ue_ResolveUDPAddr env (ue_Addr_String env addr) = Inr tgt"
    "payload = drop (length addr) plain" "validator (udp_IP tgt) = None"
  using assms by (auto simp: validatePacket_def split: option.splits sum.splits)

text \<open>What forwarding a packet does to the conns and entries: it only sends the packet's payload, and only a listed user's.\<close>

definition forwards :: "crypto \<Rightarrow> aeadSpec list \<Rightarrow> Key set \<Rightarrow> int \<Rightarrow> udp_env \<Rightarrow> bytes \<Rightarrow> udp_forward \<Rightarrow> udpService \<Rightarrow> udpService \<Rightarrow> bool" where
  "forwards cr specs K p env d v u u' \<longleftrightarrow>
     (\<forall>k < udp_fresh u'. natconn_listed cr specs K p (udp_conns u' k)) \<and>
     (\<forall>k. sent_by u' k = sent_by u k \<or>
        (\<exists>x. sent_by u' k = sent_by u k @ [x] \<and> client_packet cr specs K p env d (uf_keyID v) x))"

lemma forward_known_forwards:
  assumes "forward_known env u q d = (v, u')" and "udp_listed cr specs K p u" and "ue_crypto env = cr" and "q < udp_fresh u"
  shows "forwards cr specs K p env d v u u'"
proof (cases "u' = u")
  case True
  with assms(2) show ?thesis by (simp add: forwards_def udp_listed_def)
next
  case False
  let ?c = "udp_conns u q"
  let ?v = "no_forward\<lparr>uf_clientLocation := nc_clientLocation ?c, uf_keyID := nc_keyID ?c\<rparr>"
  from False assms(1) obtain plain payload tgt where plain: "Unpack cr None d (nc_cipher ?c) = Ok plain"
    and valid: "validatePacket env (udp_targetIPValidator u) plain = Inr (payload, tgt)"
    and fwd: "forward_payload env u q ?v payload tgt = (v, u')"
    by (auto simp: forward_known_def Let_def assms(3) split: result.splits sum.splits)
  from assms(2,4) have valdr: "udp_targetIPValidator u = RequirePublicIP" and listed: "\<And>k. k < udp_fresh u \<Longrightarrow> natconn_listed cr specs K p (udp_conns u k)"
    by (auto simp: udp_listed_def)
  obtain addr where addr: "ue_SplitAddr env plain = Some addr"
    "ue_ResolveUDPAddr env (ue_Addr_String env addr) = Inr tgt" "payload = drop (length addr) plain" "RequirePublicIP (udp_IP tgt) = None"
    by (rule validatePacket_Inr [OF valid [unfolded valdr]])
  obtain c' where u': "u' = u\<lparr>udp_conns := (udp_conns u)(q := c')\<rparr>"
    and c': "nc_cipher c' = nc_cipher ?c" "nc_keyID c' = nc_keyID ?c" "nc_sent c' = nc_sent ?c \<or> nc_sent c' = nc_sent ?c @ [(tgt, payload)]"
    and v: "uf_keyID v = uf_keyID ?v" by (rule forward_payload_conn [OF fwd])
  then have v1: "uf_keyID v = nc_keyID ?c" by simp
  have "client_packet cr specs K p env d (uf_keyID v) (tgt, payload)"
    using listed [OF assms(4)] plain addr unfolding client_packet_def natconn_listed_def v1 fst_conv snd_conv by blast
  moreover have "natconn_listed cr specs K p (udp_conns u' k)" if "k < udp_fresh u'" for k
    using listed [of k] listed [OF assms(4)] that c'(1,2) unfolding u' by (simp add: natconn_listed_def)
  ultimately show ?thesis
    using c'(3) by (auto simp: forwards_def sent_by_def u')
qed

lemma forward_new_forwards:
  assumes "forward_new env u d a = (v, u')" and "udp_listed cr specs K p u" and "ue_crypto env = cr"
  shows "forwards cr specs K p env d v u u'"
proof -
  obtain res cl where key: "findAccessKeyUDP cr (udp_IP a) serverUDPBufferSize d (udp_ciphers u) = (res, cl)" by fastforce
  from assms(2) have valdr: "udp_targetIPValidator u = RequirePublicIP" and listed: "\<And>k. k < udp_fresh u \<Longrightarrow> natconn_listed cr specs K p (udp_conns u k)"
    and port: "port_listed cr specs K p (udp_ciphers u)" by (auto simp: udp_listed_def)
  have same: "forwards cr specs K p env d v u (u\<lparr>udp_ciphers := cl\<rparr>)"
    using listed by (simp add: forwards_def sent_by_def)
  show ?thesis
  proof (cases "\<exists>plain keyID c payload tgt. res = Ok (plain, keyID, c) \<and>
      validatePacket env RequirePublicIP plain = Inr (payload, tgt) \<and> ue_ListenPacket env = None")
    case False
    with assms(1,3) key valdr have "u' = u\<lparr>udp_ciphers := cl\<rparr>"
      by (auto simp: forward_new_def Let_def split: result.splits sum.splits option.splits)
    with same show ?thesis by simp
  next
    case True
    then obtain plain keyID c payload tgt where res: "res = Ok (plain, keyID, c)"
      and valid: "validatePacket env RequirePublicIP plain = Inr (payload, tgt)" and listen: "ue_ListenPacket env = None" by blast
    from validatePacket_Inr [OF valid] obtain addr where addr: "ue_SplitAddr env plain = Some addr"
      "ue_ResolveUDPAddr env (ue_Addr_String env addr) = Inr tgt" "payload = drop (length addr) plain" "RequirePublicIP (udp_IP tgt) = None"
      by metis
    from findAccessKeyUDP_found [OF key [unfolded res]] port obtain k where k: "k \<in> K" "Port k = p" "keyID = key_ID k"
      "NewCipher cr specs (key_Cipher k) (Secret k) = Ok c" "Unpack cr (Some serverUDPBufferSize) d c = Ok plain"
      by (auto simp: port_listed_def listed_entry_def)
    let ?loc = "fst (GetLocation (ue_country env) (ue_host_ip env) (ue_String env a))"
    obtain q u2 where add: "nat_Add (u\<lparr>udp_ciphers := cl\<rparr>) (ue_String env a) c ?loc keyID = (q, u2)" by fastforce
    then have q: "q = udp_fresh u" "udp_fresh u2 = Suc (udp_fresh u)" "udp_conns u2 q = \<lparr>nc_cipher = c, nc_keyID = keyID, nc_clientLocation = ?loc,
        nc_defaultTimeout = udp_natTimeout u, nc_readDeadline = None, nc_fastClose = False, nc_deadline = None, nc_sent = []\<rparr>"
      "\<And>j. j \<noteq> q \<Longrightarrow> udp_conns u2 j = udp_conns u j"
      by (auto simp: nat_Add_def nat_set_def Let_def)
    from assms(1,3) key res valid valdr listen add obtain v1 where
      fwd: "forward_payload env u2 q v1 payload tgt = (v, u')" and v1: "uf_keyID v1 = keyID"
      by (auto simp: forward_new_def Let_def no_forward_def)
    from forward_payload_conn [OF fwd] obtain c' where u': "u' = u2\<lparr>udp_conns := (udp_conns u2)(q := c')\<rparr>"
      and c': "nc_cipher c' = c" "nc_keyID c' = keyID" "nc_sent c' = [] \<or> nc_sent c' = [(tgt, payload)]"
      and v: "uf_keyID v = keyID" unfolding q(3) v1 by auto
    have packet: "client_packet cr specs K p env d (uf_keyID v) (tgt, payload)"
      using k addr unfolding client_packet_def v fst_conv snd_conv by blast
    have "natconn_listed cr specs K p (udp_conns u' j)" if "j < udp_fresh u'" for j
    proof (cases "j = q")
      case True
      with k c' show ?thesis by (auto simp: u' natconn_listed_def)
    next
      case False
      with that q(1,2) have "j < udp_fresh u" by (simp add: u')
      with listed False q(4) show ?thesis by (simp add: u')
    qed
    moreover have "sent_by u' j = sent_by u j \<or> (\<exists>x. sent_by u' j = sent_by u j @ [x] \<and> client_packet cr specs K p env d (uf_keyID v) x)" for j
    proof (cases "j = q")
      case True
      with c'(3) packet q(1,2) show ?thesis by (auto simp: sent_by_def u')
    next
      case False
      with q(1,2,4) show ?thesis by (auto simp: sent_by_def u')
    qed
    ultimately show ?thesis unfolding forwards_def by blast
  qed
qed

section \<open>Operations of the UDP service\<close>

lemma port_listed_mono: "port_listed cr specs K p cl \<Longrightarrow> K \<subseteq> L \<Longrightarrow> port_listed cr specs L p cl"
  by (fastforce simp: port_listed_def listed_entry_def)

lemma udp_listed_mono: "udp_listed cr specs K p u \<Longrightarrow> K \<subseteq> L \<Longrightarrow> udp_listed cr specs L p u"
  using port_listed_mono [of cr specs K p "udp_ciphers u" L] by (fastforce simp: udp_listed_def natconn_listed_def)

text \<open>A service keeps its entries listed when each connection it changes keeps cipher, ID and what it sent.\<close>

lemma udp_listed_keep:
  assumes "udp_listed cr specs K p u" and "port_listed cr specs K p (udp_ciphers u')"
    and "\<And>key k. udp_keyConn u' key = Some k \<Longrightarrow> udp_keyConn u key = Some k" and "udp_fresh u' = udp_fresh u"
    and "\<And>k. nc_cipher (udp_conns u' k) = nc_cipher (udp_conns u k) \<and> nc_keyID (udp_conns u' k) = nc_keyID (udp_conns u k) \<and>
      nc_sent (udp_conns u' k) = nc_sent (udp_conns u k)"
    and "udp_targetIPValidator u' = udp_targetIPValidator u"
  shows "udp_listed cr specs K p u'"
proof -
  have same: "natconn_listed cr specs K p (udp_conns u' k) = natconn_listed cr specs K p (udp_conns u k)" for k
    using assms(5) [of k] by (simp add: natconn_listed_def)
  have "nc_sent (udp_conns u' k) = nc_sent (udp_conns u k)" for k using assms(5) by simp
  then have "sent_inv u' = sent_inv u" using assms(4,6) by (simp add: sent_inv_def)
  with assms(1-4,6) show ?thesis by (auto simp: udp_listed_def same)
qed

lemma udp_listed_share:
  assumes "udp_listed cr specs K p u" and "port_listed cr specs K p cl"
  shows "udp_listed cr specs K p (u\<lparr>udp_ciphers := cl\<rparr>)" "udp_listed cr specs K p (u\<lparr>udp_ciphers := cl, udp_m := m, udp_api := c\<rparr>)"
    "udp_listed cr specs K p (u\<lparr>udp_stopped := True, udp_ciphers := cl\<rparr>)"
  by (rule udp_listed_keep [OF assms(1)]; simp add: assms(2))+

lemma timedCopy_step_listed:
  assumes "timedCopy_step env wr u k pkt r = Ok (b, u', pkt')" and "udp_listed cr specs K p u"
  shows "udp_listed cr specs K p u'"
  using assms(1)
proof (rule timedCopy_step_cases)
  fix c' m'
  assume u': "u' = u\<lparr>udp_conns := (udp_conns u)(k := c'), udp_m := m'\<rparr>"
    and c': "c' = udp_conns u k \<or> (\<exists>a. c' = onRead (ue_now env) (udp_conns u k) a)"
  from c' have "nc_sent c' = nc_sent (udp_conns u k)" "nc_cipher c' = nc_cipher (udp_conns u k)" "nc_keyID c' = nc_keyID (udp_conns u k)"
    by (auto simp: onRead_def Let_def)
  then show ?thesis
    using assms(2) by (intro udp_listed_keep [OF assms(2)]) (simp_all add: u' udp_listed_def)
qed

lemma nat_finish_listed:
  assumes "udp_listed cr specs K p u"
  shows "udp_listed cr specs K p (snd (nat_finish u k key))"
proof -
  have "port_listed cr specs K p (udp_ciphers u)" using assms by (simp add: udp_listed_def)
  with assms show ?thesis
    by (elim udp_listed_keep) (auto simp: nat_finish_def nat_del_def split: option.splits if_splits)
qed

lemma udp_Serve_end_listed:
  assumes "udp_listed cr specs K p u"
  shows "udp_listed cr specs K p (udp_Serve_end now u)"
proof -
  have "port_listed cr specs K p (udp_ciphers u)" using assms by (simp add: udp_listed_def)
  with assms show ?thesis
    by (elim udp_listed_keep) (simp_all add: udp_Serve_end_def nat_Close_def)
qed

lemma new_udp_listed: "cl_list cl = [] \<Longrightarrow> udp_listed cr specs K p (NewUDPService t cl m c store)"
  by (simp add: NewUDPService_def udp_listed_def port_listed_def sent_inv_def)

lemma started_udp_listed: "udp_listed cr specs K p (started_udp store s)"
  by (simp add: started_udp_def udp_Serve_def newNATmap_def NewUDPService_def NewCipherList_def udp_listed_def port_listed_def sent_inv_def)

lemma nat_change_fresh:
  assumes "same_nat u u' \<or> (\<exists>key. udp_keyConn u key = None \<and> added_nat key u u')"
    and "\<And>key k. udp_keyConn u key = Some k \<Longrightarrow> k < udp_fresh u" and "udp_keyConn u' key = Some k"
  shows "k < udp_fresh u'"
  using assms(1)
proof
  assume "same_nat u u'"
  with assms(2,3) show ?thesis by (simp add: same_nat_def)
next
  assume "\<exists>key. udp_keyConn u key = None \<and> added_nat key u u'"
  then obtain key1 where "udp_keyConn u' = (udp_keyConn u)(key1 \<mapsto> udp_fresh u)" "udp_fresh u' = Suc (udp_fresh u)"
    by (auto simp: added_nat_def)
  with assms(2) [of key k] assms(3) show ?thesis by (auto split: if_splits)
qed

lemma serve_packet_forwards:
  assumes "serve_packet env u (Inr (data, a)) = (b, u')" and "udp_listed cr specs K p u" and "ue_crypto env = cr"
  obtains uid where "udp_listed cr specs K p u'"
    "\<And>k. sent_by u' k = sent_by u k \<or> (\<exists>x. sent_by u' k = sent_by u k @ [x] \<and> client_packet cr specs K p env (take serverUDPBufferSize data) uid x)"
    "\<And>i. i \<noteq> '''' \<Longrightarrow> user_U i (r_RepoList (Rtask (udp_api u'))) =
       user_U i (r_RepoList (Rtask (udp_api u))) + (if i = uid then word_of_nat (length (take serverUDPBufferSize data)) else 0)"
proof -
  let ?d = "take serverUDPBufferSize data"
  obtain v u1 where fw: "(case nat_Get u (ue_String env a) of None \<Rightarrow> forward_new env u ?d a | Some k \<Rightarrow> forward_known env u k ?d) = (v, u1)"
    by fastforce
  obtain u2 where rep: "report_packet env u1 (length ?d) (Some a) v = Ok u2" by (rule report_packet_ok)
  with assms(1) fw have u': "u' = u2" by (auto simp: serve_packet_def Let_def)
  note keeps = report_packet_keeps [OF rep]
  have marks: "unbilled u u1 \<and> marks (udp_ciphers u) (udp_ciphers u1)"
    using fw forward_new_unbilled forward_known_unbilled by (fastforce split: option.splits simp: marks_def)
  from assms(2) have keys: "\<And>key k. udp_keyConn u key = Some k \<Longrightarrow> k < udp_fresh u" and sent: "sent_inv u"
    by (simp_all add: udp_listed_def)
  have fwds: "forwards cr specs K p env ?d v u u1"
  proof (cases "udp_keyConn u (ue_String env a)")
    case None
    with fw forward_new_forwards [OF _ assms(2,3)] show ?thesis by (simp add: nat_Get_def)
  next
    case (Some k)
    with fw forward_known_forwards [OF _ assms(2,3) keys [OF Some]] show ?thesis by (simp add: nat_Get_def)
  qed
  from serve_packet_nat [OF assms(1) sent] have nat: "same_nat u u' \<or> (\<exists>key. udp_keyConn u key = None \<and> added_nat key u u')" "sent_inv u'"
    by blast+
  have "udp_listed cr specs K p u'"
    unfolding udp_listed_def
  proof (intro conjI allI impI)
    show "port_listed cr specs K p (udp_ciphers u')"
      using assms(2) port_listed_marks [OF conjunct2 [OF marks]] by (simp add: udp_listed_def u' keeps)
    show "k < udp_fresh u'" if "udp_keyConn u' key = Some k" for key k
      using nat_change_fresh [OF nat(1) keys that] .
    show "natconn_listed cr specs K p (udp_conns u' k)" if "k < udp_fresh u'" for k
      using fwds that by (simp add: forwards_def u' keeps)
    show "udp_targetIPValidator u' = RequirePublicIP"
      using nat(1) assms(2) by (auto simp: same_nat_def added_nat_def udp_listed_def)
  qed (rule nat(2))
  moreover have "sent_by u' k = sent_by u1 k" for k by (simp add: sent_by_def u' keeps)
  with fwds have "sent_by u' k = sent_by u k \<or> (\<exists>x. sent_by u' k = sent_by u k @ [x] \<and> client_packet cr specs K p env ?d (uf_keyID v) x)" for k
    by (simp add: forwards_def)
  moreover have "user_U i (r_RepoList (Rtask (udp_api u'))) =
      user_U i (r_RepoList (Rtask (udp_api u))) + (if i = uf_keyID v then word_of_nat (length ?d) else 0)" if "i \<noteq> ''''" for i
    using rep marks that by (auto simp: report_packet_def Let_def u' unbilled_def AddRepo_user)
  ultimately show thesis by (rule that)
qed

lemma serve_packet_listed:
  assumes "serve_packet env u r = (b, u')" and "udp_listed cr specs K p u" and "ue_crypto env = cr"
  shows "udp_listed cr specs K p u'"
proof (cases r)
  case (Inl e)
  with assms(1) have "u' = u" by (auto simp: serve_packet_def report_packet_def split: if_splits)
  with assms(2) show ?thesis by simp
next
  case (Inr x)
  with assms serve_packet_forwards show ?thesis by (metis prod.collapse)
qed

end
