(* ===== verification/Server_Net_Safe.thy ===== *)
theory Server_Net_Safe
  imports Server_Net_Packets Server_Users
begin

text \<open>
  Invariants of the running server, over every interleaving of connections, packets and ticks: whose traffic reaches targets,
  and that the two books agree up to the traffic in flight.
\<close>

section \<open>Connections of listed users\<close>

text \<open>An entry of a user of the port whose cipher opens the first bytes of the connection.\<close>

definition genuine :: "crypto \<Rightarrow> aeadSpec list \<Rightarrow> Key set \<Rightarrow> int \<Rightarrow> client_conn \<Rightarrow> CipherEntry \<Rightarrow> bool" where
  "genuine cr specs K p conn e \<longleftrightarrow>
     listed_entry cr specs K p e \<and> opens cr (fst (ReadFull (conn_reader conn) 50)) (entry_Cipher e)"

text \<open>The address of the target that is or was connected.\<close>

fun target_of :: "handler \<Rightarrow> ip option" where
  "target_of (HRelay entry uid target rr) = Some (fst target)"
| "target_of (HFinish i st data out) = map_option fst (fst (snd out))"
| "target_of (HDone st out) = map_option fst (fst (snd out))"
| "target_of h = None"

fun entry_of :: "handler \<Rightarrow> CipherEntry option" where
  "entry_of (HFound ak entry) = Some entry"
| "entry_of (HServe entry uid r) = Some entry"
| "entry_of (HVisit entry uid a ssr) = Some entry"
| "entry_of (HRelay entry uid target rr) = Some entry"
| "entry_of h = None"

definition handler_listed :: "crypto \<Rightarrow> aeadSpec list \<Rightarrow> Key set \<Rightarrow> int \<Rightarrow> client_conn \<Rightarrow> handler \<Rightarrow> bool" where
  "handler_listed cr specs K p conn h \<longleftrightarrow>
     (\<forall>cl0. h = HSearch cl0 \<longrightarrow> port_listed cr specs K p cl0) \<and>
     (\<forall>e. entry_of h = Some e \<longrightarrow> genuine cr specs K p conn e) \<and>
     (\<forall>a. target_of h = Some a \<longrightarrow> RequirePublicIP a = None \<and> (\<exists>e. genuine cr specs K p conn e))"

lemma handler_listed_mono: "handler_listed cr specs K p conn h \<Longrightarrow> K \<subseteq> L \<Longrightarrow> handler_listed cr specs L p conn h"
  using port_listed_mono [of cr specs K p _ L]
  by (fastforce simp: handler_listed_def genuine_def listed_entry_def)

lemma search_listed:
  assumes "search_step env conn s cl0 = Some (s', h')" and "port_listed (env_crypto env) specs K p cl0"
  shows "handler_listed (env_crypto env) specs K p conn h'"
proof -
  from assms(1) consider (panic) m where "h' = HPanic m"
    | (found) ak cl' where "findAccessKey (env_crypto env) (conn_reader conn) (client_ip env conn) cl0 = Ok (ak, cl')"
    by (auto simp: search_step_def split: result.splits)
  then show ?thesis
  proof cases
    case panic
    then show ?thesis by (simp add: handler_listed_def)
  next
    case found
    from found show ?thesis
    proof (cases rule: findAccessKey_cases)
      case none
      with assms found show ?thesis by (auto simp: search_step_def handler_listed_def)
    next
      case f: (found e d r')
      from assms(2) f(1) have "listed_entry (env_crypto env) specs K p (cl_entry cl0 e)" by (simp add: port_listed_def)
      with f have "genuine (env_crypto env) specs K p conn (cl_entry cl' e)"
        by (simp add: genuine_def listed_entry_def MarkUsedByClientIP_def)
      with assms(1) found f show ?thesis by (auto simp: search_step_def handler_listed_def)
    qed
  qed
qed

lemma handler_step_listed:
  assumes "handler_step env conn (s, h) (s', h')" and "handler_listed (env_crypto env) specs K p conn h"
    and "tcp_targetIPValidator s = RequirePublicIP"
  shows "handler_listed (env_crypto env) specs K p conn h'"
  using assms(1)
proof (rule handler_stepE)
  assume step: "main_step env conn s h = Some (s', h')"
  show ?thesis
  proof (cases h)
    case (HSearch cl0)
    with step assms(2) search_listed [of env conn s cl0 s' h'] show ?thesis by (simp add: handler_listed_def)
  next
    case (HVisit entry uid a ssr)
    obtain atts err where d: "env_dial env (env_addr_String env a) = (atts, err)" by fastforce
    show ?thesis
    proof (cases "dialTarget RequirePublicIP atts err")
      case (Inl ce)
      with step HVisit d assms(3) show ?thesis by (auto simp: visit_step_def handler_listed_def Let_def)
    next
      case (Inr t)
      obtain q tgt where t: "t = (q, tgt)" by fastforce
      from Inr have "RequirePublicIP q = None" unfolding t by (auto dest: dialTarget_allowed)
      with step HVisit d assms(2,3) Inr t show ?thesis by (auto simp: visit_step_def handler_listed_def Let_def)
    qed
  next
    case (HRelay entry uid target rr)
    with step assms(2) show ?thesis
      by (auto simp: join_step_def handler_listed_def split: option.splits up_thread.splits down_thread.splits)
  next
    case (HServe entry uid r)
    with step assms(2) show ?thesis by (auto simp: address_step_def handler_listed_def split: prod.splits result.splits)
  qed (use step assms(2) in \<open>auto simp: replay_step_def probe_step_def handler_listed_def Let_def split: prod.splits if_splits\<close>)
next
  fix uid rr rr' entry target
  assume "h = HRelay entry uid target rr" "h' = HRelay entry uid target rr'"
  with assms(2) show ?thesis by (simp add: handler_listed_def)
qed

section \<open>The invariant\<close>

definition flights_U :: "string \<Rightarrow> net_state \<Rightarrow> 64 word" where
  "flights_U i st = sum_list (map (\<lambda>lv. flight_U i (lv_handler lv)) (net_conns st))"

definition flights_D :: "string \<Rightarrow> net_state \<Rightarrow> 64 word" where
  "flights_D i st = sum_list (map (\<lambda>lv. flight_D i (lv_handler lv)) (net_conns st))"

text \<open>A report that is under way was handed the first records of the list.\<close>

definition report_ok :: "report_run option \<Rightarrow> UserTraffic list list \<Rightarrow> UserTraffic list \<Rightarrow> bool" where
  "report_ok rr reports l \<longleftrightarrow>
     (\<forall>now n. rr = Some (now, n) \<longrightarrow> reports \<noteq> [] \<and> n = length (last reports) \<and> take n l = last reports)"

lemma report_ok_simps [simp]: "report_ok None reports l" "report_ok (Some (now, length l)) (reports @ [l]) l"
  by (simp_all add: report_ok_def)

lemma report_ok_fits: "report_ok rr reports l \<Longrightarrow> report_fits rr l"
  by (metis report_fits_def report_ok_def length_take min.cobounded1)

lemma report_ok_append: "report_ok rr reports l \<Longrightarrow> report_ok rr reports (l @ x)"
  using report_ok_fits [of rr reports l] by (auto simp: report_fits_def report_ok_def)


text \<open>The records that no report has been handed yet, and the balance of the two books.\<close>

definition net_pending :: "net_state \<Rightarrow> UserTraffic list" where
  "net_pending st = unreported (net_report st) (r_RepoList (Rtask (ss_api (sys_server st))))"

definition net_books :: "net_state \<Rightarrow> bool" where
  "net_books st \<longleftrightarrow>
     report_ok (net_report st) (sys_reported st) (r_RepoList (Rtask (ss_api (sys_server st)))) \<and>
     (\<forall>i. i \<noteq> '''' \<longrightarrow>
        user_U i (concat (sys_reported st) @ net_lost st) + user_U i (net_pending st) =
          word_of_int (billable_U (ss_m (sys_server st)) i) + flights_U i st \<and>
        user_D i (concat (sys_reported st) @ net_lost st) + user_D i (net_pending st) =
          word_of_int (billable_D (ss_m (sys_server st)) i) + flights_D i st)"

definition net_listed :: "crypto \<Rightarrow> aeadSpec list \<Rightarrow> net_state \<Rightarrow> bool" where
  "net_listed cr specs st \<longleftrightarrow>
     server_listed cr specs (sys_listed st) (sys_server st) \<and> (\<forall>p g. udp_listed cr specs (sys_listed st) p (net_udp st p g))"

definition conns_inv :: "crypto \<Rightarrow> aeadSpec list \<Rightarrow> Key set \<Rightarrow> live_conn list \<Rightarrow> bool" where
  "conns_inv cr specs K lvs \<longleftrightarrow>
     (\<forall>lv \<in> set lvs. env_crypto (lv_env lv) = cr \<and> handler_listed cr specs K (lv_port lv) (lv_conn lv) (lv_handler lv) \<and>
        handler_counts (lv_handler lv))"

text \<open>What a run of \<open>doRun\<close> has still to install.\<close>

definition job_listed :: "crypto \<Rightarrow> aeadSpec list \<Rightarrow> Key set \<Rightarrow> run_job \<Rightarrow> bool" where
  "job_listed cr specs K j \<longleftrightarrow> (\<forall>(p, es) \<in> set (rj_lists j). \<forall>e \<in> set es. listed_entry cr specs K p e)"

definition net_inv :: "crypto \<Rightarrow> aeadSpec list \<Rightarrow> net_state \<Rightarrow> bool" where
  "net_inv cr specs st \<longleftrightarrow> net_listed cr specs st \<and> conns_inv cr specs (sys_listed st) (net_conns st) \<and> net_books st \<and>
     (\<forall>j. net_job st = Some j \<longrightarrow> job_listed cr specs (sys_listed st) j)"

lemma put_list_simps [simp]:
  "ss_m (sys_server (put_list p g cl st)) = ss_m (sys_server st)" "ss_api (sys_server (put_list p g cl st)) = ss_api (sys_server st)"
  "sys_listed (put_list p g cl st) = sys_listed st" "sys_reported (put_list p g cl st) = sys_reported st"
  "net_conns (put_list p g cl st) = net_conns st" "net_job (put_list p g cl st) = net_job st"
  "net_report (put_list p g cl st) = net_report st" "net_lost (put_list p g cl st) = net_lost st"
  by (simp_all add: put_list_def)

lemma put_list_listed:
  assumes "net_listed cr specs st" and "port_listed cr specs (sys_listed st) p cl"
  shows "net_listed cr specs (put_list p g cl st)"
proof -
  have "udp_listed cr specs (sys_listed st) p ((net_udp st p g)\<lparr>udp_ciphers := cl\<rparr>)"
    using assms by (intro udp_listed_share(1)) (simp_all add: net_listed_def)
  with assms show ?thesis by (auto simp: net_listed_def put_list_def server_listed_def)
qed

lemma inst_list_queue [simp]: "inst_list (st\<lparr>net_queue := q\<rparr>) p g = inst_list st p g"
  by (simp add: inst_list_def split: option.split)

lemma inst_list_listed: "net_listed cr specs st \<Longrightarrow> port_listed cr specs (sys_listed st) p (inst_list st p g)"
  by (auto simp: net_listed_def inst_list_def server_listed_def udp_listed_def split: option.split)

lemma inst_udp_listed: "net_listed cr specs st \<Longrightarrow> udp_listed cr specs (sys_listed st) p (inst_udp st p g)"
  unfolding inst_udp_def by (rule udp_listed_share(2)) (simp_all add: inst_list_listed, simp add: net_listed_def)

lemma put_udp_listed:
  assumes "net_listed cr specs st" and "udp_listed cr specs (sys_listed st) p u"
  shows "net_listed cr specs (put_udp p g u st)"
  unfolding put_udp_def
  by (rule put_list_listed) (use assms in \<open>auto simp: net_listed_def server_listed_def udp_listed_def\<close>)

lemma put_tcp_listed:
  assumes "net_listed cr specs st" and "marks (inst_list st p g) (tcp_ciphers t)"
  shows "net_listed cr specs (put_tcp p g t st)"
proof -
  have "port_listed cr specs (sys_listed st) p (tcp_ciphers t)"
    using inst_list_listed [OF assms(1)] port_listed_marks [OF assms(2)] by simp
  with assms(1) show ?thesis
    unfolding put_tcp_def by (intro put_list_listed) (auto simp: net_listed_def server_listed_def)
qed

lemma net_listed_mono:
  assumes "net_listed cr specs st" and "sys_listed st \<subseteq> L"
  shows "net_listed cr specs (st\<lparr>sys_hash := h, sys_listed := L, net_job := oj\<rparr>)"
  using assms(1) server_listed_mono [OF _ assms(2)] udp_listed_mono [OF _ assms(2)] by (simp add: net_listed_def)

lemma net_tick_listed:
  assumes "net_listed cr specs st" and "server_listed cr specs (sys_listed st) s'"
  shows "net_listed cr specs ((net_tick stores s' st)\<lparr>net_job := oj\<rparr>)"
proof -
  have "udp_listed cr specs (sys_listed st) p ((snd (udp_Stop (net_udp st p g)))\<lparr>udp_ciphers := inst_list st p g\<rparr>)" for p g
    using udp_listed_share(3) [OF _ inst_list_listed [OF assms(1)]] assms(1) by (simp add: net_listed_def udp_Stop_def)
  with assms show ?thesis
    using started_udp_listed by (simp add: net_listed_def net_tick_def Let_def)
qed

section \<open>Runs of doRun\<close>

lemma job_listed_mono: "job_listed cr specs K j \<Longrightarrow> K \<subseteq> L \<Longrightarrow> job_listed cr specs L j"
  by (fastforce simp: job_listed_def listed_entry_def)

lemma doRun_begin_listed:
  assumes "doRun_begin cr specs order order2 s users = Ok j" and "\<And>xs. mset (order2 xs) = mset xs"
  shows "job_listed cr specs (set users) j"
proof -
  from assms(1) obtain pcs where pcs: "load_keys cr specs users [] = Ok pcs" "rj_lists j = order2 pcs"
    by (auto simp: doRun_begin_def Let_def split: result.splits)
  have "loaded cr specs users pcs" using load_keys_spec [OF pcs(1), of "[]"] by (simp add: loaded_def)
  from loaded_listed [OF this] show ?thesis
    using mset_eq_setD [OF assms(2), of pcs] by (fastforce simp: job_listed_def pcs(2))
qed

lemma CheckUser_begin_listed:
  assumes "CheckUser_begin cr specs order order2 h s users = Ok (h', Some j)" and "\<And>xs. mset (order2 xs) = mset xs"
  shows "job_listed cr specs (set users) j"
  using assms(1) doRun_begin_listed [OF _ assms(2)]
  by (auto simp: CheckUser_begin_def split: prod.splits if_splits result.splits)

text \<open>A step of a run keeps the keys listed, leaves the traffic as it is and does not touch the replay cache.\<close>

lemma run_step_keeps:
  assumes "run_step oe j s = (s', nxt)"
  shows "same_books s s'" "ss_replayCache s' = ss_replayCache s"
    "server_listed cr specs K s \<Longrightarrow> job_listed cr specs K j \<Longrightarrow> server_listed cr specs K s'"
    "nxt = Inl j' \<Longrightarrow> job_listed cr specs K j \<Longrightarrow> job_listed cr specs K j'"
proof -
  consider (port) p ps where "rj_ports j = p # ps" "s' = fst (change_ports oe (rj_changes j) [p] s)" "\<And>j'. nxt = Inl j' \<Longrightarrow> rj_lists j' = rj_lists j"
    | (lists) pe pcs where "rj_lists j = pe # pcs" "update_lists [pe] s = Ok s'" "nxt = Inl (j\<lparr>rj_lists := pcs\<rparr>)"
    | (over) n m r where "s' = s \<or> s' = s\<lparr>ss_m := SetNumAccessKeys (ss_m s) n m\<rparr>" "nxt = Inr r"
  proof (cases "rj_ports j")
    case (Cons p ps)
    obtain s1 oe1 where "change_ports oe (rj_changes j) [p] s = (s1, oe1)" by fastforce
    with assms Cons show ?thesis by (intro port [of p ps]) (auto simp: run_step_def simp del: change_ports.simps split: option.splits)
  next
    case Nil
    show ?thesis
    proof (cases "rj_lists j")
      case (Cons pe pcs)
      with Nil assms lists over show ?thesis
        by (cases "update_lists [pe] s") (auto simp: run_step_def simp del: update_lists.simps)
    next
      case lists_nil: Nil
      with Nil assms over show ?thesis by (auto simp: run_step_def)
    qed
  qed
  note cases = this
  show "same_books s s'"
    by (rule cases) (auto simp: change_ports_books dest: update_lists_books simp del: change_ports.simps update_lists.simps, auto simp: same_books_def)
  show "ss_replayCache s' = ss_replayCache s"
    by (rule cases) (auto simp: change_ports_replayCache dest: update_lists_replayCache simp del: change_ports.simps update_lists.simps)
  show "server_listed cr specs K s'" if listed: "server_listed cr specs K s" "job_listed cr specs K j"
  proof (rule cases)
    fix pe pcs
    assume pe: "rj_lists j = pe # pcs" "update_lists [pe] s = Ok s'"
    from update_lists_listed [OF pe(2) listed(1)] listed(2) pe(1) show ?thesis by (simp add: job_listed_def)
  next
    fix p ps
    assume "s' = fst (change_ports oe (rj_changes j) [p] s)"
    then show ?thesis by (simp only: change_ports_listed [OF listed(1)])
  qed (use listed(1) in \<open>auto simp: server_listed_def\<close>)
  show "job_listed cr specs K j'" if "nxt = Inl j'" "job_listed cr specs K j"
  proof -
    have "set (rj_lists j') \<subseteq> set (rj_lists j)" by (rule cases) (use that(1) in auto)
    with that(2) show ?thesis unfolding job_listed_def by blast
  qed
qed

section \<open>The books\<close>

lemma books_shift:
  fixes x y y' f f' :: "64 word"
  assumes "x + y = word_of_int b + f" and "y' - y = word_of_int (b' - b) + (f' - f)"
  shows "x + y' = word_of_int b' + f'"
proof -
  have "y' = y + word_of_int b' - word_of_int b + f' - f" using assms(2) by (simp add: wi_hom_sub [symmetric] algebra_simps)
  then have "x + y' = (x + y) + word_of_int b' - word_of_int b + f' - f" by simp
  also have "\<dots> = word_of_int b' + f'" unfolding assms(1) by simp
  finally show ?thesis .
qed

definition net_equal :: "net_state \<Rightarrow> net_state \<Rightarrow> bool" where
  "net_equal st st' \<longleftrightarrow> sys_reported st' = sys_reported st \<and> net_report st' = net_report st \<and> net_lost st' = net_lost st \<and>
     grows (ss_api (sys_server st)) (ss_api (sys_server st')) \<and>
     (\<forall>i. i \<noteq> '''' \<longrightarrow>
        user_U i (r_RepoList (Rtask (ss_api (sys_server st')))) - user_U i (r_RepoList (Rtask (ss_api (sys_server st)))) =
          word_of_int (billable_U (ss_m (sys_server st')) i - billable_U (ss_m (sys_server st)) i) + (flights_U i st' - flights_U i st) \<and>
        user_D i (r_RepoList (Rtask (ss_api (sys_server st')))) - user_D i (r_RepoList (Rtask (ss_api (sys_server st)))) =
          word_of_int (billable_D (ss_m (sys_server st')) i - billable_D (ss_m (sys_server st)) i) + (flights_D i st' - flights_D i st))"

lemma net_books_equal:
  assumes "net_books st" and "net_equal st st'"
  shows "net_books st'"
proof -
  from assms(2) obtain l where l: "r_RepoList (Rtask (ss_api (sys_server st'))) = r_RepoList (Rtask (ss_api (sys_server st))) @ l"
    and same: "sys_reported st' = sys_reported st" "net_report st' = net_report st" "net_lost st' = net_lost st"
    unfolding net_equal_def grows_def by blast
  from assms(1) have ok: "report_ok (net_report st) (sys_reported st) (r_RepoList (Rtask (ss_api (sys_server st))))"
    by (simp add: net_books_def)
  have fits: "report_ok (net_report st') (sys_reported st') (r_RepoList (Rtask (ss_api (sys_server st'))))"
    and pending: "net_pending st' = net_pending st @ l"
    using report_ok_append [OF ok] report_fits_append [OF report_ok_fits [OF ok]] by (simp_all add: net_pending_def l same)
  have "user_U i (concat (sys_reported st') @ net_lost st') + user_U i (net_pending st') =
      word_of_int (billable_U (ss_m (sys_server st')) i) + flights_U i st' \<and>
    user_D i (concat (sys_reported st') @ net_lost st') + user_D i (net_pending st') =
      word_of_int (billable_D (ss_m (sys_server st')) i) + flights_D i st'" if i: "i \<noteq> ''''" for i
  proof -
    from assms(1) i have old: "user_U i (concat (sys_reported st) @ net_lost st) + user_U i (net_pending st) =
        word_of_int (billable_U (ss_m (sys_server st)) i) + flights_U i st"
      "user_D i (concat (sys_reported st) @ net_lost st) + user_D i (net_pending st) =
        word_of_int (billable_D (ss_m (sys_server st)) i) + flights_D i st" by (simp_all add: net_books_def)
    from assms(2) i have new: "user_U i (net_pending st') - user_U i (net_pending st) =
        word_of_int (billable_U (ss_m (sys_server st')) i - billable_U (ss_m (sys_server st)) i) + (flights_U i st' - flights_U i st)"
      "user_D i (net_pending st') - user_D i (net_pending st) =
        word_of_int (billable_D (ss_m (sys_server st')) i - billable_D (ss_m (sys_server st)) i) + (flights_D i st' - flights_D i st)"
      by (simp_all add: net_equal_def pending l user_append)
    from books_shift [OF old(1) new(1)] books_shift [OF old(2) new(2)] show ?thesis unfolding same by blast
  qed
  with fits show ?thesis by (simp add: net_books_def)
qed

text \<open>Steps that start or end no flight.\<close>

lemma net_equal_books:
  assumes "books_equal (ss_m (sys_server st)) (ss_api (sys_server st)) (ss_m (sys_server st')) (ss_api (sys_server st'))"
    and "grows (ss_api (sys_server st)) (ss_api (sys_server st'))"
    and "sys_reported st' = sys_reported st" and "net_conns st' = net_conns st"
    and "net_report st' = net_report st" and "net_lost st' = net_lost st"
  shows "net_equal st st'"
  using assms by (simp add: net_equal_def books_equal_def flights_U_def flights_D_def)

lemma sum_list_map_update:
  fixes f :: "'a \<Rightarrow> 'b :: ab_group_add"
  shows "k < length xs \<Longrightarrow> sum_list (map f (xs[k := x])) = sum_list (map f xs) + (f x - f (xs ! k))"
  by (induction xs arbitrary: k) (auto split: nat.split)


lemma put_tcp_books:
  "ss_m (sys_server (put_tcp p g t st)) = tcp_m t" "ss_api (sys_server (put_tcp p g t st)) = tcp_api t"
  "sys_reported (put_tcp p g t st) = sys_reported st" "sys_listed (put_tcp p g t st) = sys_listed st"
  "net_conns (put_tcp p g t st) = net_conns st" "net_job (put_tcp p g t st) = net_job st"
  "net_report (put_tcp p g t st) = net_report st" "net_lost (put_tcp p g t st) = net_lost st"
  by (simp_all add: put_tcp_def)

lemma put_udp_books:
  "ss_m (sys_server (put_udp p g u st)) = udp_m u" "ss_api (sys_server (put_udp p g u st)) = udp_api u"
  "sys_reported (put_udp p g u st) = sys_reported st" "sys_listed (put_udp p g u st) = sys_listed st"
  "net_conns (put_udp p g u st) = net_conns st" "net_job (put_udp p g u st) = net_job st"
  "net_report (put_udp p g u st) = net_report st" "net_lost (put_udp p g u st) = net_lost st"
  by (simp_all add: put_udp_def)

lemma handle_equal:
  assumes "i < length (net_conns st)" and "net_conns st ! i = lv"
    and "flight_equal (inst_tcp st (lv_port lv) (lv_gen lv)) (lv_handler lv) t' h'" and "grows (ss_api (sys_server st)) (tcp_api t')"
  shows "net_equal st ((put_tcp (lv_port lv) (lv_gen lv) t' st)\<lparr>net_conns := (net_conns st)[i := lv\<lparr>lv_handler := h'\<rparr>]\<rparr>)"
  using assms(3,4)
  by (simp add: sum_list_map_update [OF assms(1)] net_equal_def flight_equal_def put_tcp_books flights_U_def flights_D_def assms(2) inst_tcp_def)

lemma udp_equal:
  assumes "books_equal (udp_m (inst_udp st p g)) (udp_api (inst_udp st p g)) (udp_m u') (udp_api u')"
    and "grows (ss_api (sys_server st)) (udp_api u')"
  shows "net_equal st (put_udp p g u' st)" "net_equal st ((put_udp p g u' st)\<lparr>net_serving := sv\<rparr>)"
  using assms by (auto intro!: net_equal_books simp: put_udp_books inst_udp_def)

section \<open>Every step\<close>

lemma conns_inv_mono: "conns_inv cr specs K lvs \<Longrightarrow> K \<subseteq> L \<Longrightarrow> conns_inv cr specs L lvs"
  by (auto simp: conns_inv_def intro: handler_listed_mono)

lemma conns_inv_update:
  assumes "conns_inv cr specs K lvs" and "handler_listed cr specs K (lv_port lv) (lv_conn lv) h'" and "handler_counts h'"
    and "lv \<in> set lvs"
  shows "conns_inv cr specs K (lvs[i := lv\<lparr>lv_handler := h'\<rparr>])"
  using assms set_update_subset_insert [of lvs i "lv\<lparr>lv_handler := h'\<rparr>"] by (auto simp: conns_inv_def)

lemma net_step_inv:
  assumes "net_step cr specs st st'" and "net_inv cr specs st"
  shows "net_inv cr specs st'"
proof -
  from assms(2) have listed: "net_listed cr specs st" and conns: "conns_inv cr specs (sys_listed st) (net_conns st)"
    and books: "net_books st" and job: "\<And>j. net_job st = Some j \<Longrightarrow> job_listed cr specs (sys_listed st) j"
    by (simp_all add: net_inv_def)
  show ?thesis
    using assms(1)
  proof cases
    case (user_tick odb users order order2 hash' job')
    let ?L = "sys_listed st \<union> set users"
    have "job_listed cr specs ?L j" if "job' = Some j" for j
      using CheckUser_begin_listed [OF user_tick(6) [unfolded that] user_tick(5)] job_listed_mono [of cr specs "set users" j ?L] by simp
    moreover have "net_books st'" using books by (simp add: user_tick(1) net_books_def net_pending_def flights_U_def flights_D_def)
    ultimately show ?thesis
      using net_listed_mono [OF listed, of ?L] conns_inv_mono [OF conns, of ?L] by (simp add: net_inv_def user_tick(1))
  next
    case (run j oe s' nxt stores)
    have server: "server_listed cr specs (sys_listed st) (sys_server st)" using listed by (simp add: net_listed_def)
    note keeps = run_step_keeps [OF run(3)]
    have "net_equal st st'"
      using same_books_equal [OF keeps(1)] keeps(1)
      by (intro net_equal_books) (simp_all add: run(1) net_tick_def Let_def same_books_def)
    moreover have "job_listed cr specs (sys_listed st) j'" if "nxt = Inl j'" for j'
      using keeps(4) [OF that job [OF run(2)]] .
    ultimately show ?thesis
      using net_tick_listed [OF listed keeps(3) [OF server job [OF run(2)]]] conns net_books_equal [OF books]
      by (auto simp: net_inv_def run(1) net_tick_def Let_def split: sum.splits)
  next
    case (report_begin now l)
    then have l: "l = r_RepoList (Rtask (ss_api (sys_server st)))" by (auto simp: CheckRepo_due_def split: if_splits)
    have "net_pending st = l" by (simp add: net_pending_def report_begin(2) l)
    moreover have "net_pending st' = []" by (simp add: net_pending_def report_begin(1) l [symmetric])
    ultimately have "net_books st'"
      using books by (simp add: report_begin(1) net_books_def l flights_U_def flights_D_def user_append user_nil ac_simps)
    with listed conns job report_begin(1) show ?thesis by (simp add: net_inv_def net_listed_def)
  next
    case (report_end now n)
    have "net_pending st' = []" by (simp add: net_pending_def report_end(1) CheckRepo_done_def)
    with books have "net_books st'"
      by (simp add: report_end(1) net_books_def net_pending_def flights_U_def flights_D_def user_append user_nil CheckRepo_done_def ac_simps)
    with listed conns job report_end(1) show ?thesis by (simp add: net_inv_def net_listed_def server_listed_def)
  next
    case (www_begin now l')
    with listed conns books job show ?thesis
      by (simp add: net_inv_def net_listed_def net_books_def net_pending_def flights_U_def flights_D_def)
  next
    case (www_end now)
    with listed conns books job show ?thesis
      by (simp add: net_inv_def net_listed_def server_listed_def net_books_def net_pending_def flights_U_def flights_D_def CheckWwwRepo_done_def)
  next
    case (accept p conn)
    with listed conns books job show ?thesis
      by (simp add: net_inv_def net_listed_def net_books_def net_pending_def flights_U_def flights_D_def)
  next
    case (handler_begin qs p g conn qs' env)
    have "port_listed cr specs (sys_listed st) p (inst_list st p g)" using listed by (rule inst_list_listed)
    with listed conns books job handler_begin show ?thesis
      by (simp add: begun_def net_inv_def net_listed_def conns_inv_def handler_listed_def handler_start_def inst_tcp_def
          net_books_def net_pending_def flights_U_def flights_D_def)
  next
    case (handle i lv t' h')
    have lv: "lv \<in> set (net_conns st)" using handle(2,3) by auto
    with conns have inv: "env_crypto (lv_env lv) = cr" "handler_listed cr specs (sys_listed st) (lv_port lv) (lv_conn lv) (lv_handler lv)"
      "handler_counts (lv_handler lv)" by (auto simp: conns_inv_def)
    from handler_step_flight [OF handle(4) inv(3)] have fl: "flight_equal (inst_tcp st (lv_port lv) (lv_gen lv)) (lv_handler lv) t' h'"
      and counts: "handler_counts h'" by simp_all
    have grow: "grows (ss_api (sys_server st)) (tcp_api t')" using handler_step_grows [OF handle(4)] by (simp add: inst_tcp_def)
    have "tcp_targetIPValidator (inst_tcp st (lv_port lv) (lv_gen lv)) = RequirePublicIP" by (simp add: inst_tcp_def)
    from handler_step_listed [OF handle(4) _ this, unfolded inv(1), OF inv(2)]
    have "conns_inv cr specs (sys_listed st) (net_conns st')"
      using conns_inv_update [OF conns _ counts lv, of i] by (simp add: handle(1))
    moreover have "marks (inst_list st (lv_port lv) (lv_gen lv)) (tcp_ciphers t')"
      using handler_step_marks [OF handle(4)] by (simp add: inst_tcp_def)
    from put_tcp_listed [OF listed this] have "net_listed cr specs st'" by (simp add: handle(1) net_listed_def)
    moreover have "net_books st'"
      using net_books_equal [OF books handle_equal [OF handle(2,3) fl grow]] by (simp add: handle(1))
    ultimately show ?thesis using job by (simp add: net_inv_def handle(1) put_tcp_books)
  next
    case (packet p g uenv r u')
    from serve_packet_listed [OF packet(5) inst_udp_listed [OF listed] packet(3)] put_udp_listed [OF listed]
    have "net_listed cr specs st'" by (simp add: packet(1))
    moreover have "grows (ss_api (sys_server st)) (udp_api u')" using serve_packet_grows [OF packet(5)] by (simp add: inst_udp_def)
    then have "net_books st'"
      using net_books_equal [OF books udp_equal(1)] serve_packet_effect [OF packet(5)] by (simp add: packet(1))
    ultimately show ?thesis using conns job by (simp add: net_inv_def packet(1) put_udp_books)
  next
    case (serve_end p g uenv err u')
    have u': "u' = inst_udp st p g" using serve_end(3) by (auto simp: serve_packet_def split: if_splits)
    from put_udp_listed [OF listed udp_Serve_end_listed [OF inst_udp_listed [OF listed]], of p g "ue_now uenv" g]
    have "net_listed cr specs st'" by (simp add: serve_end(1) u' net_listed_def)
    moreover have "net_books st'"
      unfolding serve_end(1)
      by (rule net_books_equal [OF books udp_equal(2)]) (simp_all add: u' udp_Serve_end_def nat_Close_def inst_udp_def)
    ultimately show ?thesis using conns job by (simp add: net_inv_def serve_end(1) put_udp_books)
  next
    case (target_packet p g k key uenv wr pkt r b u' pkt')
    from timedCopy_step_listed [OF target_packet(4) inst_udp_listed [OF listed]] put_udp_listed [OF listed]
    have "net_listed cr specs st'" by (simp add: target_packet(1))
    moreover note un = timedCopy_step_unbilled [OF target_packet(4)]
    then have "grows (ss_api (sys_server st)) (udp_api u')" by (simp add: unbilled_def inst_udp_def)
    then have "net_books st'"
      using net_books_equal [OF books udp_equal(1)] unbilled_books [OF un] by (simp add: target_packet(1))
    ultimately show ?thesis using conns job by (simp add: net_inv_def target_packet(1) put_udp_books)
  next
    case (nat_end p g k key pc u')
    from nat_finish_listed [OF inst_udp_listed [OF listed], of p g k key] nat_end(3) put_udp_listed [OF listed]
    have "net_listed cr specs st'" by (simp add: nat_end(1))
    moreover note un = nat_finish_unbilled [of "inst_udp st p g" k key]
    then have "grows (ss_api (sys_server st)) (udp_api u')" using nat_end(3) by (simp add: unbilled_def inst_udp_def)
    then have "net_books st'"
      using net_books_equal [OF books udp_equal(1)] unbilled_books [OF un] nat_end(3)
      by (simp add: nat_end(1))
    ultimately show ?thesis using conns job by (simp add: net_inv_def nat_end(1) put_udp_books)
  qed
qed

lemma net_started_inv:
  assumes "net_started cr specs aenv st"
  shows "net_inv cr specs st"
proof -
  from assms have "sys_started cr specs aenv (system.truncate st)" by (simp add: net_started_def)
  from sys_started_inv [OF this] have "server_listed cr specs (sys_listed st) (sys_server st)" "books_balance (system.truncate st)"
    by (simp_all add: sys_inv_def system.truncate_def)
  moreover have "udp_listed cr specs (sys_listed st) p (net_udp st p g)" for p g
  proof (cases "current st p g")
    case True
    with assms obtain store where "net_udp st p g = started_udp store (sys_server st)" unfolding net_started_def by blast
    then show ?thesis by (simp add: started_udp_listed)
  next
    case False
    with assms obtain cl m c store where "cl_list cl = []" "net_udp st p g = NewUDPService defaultNatTimeout cl m c store"
      unfolding net_started_def by blast
    then show ?thesis by (simp add: new_udp_listed)
  qed
  ultimately show ?thesis
    using assms by (simp add: net_inv_def net_listed_def conns_inv_def net_started_def net_books_def books_balance_def
        net_pending_def flights_U_def flights_D_def system.truncate_def)
qed

lemma net_reachable_inv: "(net_step cr specs)\<^sup>*\<^sup>* st0 st \<Longrightarrow> net_started cr specs aenv st0 \<Longrightarrow> net_inv cr specs st"
  by (induction rule: rtranclp_induct) (auto intro: net_started_inv net_step_inv)


section \<open>A running server\<close>

text \<open>A server with one user and no connection yet, the connections of its port, and a run in which the client of the user, whose
  session is \<open>segs\<close>, is connected to its target.\<close>

definition toy_net :: "system \<Rightarrow> net_state" where
  "toy_net st = system.extend st (net_state.fields (\<lambda>_. 0)
     (\<lambda>p g. if ss_ports (sys_server st) p \<noteq> None \<and> g = 0 then started_udp (\<lambda>_. toy_natconn) (sys_server st)
            else NewUDPService defaultNatTimeout (NewCipherList no_entries) newShadowsocksMetrics (api_New 0 0) (\<lambda>_. toy_natconn))
     (\<lambda>p g. ss_ports (sys_server st) p \<noteq> None \<and> g = 0) [] [] None None None [])"

lemma toy_net_simps [simp]:
  "system.truncate (toy_net st) = st" "sys_server (toy_net st) = sys_server st" "sys_listed (toy_net st) = sys_listed st"
  "sys_reported (toy_net st) = sys_reported st" "net_conns (toy_net st) = []" "net_gen (toy_net st) p = 0"
  "net_queue (toy_net st) = []" "net_job (toy_net st) = None" "net_report (toy_net st) = None" "net_www (toy_net st) = None"
  "net_lost (toy_net st) = []"
  by (simp_all add: toy_net_def system.truncate_def system.extend_def net_state.fields_def)

lemma toy_net_started: "sys_started toy_crypto toy_specs toy_api_env st \<Longrightarrow> net_started toy_crypto toy_specs toy_api_env (toy_net st)"
  unfolding net_started_def current_def toy_net_simps
proof (intro conjI allI impI)
  fix p and g :: nat
  assume "\<not> (ss_ports (sys_server st) p \<noteq> None \<and> 0 = g)"
  then have "net_udp (toy_net st) p g =
      NewUDPService defaultNatTimeout (NewCipherList no_entries) newShadowsocksMetrics (api_New 0 0) (\<lambda>_. toy_natconn)"
    by (auto simp: toy_net_def system.extend_def net_state.fields_def)
  then show "\<exists>cl m c store. cl_list cl = [] \<and> net_udp (toy_net st) p g = NewUDPService defaultNatTimeout cl m c store"
    by (intro exI conjI) (simp_all add: NewCipherList_def)
qed (auto simp: toy_net_def system.extend_def net_state.fields_def)

text \<open>The steps of one handler are steps of the server.\<close>

lemma inst_put_list: "inst_list (put_list p g cl st) p g = cl"
  by (auto simp: inst_list_def put_list_def current_def split: option.split)

lemma inst_tcp_conns: "inst_tcp (st\<lparr>net_conns := cs\<rparr>) p g = inst_tcp st p g" "inst_tcp (begun p' g' env conn st) p g = inst_tcp st p g"
  by (simp_all add: begun_def inst_tcp_def inst_list_def split: option.split)

text \<open>A connection to an open port can be accepted and its handler begin at once.\<close>

lemma begun_steps:
  assumes "ss_ports (sys_server st) p \<noteq> None" and "env_crypto env = cr"
  shows "(net_step cr specs)\<^sup>*\<^sup>* st (begun p (net_gen st p) env conn st)"
proof -
  let ?st1 = "st\<lparr>net_queue := net_queue st @ [(p, net_gen st p, conn)]\<rparr>"
  have "net_step cr specs st ?st1" using assms(1) by (rule net_step.accept)
  moreover have "net_step cr specs ?st1 (begun p (net_gen st p) env conn (?st1\<lparr>net_queue := net_queue st @ []\<rparr>))"
    by (rule net_step.handler_begin) (simp_all add: assms(2))
  then have "net_step cr specs ?st1 (begun p (net_gen st p) env conn st)" by simp
  ultimately show ?thesis by (meson r_into_rtranclp rtranclp.rtrancl_into_rtrancl)
qed

lemma inst_put_tcp:
  assumes "tcp_targetIPValidator t = RequirePublicIP" and "tcp_replayCache t \<noteq> None"
  shows "inst_tcp (put_tcp p g t st) p g = t"
proof -
  have "ss_replayCache (sys_server (put_tcp p g t st)) = the (tcp_replayCache t)"
    using assms(2) by (auto simp: put_tcp_def put_list_def)
  with assms show ?thesis
    by (simp add: inst_tcp_def put_tcp_books) (simp add: put_tcp_def inst_put_list)
qed

lemma handler_step_cache:
  assumes "handler_step env conn (s, h) (s', h')" and "tcp_replayCache s \<noteq> None"
  shows "tcp_replayCache s' \<noteq> None"
  using assms(1)
proof (rule handler_stepE)
  assume "main_step env conn s h = Some (s', h')"
  with assms(2) show ?thesis
    by (cases h)
      (auto simp: search_step_def replay_step_def probe_step_def visit_step_def join_step_def finish_def Add_def Let_def
        split: result.splits option.splits prod.splits if_splits up_thread.splits down_thread.splits)
qed (use assms(2) in simp)

lemma net_follows:
  assumes "(handler_step (lv_env lv) (lv_conn lv))\<^sup>*\<^sup>* (inst_tcp st (lv_port lv) (lv_gen lv), lv_handler lv) (t', h')"
    and "i < length (net_conns st)" and "net_conns st ! i = lv"
  shows "\<exists>st'. (net_step cr specs)\<^sup>*\<^sup>* st st' \<and> i < length (net_conns st') \<and> net_conns st' ! i = lv\<lparr>lv_handler := h'\<rparr> \<and>
    inst_tcp st' (lv_port lv) (lv_gen lv) = t'"
  using assms(1)
proof (induction rule: rtranclp_induct2)
  case refl
  from assms(2,3) show ?case by (intro exI [of _ st]) simp
next
  case (step t h t' h')
  from step(3) obtain st1 where st1: "(net_step cr specs)\<^sup>*\<^sup>* st st1" "i < length (net_conns st1)"
    "net_conns st1 ! i = lv\<lparr>lv_handler := h\<rparr>" "inst_tcp st1 (lv_port lv) (lv_gen lv) = t" by blast
  let ?st2 = "(put_tcp (lv_port lv) (lv_gen lv) t' st1)\<lparr>net_conns := (net_conns st1)[i := lv\<lparr>lv_handler := h'\<rparr>]\<rparr>"
  have "net_step cr specs st1 ?st2"
    using net_step.handle [OF st1(2,3), of t' h' cr specs] step(2) st1(4) by simp
  moreover have "tcp_targetIPValidator t' = RequirePublicIP" "tcp_replayCache t' \<noteq> None"
    using handler_step_validator [OF step(2)] handler_step_cache [OF step(2)] st1(4) by (auto simp: inst_tcp_def)
  then have "inst_tcp ?st2 (lv_port lv) (lv_gen lv) = t'"
    using inst_put_tcp [of t' "lv_port lv" "lv_gen lv" st1] by (simp add: inst_tcp_conns)
  moreover have "i < length (net_conns ?st2)" "net_conns ?st2 ! i = lv\<lparr>lv_handler := h'\<rparr>" using st1(2) by simp_all
  ultimately show ?case using st1(1) by (intro exI [of _ ?st2]) auto
qed

text \<open>An honest client is connected to its target, one step after the other.\<close>

lemma honest_steps:
  assumes keys: "keys_ok (env_crypto env) (tcp_ciphers s)" and hc: "honest_client (env_crypto env) (tcp_ciphers s) conn e salt A ps"
    and new: "\<not> IsServerSalt (env_crypto env) (entry_SaltGenerator (cl_entry (tcp_ciphers s) e)) salt"
      "fst (Add (tcp_replayCache s) (ID (cl_entry (tcp_ciphers s) e)) salt)"
    and addr: "fst (env_ReadAddr env (NewShadowsocksReader (env_pool env) (replayed_reader conn) (entry_Cipher (cl_entry (tcp_ciphers s) e)))) = Ok a"
    and dial: "dialTarget (tcp_targetIPValidator s) (fst (env_dial env (env_addr_String env a)))
      (snd (env_dial env (env_addr_String env a))) = Inr target"
  shows "\<exists>s' en uid rr. (handler_step env conn)\<^sup>*\<^sup>* (s, handler_start s) (s', HRelay en uid target rr)"
proof -
  let ?en = "cl_entry (MarkUsedByClientIP (tcp_ciphers s) e (client_ip env conn)) e"
  let ?ak = "\<lparr>ak_elt = Some e, ak_reader = replayed_reader conn, ak_salt = salt, ak_err = None, ak_id = ID (cl_entry (tcp_ciphers s) e)\<rparr>"
  obtain rc where rc: "Add (tcp_replayCache s) (ID (cl_entry (tcp_ciphers s) e)) salt = (True, rc)"
    using new(2) by (cases "Add (tcp_replayCache s) (ID (cl_entry (tcp_ciphers s) e)) salt") simp
  let ?s1 = "s\<lparr>tcp_ciphers := MarkUsedByClientIP (tcp_ciphers s) e (client_ip env conn)\<rparr>" and ?s2 = "\<lambda>s1. s1\<lparr>tcp_replayCache := rc\<rparr>"
  let ?h3 = "HServe ?en (ID (cl_entry (tcp_ciphers s) e)) (replayed_reader conn)"
  have "handler_step env conn (s, handler_start s) (?s1, HFound ?ak ?en)"
    by (rule handler_step.main)
      (simp add: handler_start_def search_step_def honest_client_found(1) [OF keys hc])
  moreover have "handler_step env conn (?s1, HFound ?ak ?en) (?s2 ?s1, ?h3)"
    by (rule handler_step.main) (use new(1) rc in \<open>simp add: replay_step_def MarkUsedByClientIP_def\<close>)
  moreover obtain ssr where ssr: "env_ReadAddr env (NewShadowsocksReader (env_pool env) (replayed_reader conn) (entry_Cipher ?en)) = (Ok a, ssr)"
    using addr by (cases "env_ReadAddr env (NewShadowsocksReader (env_pool env) (replayed_reader conn) (entry_Cipher ?en))")
      (simp add: MarkUsedByClientIP_def)
  then have "handler_step env conn (?s2 ?s1, ?h3) (?s2 ?s1, HVisit ?en (ID (cl_entry (tcp_ciphers s) e)) a (lift_ssr (conn_later conn) ssr))"
    by (intro handler_step.main) (simp add: address_step_def)
  moreover have "\<exists>s4 rr. visit_step env conn (?s2 ?s1) ?en (ID (cl_entry (tcp_ciphers s) e)) a (lift_ssr (conn_later conn) ssr) =
      (s4, HRelay ?en (ID (cl_entry (tcp_ciphers s) e)) target rr)"
    by (simp add: visit_step_def Let_def case_prod_beta dial)
  then obtain s4 rr where "visit_step env conn (?s2 ?s1) ?en (ID (cl_entry (tcp_ciphers s) e)) a (lift_ssr (conn_later conn) ssr) =
      (s4, HRelay ?en (ID (cl_entry (tcp_ciphers s) e)) target rr)" by blast
  then have "handler_step env conn (?s2 ?s1, HVisit ?en (ID (cl_entry (tcp_ciphers s) e)) a (lift_ssr (conn_later conn) ssr))
      (s4, HRelay ?en (ID (cl_entry (tcp_ciphers s) e)) target rr)"
    by (intro handler_step.main) simp
  ultimately show ?thesis by (meson rtranclp.rtrancl_refl rtranclp.rtrancl_into_rtrancl)
qed

text \<open>A server with one user whose client has sent a session to its port.\<close>

lemma toy_net_client:
  obtains st port e conn A ps where "net_started toy_crypto toy_specs toy_api_env st" "net_conns st = []" "net_gen st 443 = 0"
    "ss_ports (sys_server st) 443 = Some port" "capacity (ss_replayCache (sys_server st)) = 0"
    "keys_ok toy_crypto (port_cipherList port)" "honest_client toy_crypto (port_cipherList port) conn e toy_client_salt A ps"
    "concat ps = [1] @ [2, 3]" "ID (cl_entry (port_cipherList port) e) = ''u1''" "entry_Cipher (cl_entry (port_cipherList port) e) = toy_cipher"
    "entry_SaltGenerator (cl_entry (port_cipherList port) e) = RandomServerSaltGenerator"
    "fst (toy_ReadAddr (NewShadowsocksReader (readBufPool toy_specs) (replayed_reader conn) toy_cipher)) = Ok [1]"
    "conn_writer conn = \<lparr>wout = [], wplan = []\<rparr>" "eof_chained (conn_reader conn)"
proof (rule toy_started)
  fix st0 port
  assume st0: "sys_started toy_crypto toy_specs toy_api_env st0" "ss_ports (sys_server st0) 443 = Some port"
    "capacity (ss_replayCache (sys_server st0)) = 0"
    "\<exists>es. port_keys (sys_server st0) 443 = Some es \<and> list_all2 (key_entry toy_crypto toy_specs) [toy_key] es"
  let ?cl = "port_cipherList port"
  have port443: "Port toy_key = 443" by (simp add: toy_key_def)
  from st0(4) obtain es where es: "port_keys (sys_server st0) 443 = Some es"
    "list_all2 (key_entry toy_crypto toy_specs) (filter (\<lambda>k. Port k = 443) [toy_key]) es" by (auto simp: toy_key_def)
  obtain port' e where port': "ss_ports (sys_server st0) 443 = Some port'" and e: "e \<in> set (cl_list (port_cipherList port'))"
    "cl_entry (port_cipherList port') e = MakeCipherEntry toy_crypto (key_ID toy_key) toy_cipher (Secret toy_key)"
    "\<And>e'. e' \<in> set (cl_list (port_cipherList port')) \<Longrightarrow> e' = e \<and> entry_Cipher (cl_entry (port_cipherList port') e') = toy_cipher"
    apply (rule loaded_port_element [OF es toy_load(6,7) port443 toy_load(9)])
    subgoal premises prems for port' e
    proof (rule prems(1) [OF prems(2-4)])
      fix e'
      assume "e' \<in> set (cl_list (port_cipherList port'))"
      from prems(5) [OF this] toy_load(9)
      show "e' = e \<and> entry_Cipher (cl_entry (port_cipherList port') e') = toy_cipher" by auto
    qed
    done
  have "port' = port" using st0(2) port' by simp
  note e = e [unfolded this]
  have en: "ID (cl_entry ?cl e) = ''u1''" "entry_Cipher (cl_entry ?cl e) = toy_cipher" "entry_SaltGenerator (cl_entry ?cl e) = RandomServerSaltGenerator"
    unfolding e(2) by (simp_all add: MakeCipherEntry_def serverSaltMarkLen_def minSaltEntropy_def toy_key_def)
  obtain A ssw sw' ps where run: "NewAEAD toy_crypto toy_cipher toy_client_salt = Ok A"
    "list_all chunk_ok ps" "ps \<noteq> []" "concat ps = [1] @ [2, 3]" "concat (wout (sw_writer sw')) = wire A toy_client_salt ps"
    "50 \<le> length (wire A toy_client_salt ps)"
    "writer_run toy_crypto (Inr (\<lambda>_. 0)) ([OpWrite False [2, 3]] @ [OpFlush]) ssw = Ok sw'"
    by (rule toy_client_session) (rule that, assumption+)
  let ?conn = "toy_conn [concat (wout (sw_writer sw'))] EOF"
  have toy: "honest_client toy_crypto toy_list ?conn 7 toy_client_salt A ps"
    using run by (simp add: honest_client_def toy_conn_def)
  have only: "\<forall>e' \<in> set (cl_list ?cl). P e' \<longrightarrow> e' = e" for P using e(3) by blast
  have hc: "honest_client toy_crypto ?cl ?conn e toy_client_salt A ps"
    unfolding honest_client_def en by (intro conjI e(1) only) (use toy in \<open>simp_all add: honest_client_def\<close>)
  have keys: "keys_ok toy_crypto ?cl" using e(3) toy_cipher_ok unfolding keys_ok_def by metis
  have addr: "fst (toy_ReadAddr (NewShadowsocksReader (readBufPool toy_specs) (replayed_reader ?conn) toy_cipher)) = Ok [1]"
    using toy_address_of [OF toy, of "[2, 3]"] run(4) by simp
  show thesis
    by (rule that [OF toy_net_started [OF st0(1)] _ _ _ _ keys hc run(4) en addr]) (use st0 run(6) in \<open>simp_all add: toy_conn_def\<close>)
qed

lemma toy_net_dial:
  "dialTarget RequirePublicIP (fst (env_dial toy_env (env_addr_String toy_env [1])))
     (snd (env_dial toy_env (env_addr_String toy_env [1]))) = Inr ([8, 8, 8, 8], toy_target)"
  using toy_dial by (simp add: toy_service_def)

lemma toy_net_relaying:
  obtains st st' lv where "net_started toy_crypto toy_specs toy_api_env st" "(net_step toy_crypto toy_specs)\<^sup>*\<^sup>* st st'"
    "lv \<in> set (net_conns st')" "lv_port lv = 443" "target_of (lv_handler lv) = Some [8, 8, 8, 8]"
proof (rule toy_net_client)
  fix st port e conn A ps
  assume st: "net_started toy_crypto toy_specs toy_api_env st" "net_conns st = []" "net_gen st 443 = 0"
    "ss_ports (sys_server st) 443 = Some port" "capacity (ss_replayCache (sys_server st)) = 0"
    "keys_ok toy_crypto (port_cipherList port)" "honest_client toy_crypto (port_cipherList port) conn e toy_client_salt A ps"
    "ID (cl_entry (port_cipherList port) e) = ''u1''" "entry_Cipher (cl_entry (port_cipherList port) e) = toy_cipher"
    "entry_SaltGenerator (cl_entry (port_cipherList port) e) = RandomServerSaltGenerator"
    "fst (toy_ReadAddr (NewShadowsocksReader (readBufPool toy_specs) (replayed_reader conn) toy_cipher)) = Ok [1]"
  let ?t = "inst_tcp st 443 0"
  have t: "tcp_ciphers ?t = port_cipherList port" "tcp_replayCache ?t = Some (ss_replayCache (sys_server st))"
    "tcp_targetIPValidator ?t = RequirePublicIP"
    using st(3,4) by (simp_all add: inst_tcp_def inst_list_def)
  have new: "\<not> IsServerSalt toy_crypto RandomServerSaltGenerator toy_client_salt"
    "fst (Add (Some (ss_replayCache (sys_server st))) ''u1'' toy_client_salt)"
    using st(5) by (simp_all add: Add_def randomServerSaltGenerator_IsServerSalt_def)
  obtain t' h where steps: "(handler_step toy_env conn)\<^sup>*\<^sup>* (?t, handler_start ?t) (t', h)" "target_of h = Some [8, 8, 8, 8]"
    using honest_steps [where env = toy_env and s = ?t and conn = conn and e = e, unfolded toy_env_simps t st(8-10),
        OF st(6,7) new st(11) toy_net_dial]
    by auto
  let ?lv = "\<lparr>lv_port = 443, lv_gen = 0, lv_env = toy_env, lv_conn = conn, lv_handler = handler_start ?t\<rparr>"
  let ?st1 = "begun 443 0 toy_env conn st"
  have accept: "(net_step toy_crypto toy_specs)\<^sup>*\<^sup>* st ?st1"
    using begun_steps [of st 443 toy_env toy_crypto toy_specs conn] st(3,4) by (simp add: toy_env_simps)
  have lv: "0 < length (net_conns ?st1)" "net_conns ?st1 ! 0 = ?lv" by (simp_all add: begun_def st(2))
  have "(handler_step (lv_env ?lv) (lv_conn ?lv))\<^sup>*\<^sup>* (inst_tcp ?st1 (lv_port ?lv) (lv_gen ?lv), lv_handler ?lv) (t', h)"
    using steps(1) by (simp add: inst_tcp_conns)
  from net_follows [OF this lv, of toy_crypto toy_specs] obtain st' where
    "(net_step toy_crypto toy_specs)\<^sup>*\<^sup>* ?st1 st'" "0 < length (net_conns st')" "net_conns st' ! 0 = ?lv\<lparr>lv_handler := h\<rparr>"
    by auto
  moreover from this have "?lv\<lparr>lv_handler := h\<rparr> \<in> set (net_conns st')" by (metis nth_mem)
  ultimately show thesis
    using accept steps(2) st(1)
    by (intro that [of st st' "?lv\<lparr>lv_handler := h\<rparr>"]) auto
qed

section \<open>Properties\<close>


text \<open>C5: Only listed users reach targets over TCP. In every state that the running server reaches, over every interleaving: a
  connection for which a target is or was connected came to a port at which a user is or was listed whose cipher opens its
  first 50 bytes, and the target has a public address. This holds for connections that began before a change of the list and for those of
  ports that have been closed meanwhile.\<close>

theorem listed_connections_only:
  assumes "net_started cr specs aenv st0" and "(net_step cr specs)\<^sup>*\<^sup>* st0 st"
    and "lv \<in> set (net_conns st)" and "target_of (lv_handler lv) = Some a"
  shows "RequirePublicIP a = None \<and>
    (\<exists>k \<in> sys_listed st. Port k = lv_port lv \<and>
       (\<exists>c. NewCipher cr specs (key_Cipher k) (Secret k) = Ok c \<and> opens cr (fst (ReadFull (conn_reader (lv_conn lv)) 50)) c))"
proof -
  from net_reachable_inv [OF assms(2,1)] assms(3)
  have "handler_listed cr specs (sys_listed st) (lv_port lv) (lv_conn lv) (lv_handler lv)"
    by (auto simp: net_inv_def conns_inv_def)
  with assms(4) obtain e where "RequirePublicIP a = None" "genuine cr specs (sys_listed st) (lv_port lv) (lv_conn lv) e"
    by (auto simp: handler_listed_def)
  then show ?thesis by (auto simp: genuine_def listed_entry_def)
qed

text \<open>C6: Only listed users reach targets over UDP, and they pay for it. In every state that the running server reaches, handling a
  packet from a client leaves what every NAT socket has sent as it is, or adds one packet to it; a packet that is added goes to
  a public address and is the payload in the client's packet, which opens under the secret of a user that is or was listed for the
  port, and the traffic records of this user, and of nobody else, grow by the size of the client's packet.\<close>

theorem listed_packets_only:
  assumes "net_started cr specs aenv st0" and "(net_step cr specs)\<^sup>*\<^sup>* st0 st"
    and "ue_crypto env = cr" and "serve_packet env (inst_udp st p g) (Inr (data, a)) = (b, u')"
  shows "sent_by u' k = sent_by (net_udp st p g) k \<or>
    (\<exists>tgt payload uid. sent_by u' k = sent_by (net_udp st p g) k @ [(tgt, payload)] \<and>
       client_packet cr specs (sys_listed st) p env (take serverUDPBufferSize data) uid (tgt, payload) \<and>
       (\<forall>i. i \<noteq> '''' \<longrightarrow> user_U i (r_RepoList (Rtask (udp_api u'))) =
          user_U i (r_RepoList (Rtask (ss_api (sys_server st)))) +
          (if i = uid then word_of_nat (length (take serverUDPBufferSize data)) else 0)))"
proof -
  from net_reachable_inv [OF assms(2,1)] have listed: "net_listed cr specs st" by (simp add: net_inv_def)
  obtain uid where
    sent: "sent_by u' k = sent_by (inst_udp st p g) k \<or>
      (\<exists>x. sent_by u' k = sent_by (inst_udp st p g) k @ [x] \<and>
         client_packet cr specs (sys_listed st) p env (take serverUDPBufferSize data) uid x)"
    and paid: "\<And>i. i \<noteq> '''' \<Longrightarrow> user_U i (r_RepoList (Rtask (udp_api u'))) =
       user_U i (r_RepoList (Rtask (udp_api (inst_udp st p g)))) + (if i = uid then word_of_nat (length (take serverUDPBufferSize data)) else 0)"
    apply (rule serve_packet_forwards [OF assms(4) inst_udp_listed [OF listed] assms(3)])
    subgoal premises prems for uid by (rule that [OF prems(3,4)])
    done
  have same: "sent_by (inst_udp st p g) k = sent_by (net_udp st p g) k" "udp_api (inst_udp st p g) = ss_api (sys_server st)"
    by (simp_all add: sent_by_def inst_udp_def)
  from sent show ?thesis
  proof
    assume "\<exists>x. sent_by u' k = sent_by (inst_udp st p g) k @ [x] \<and>
       client_packet cr specs (sys_listed st) p env (take serverUDPBufferSize data) uid x"
    then obtain x where x: "sent_by u' k = sent_by (net_udp st p g) k @ [x]"
      "client_packet cr specs (sys_listed st) p env (take serverUDPBufferSize data) uid x"
      unfolding same by (elim exE conjE)
    obtain tgt payload where "x = (tgt, payload)" by (rule prod.exhaust)
    with x paid [unfolded same] show ?thesis
      by (intro disjI2 exI [of _ tgt] exI [of _ payload] exI [of _ uid] conjI allI impI) (simp_all only:)
  qed (simp only: same simp_thms)
qed


theorem listed_connections_only_witness:
  "\<exists>st0 st lv. net_started toy_crypto toy_specs toy_api_env st0 \<and> (net_step toy_crypto toy_specs)\<^sup>*\<^sup>* st0 st \<and> lv \<in> set (net_conns st) \<and>
     target_of (lv_handler lv) = Some [8, 8, 8, 8] \<and> (\<exists>k \<in> sys_listed st. Port k = 443)"
proof (rule toy_net_relaying)
  fix st st' lv
  assume st: "net_started toy_crypto toy_specs toy_api_env st" "(net_step toy_crypto toy_specs)\<^sup>*\<^sup>* st st'" "lv \<in> set (net_conns st')"
    "lv_port lv = 443" "target_of (lv_handler lv) = Some [8, 8, 8, 8]"
  from listed_connections_only [OF st(1-3,5)] st show ?thesis by metis
qed

theorem listed_packets_only_witness:
  "\<exists>st0 st b u'. net_started toy_crypto toy_specs toy_api_env st0 \<and> (net_step toy_crypto toy_specs)\<^sup>*\<^sup>* st0 st \<and>
     serve_packet toy_udp_env (inst_udp st 443 0) (Inr ([1, 2, 3], toy_client)) = (b, u') \<and>
     (sent_by u' 0 = sent_by (net_udp st 443 0) 0 \<or> (\<exists>x. sent_by u' 0 = sent_by (net_udp st 443 0) 0 @ [x]))"
proof (rule toy_net_relaying)
  fix st st' lv
  assume st: "net_started toy_crypto toy_specs toy_api_env st" "(net_step toy_crypto toy_specs)\<^sup>*\<^sup>* st st'"
  obtain b u' where run: "serve_packet toy_udp_env (inst_udp st' 443 0) (Inr ([1, 2, 3], toy_client)) = (b, u')" by fastforce
  have "ue_crypto toy_udp_env = toy_crypto" by (simp add: toy_udp_env_def)
  from listed_packets_only [OF st this run, of 0] st run show ?thesis by blast
qed

end
