(* ===== verification/Service_TCP_Company.thy ===== *)
theory Service_TCP_Company
  imports Service_TCP_Handler
begin

text \<open>
  What a connection comes to in the company of others: what its peers see of it and its status are those of \<open>handleConnection\<close>, run
  at once, over the list of keys as it was when the search began and a replay cache that the server has had. What
  the others do to the list, the records and the metrics has no influence.
\<close>

section \<open>What the peers see\<close>

definition seen :: "tcp_outcome \<Rightarrow> string \<times> conn_end" where
  "seen out = (out_status out, out_client out, out_target out, out_unread out)"

fun seen_result :: "tcp_outcome result option \<Rightarrow> (string \<times> conn_end) option" where
  "seen_result (Some (Ok out)) = Some (seen out)"
| "seen_result x = None"

abbreviation fate :: "tcp_env \<Rightarrow> client_conn \<Rightarrow> tcpService \<Rightarrow> handler \<Rightarrow> (string \<times> conn_end) option" where
  "fate env conn s h \<equiv> seen_result (rest env conn s h)"

lemma seen_result_eqI: "(\<And>out. x = Some (Ok out) \<longleftrightarrow> y = Some (Ok out)) \<Longrightarrow> seen_result x = seen_result y"
proof (cases "\<exists>out. x = Some (Ok out)")
  case False
  assume eq: "\<And>out. x = Some (Ok out) \<longleftrightarrow> y = Some (Ok out)"
  have none: "seen_result z = None" if "\<nexists>out. z = Some (Ok out)" for z using that by (cases z rule: seen_result.cases) auto
  from False eq show ?thesis by (simp add: none)
qed metis

section \<open>What it depends on\<close>

lemma relay_seen: "seen_result (relay env entry uid s conn ssr target) = seen_result (relay env entry uid s' conn ssr target)"
  by (simp add: relay_def seen_def Let_def split: prod.split option.split result.split)

lemma serve_client_seen:
  assumes "tcp_targetIPValidator s = tcp_targetIPValidator s'"
  shows "seen_result (serve_client env entry uid s conn r) = seen_result (serve_client env entry uid s' conn r)"
  using assms relay_seen
  by (simp add: serve_client_def seen_def Let_def split: prod.split result.split sum.split)

lemma absorbProbe_seen: "seen (absorbProbe env i status s conn r) = seen (absorbProbe env i status s' conn r)"
  by (simp add: absorbProbe_def seen_def Let_def split: prod.split)

definition alike :: "tcpService \<Rightarrow> tcpService \<Rightarrow> bool" where
  "alike s s' \<longleftrightarrow> tcp_targetIPValidator s = tcp_targetIPValidator s' \<and> tcp_replayCache s = tcp_replayCache s'"

lemma handleConnection_seen:
  assumes "alike s s'" and "tcp_ciphers s = tcp_ciphers s'"
  shows "seen_result (handleConnection env s conn) = seen_result (handleConnection env s' conn)"
proof (cases "findAccessKey (env_crypto env) (conn_reader conn) (remoteIP (env_host_ip env) (conn_remote conn)) (tcp_ciphers s)")
  case (Ok x)
  obtain ak cl' where x: "x = (ak, cl')" by fastforce
  note serve = serve_client_seen [of "s\<lparr>tcp_ciphers := cl', tcp_replayCache := rc\<rparr>" "s'\<lparr>tcp_ciphers := cl', tcp_replayCache := rc\<rparr>" for rc]
  show ?thesis
    using assms Ok x serve absorbProbe_seen
    by (auto simp: handleConnection_def alike_def Let_def split: option.split prod.split bool.split)
qed (use assms in \<open>simp_all add: handleConnection_def\<close>)

lemma visit_step_seen:
  assumes "tcp_targetIPValidator s = tcp_targetIPValidator s'" and "visit_step env conn s entry uid a ssr = (s1, h1)"
    and "visit_step env conn s' entry uid a ssr = (s2, h2)"
  shows "(\<exists>i st data out. h1 = HFinish i st data out \<and> h2 = h1) \<or>
    (\<exists>target. h1 = HRelay entry uid target (relay_start env entry s1 conn ssr (snd target)) \<and>
       h2 = HRelay entry uid target (relay_start env entry s2 conn ssr (snd target)))"
  using assms by (auto simp: visit_step_def Let_def split: prod.splits sum.splits)

lemma relay_outcome_seen:
  "seen_result (relay_outcome env conn entry target s up down) = seen_result (relay_outcome env' conn entry target s' up down)"
  by (simp add: relay_outcome_def seen_def end_outcome_def split: up_thread.split down_thread.split)

text \<open>Only \<open>HSearch\<close> and \<open>HFound\<close> have the replay cache still to ask.\<close>

fun asked :: "handler \<Rightarrow> bool" where
  "asked (HSearch cl0) = False"
| "asked (HFound ak entry) = False"
| "asked h = True"

lemma fate_alike:
  assumes "tcp_targetIPValidator s = tcp_targetIPValidator s'" and "asked h \<or> tcp_replayCache s = tcp_replayCache s'"
  shows "fate env conn s h = fate env conn s' h"
proof (cases h)
  case (HSearch cl0)
  then show ?thesis
    using assms handleConnection_seen [of "s\<lparr>tcp_ciphers := cl0\<rparr>" "s'\<lparr>tcp_ciphers := cl0\<rparr>"] by (simp add: alike_def)
next
  case (HFound ak entry)
  with assms have "alike s s'" by (simp add: alike_def)
  then show ?thesis
    using serve_client_seen [of "s\<lparr>tcp_replayCache := rc\<rparr>" "s'\<lparr>tcp_replayCache := rc\<rparr>" for rc] absorbProbe_seen
    by (auto simp: HFound alike_def split: prod.split bool.split)
next
  case (HServe entry uid r)
  then show ?thesis using serve_client_seen [OF assms(1)] by simp
next
  case (HVisit entry uid a ssr)
  obtain s1 h1 s2 h2 where v: "visit_step env conn s entry uid a ssr = (s1, h1)" "visit_step env conn s' entry uid a ssr = (s2, h2)"
    by fastforce
  from visit_step_seen [OF assms(1) v] show ?thesis
  proof
    assume "\<exists>i st data out. h1 = HFinish i st data out \<and> h2 = h1"
    then show ?thesis by (auto simp: HVisit v end_outcome_def seen_def)
  next
    assume "\<exists>target. h1 = HRelay entry uid target (relay_start env entry s1 conn ssr (snd target)) \<and>
       h2 = HRelay entry uid target (relay_start env entry s2 conn ssr (snd target))"
    then obtain target where "h1 = HRelay entry uid target (relay_start env entry s1 conn ssr (snd target))"
      "h2 = HRelay entry uid target (relay_start env entry s2 conn ssr (snd target))" by blast
    with relay_seen [of env entry uid s1 conn ssr target s2] show ?thesis by (simp only: HVisit v rest.simps prod.case handler.case)
  qed
next
  case (HRelay entry uid target rr)
  then show ?thesis by (simp split: option.split) (intro allI impI relay_outcome_seen)
next
  case (HProbe i status r)
  then show ?thesis using absorbProbe_seen by simp
qed (simp_all add: end_outcome_def seen_def)

section \<open>Steps in company\<close>

text \<open>A service over a list and a replay cache, with accounts of its own.\<close>

definition fresh_service :: "cipherList \<Rightarrow> ReplayCache option \<Rightarrow> TargetIPValidator \<Rightarrow> tcpService" where
  "fresh_service cl rc v = \<lparr>tcp_ciphers = cl, tcp_m = newShadowsocksMetrics, tcp_replayCache = rc, tcp_targetIPValidator = v, tcp_api = api_New 0 0\<rparr>"

lemma fresh_service_simps [simp]:
  "tcp_ciphers (fresh_service cl rc v) = cl" "tcp_replayCache (fresh_service cl rc v) = rc" "tcp_targetIPValidator (fresh_service cl rc v) = v"
  by (simp_all add: fresh_service_def)

text \<open>The fate of a handler that began with the list \<open>cl0\<close> is that of \<open>handleConnection\<close> over this list and some replay
  cache with property \<open>Q\<close>; any such cache will do as long as the cache has not been asked.\<close>

definition promised :: "tcp_env \<Rightarrow> client_conn \<Rightarrow> TargetIPValidator \<Rightarrow> cipherList \<Rightarrow> ReplayCache option \<Rightarrow> handler \<Rightarrow> bool" where
  "promised env conn v cl0 rc h \<longleftrightarrow>
     seen_result (handleConnection env (fresh_service cl0 rc v) conn) = fate env conn (fresh_service cl0 rc v) h"

fun fated :: "tcp_env \<Rightarrow> client_conn \<Rightarrow> TargetIPValidator \<Rightarrow> (ReplayCache option \<Rightarrow> bool) \<Rightarrow> cipherList \<Rightarrow> handler \<Rightarrow> bool" where
  "fated env conn v Q cl0 (HSearch cl) \<longleftrightarrow> cl = cl0"
| "fated env conn v Q cl0 (HFound ak entry) \<longleftrightarrow> (\<forall>rc. Q rc \<longrightarrow> promised env conn v cl0 rc (HFound ak entry))"
| "fated env conn v Q cl0 h \<longleftrightarrow> (\<exists>rc. Q rc \<and> promised env conn v cl0 rc h)"

lemma fatedI: "\<forall>rc. Q rc \<longrightarrow> promised env conn v cl0 rc h \<Longrightarrow> Q rc \<Longrightarrow> (\<And>cl. h \<noteq> HSearch cl) \<Longrightarrow> fated env conn v Q cl0 h"
  by (cases h) auto

lemma fated_asked: "asked h \<Longrightarrow> fated env conn v Q cl0 h \<longleftrightarrow> (\<exists>rc. Q rc \<and> promised env conn v cl0 rc h)"
  by (cases h) auto

lemma promised_alike:
  assumes "promised env conn v cl0 rc h" and "fate env conn s h = fate env conn s' h'"
    and "fate env conn (fresh_service cl0 rc v) h = fate env conn s h" and "fate env conn s' h' = fate env conn (fresh_service cl0 rc v) h'"
  shows "promised env conn v cl0 rc h'"
  using assms by (simp add: promised_def)

lemma search_step_same:
  assumes "search_step env conn t cl0 = Some (t', h')"
  obtains s' where "search_step env conn s cl0 = Some (s', h')" "tcp_replayCache s' = tcp_replayCache s"
    "tcp_targetIPValidator s' = tcp_targetIPValidator s"
  using assms by (auto simp: search_step_def split: result.splits option.splits prod.splits)

lemma main_fate:
  assumes "main_step env conn s h = Some (s', h')" and "\<And>cl0. h = HSearch cl0 \<Longrightarrow> cl0 = tcp_ciphers s"
  shows "fate env conn s h = fate env conn s' h'"
  by (rule seen_result_eqI) (rule main_rest [OF assms])

lemma main_step_validator: "main_step env conn s h = Some (s', h') \<Longrightarrow> tcp_targetIPValidator s' = tcp_targetIPValidator s"
  using handler_step_validator [OF handler_step.main] .

lemma main_step_asked: "main_step env conn s h = Some (s', h') \<Longrightarrow> (\<And>cl0. h \<noteq> HSearch cl0) \<Longrightarrow> asked h'"
proof (cases h)
  case (HVisit entry uid a ssr)
  then show "main_step env conn s h = Some (s', h') \<Longrightarrow> asked h'"
    by (auto simp: visit_step_def Let_def split: prod.splits sum.splits)
next
  case (HServe entry uid r)
  then show "main_step env conn s h = Some (s', h') \<Longrightarrow> asked h'"
    by (auto simp: address_step_def split: result.splits prod.splits)
next
  case (HRelay entry uid target rr)
  then show "main_step env conn s h = Some (s', h') \<Longrightarrow> asked h'"
    by (auto simp: join_step_def split: option.splits up_thread.splits down_thread.splits)
qed (auto simp: replay_step_def probe_step_def Let_def split: prod.splits if_splits)

lemma fated_main:
  assumes step: "main_step env conn t h = Some (t', h')" and v: "tcp_targetIPValidator t = v" and Q: "Q (tcp_replayCache t)"
    and fated: "fated env conn v Q cl0 h"
  shows "fated env conn v Q cl0 h'"
proof (cases "asked h")
  case True
  with fated obtain rc where rc: "Q rc" "promised env conn v cl0 rc h" by (auto simp: fated_asked)
  from True have new: "\<And>cl. h \<noteq> HSearch cl" by auto
  have "asked h'" using main_step_asked [OF step] new by simp
  moreover have "promised env conn v cl0 rc h'"
    by (rule promised_alike [where s = t and s' = t' and h = h])
      (use rc True \<open>asked h'\<close> v main_step_validator [OF step] in \<open>auto intro!: fate_alike main_fate [OF step] simp: new\<close>)
  ultimately show ?thesis using rc(1) by (auto simp: fated_asked)
next
  case False
  then consider (search) cl where "h = HSearch cl" | (found) ak entry where "h = HFound ak entry" by (cases h) auto
  then show ?thesis
  proof cases
    case (search cl)
    note HSearch = search
    with step fated have search: "search_step env conn t cl0 = Some (t', h')" by simp
    have "promised env conn v cl0 rc h'" for rc
    proof -
      let ?s = "fresh_service cl0 rc v"
      obtain s' where s': "search_step env conn ?s cl0 = Some (s', h')" "tcp_replayCache s' = rc" "tcp_targetIPValidator s' = v"
        by (rule search_step_same [OF search, of ?s]) simp
      have "fate env conn ?s (HSearch cl0) = fate env conn s' h'"
        by (rule main_fate) (use s'(1) in simp_all)
      moreover have "?s\<lparr>tcp_ciphers := cl0\<rparr> = ?s" by (simp add: fresh_service_def)
      moreover have "fate env conn s' h' = fate env conn ?s h'" using s'(2,3) by (intro fate_alike) simp_all
      ultimately show ?thesis by (simp add: promised_def)
    qed
    moreover have "h' \<noteq> HSearch cl" for cl using main_step_entered [OF step] by auto
    ultimately show ?thesis using Q by (blast intro: fatedI)
  next
    case (found ak entry)
    note HFound = found
    let ?s = "fresh_service cl0 (tcp_replayCache t) v"
    from step HFound have replay: "replay_step env t ak entry = (t', h')" by simp
    then obtain s' where s': "replay_step env ?s ak entry = (s', h')" by (auto simp: replay_step_def split: prod.splits if_splits)
    then have "main_step env conn ?s h = Some (s', h')" by (simp add: HFound)
    note s1 = main_fate [OF this] main_step_validator [OF this] main_step_asked [OF this]
    have "promised env conn v cl0 (tcp_replayCache t) h'"
      by (rule promised_alike [where s = ?s and s' = s' and h = h])
        (use fated Q HFound s1 fate_alike [of s' ?s h' env conn] in simp_all)
    then show ?thesis using s1(3) HFound Q by (auto simp: fated_asked)
  qed
qed

lemma fated_relaying:
  assumes "relay_step env uid (rr\<lparr>rr_api := tcp_api t\<rparr>) rr'" and "fated env conn v Q cl0 (HRelay entry uid target rr)"
  shows "fated env conn v Q cl0 (HRelay entry uid target rr')"
proof -
  have fin: "up_final env (rr_up rr') = up_final env (rr_up rr)" "down_final (rr_down rr') = down_final (rr_down rr)"
    using assms(1) by (auto elim!: relay_stepE simp: up_final_step down_final_step)
  have "fate env conn s (HRelay entry uid target rr') = fate env conn s (HRelay entry uid target rr)" for s
    by (simp add: fin split: option.split) (intro allI impI relay_outcome_seen)
  with assms(2) show ?thesis by (simp add: promised_def del: rest.simps)
qed

lemma fated_step:
  assumes "handler_step env conn (t, h) (t', h')" and "tcp_targetIPValidator t = v" and "Q (tcp_replayCache t)" and "fated env conn v Q cl0 h"
  shows "fated env conn v Q cl0 h'"
  using assms(1)
proof (rule handler_stepE)
  assume "main_step env conn t h = Some (t', h')"
  from fated_main [where Q = Q, OF this assms(2-4)] show ?thesis .
next
  fix uid rr rr' entry target
  assume "h = HRelay entry uid target rr" "h' = HRelay entry uid target rr'" "relay_step env uid (rr\<lparr>rr_api := tcp_api t\<rparr>) rr'"
  with fated_relaying assms(4) show ?thesis by blast
qed

lemma fated_done:
  assumes "fated env conn v Q cl0 (HDone st out)"
  obtains rc x where "Q rc" "handleConnection env (fresh_service cl0 rc v) conn = Some (Ok x)" "seen x = (st, out)"
proof -
  from assms obtain rc where rc: "Q rc" "seen_result (handleConnection env (fresh_service cl0 rc v) conn) = Some (st, out)"
    by (auto simp: promised_def end_outcome_def seen_def)
  then show thesis
    by (cases "handleConnection env (fresh_service cl0 rc v) conn" rule: seen_result.cases) (auto intro: that)
qed

end
