(* ===== verification/Server_Net_Outcomes.thy ===== *)
theory Server_Net_Outcomes
  imports Server_Net_Safe Service_TCP_Company
begin

text \<open>
  What connections come to in the running server: each is handled as \<open>handleConnection\<close> says, over the list of keys that its port had
  when its handler began, whatever else the server does meanwhile.
\<close>

section \<open>Following a connection\<close>

text \<open>A connection whose handler begins keeps its place in the list.\<close>

lemma begun_conn:
  "length (net_conns st) < length (net_conns (begun p g env conn st))"
  "net_conns (begun p g env conn st) ! length (net_conns st) = \<lparr>lv_port = p, lv_gen = g, lv_env = env, lv_conn = conn,
     lv_handler = HSearch (inst_list st p g)\<rparr>"
  by (simp_all add: begun_def handler_start_def inst_tcp_def)

text \<open>A step leaves a connection as it is or is a step of its handler.\<close>

lemma net_step_conn:
  assumes "net_step cr specs st st'" and "i < length (net_conns st)" and "net_conns st ! i = lv"
  obtains "i < length (net_conns st')" "net_conns st' ! i = lv"
  | t' h' where "i < length (net_conns st')" "net_conns st' ! i = lv\<lparr>lv_handler := h'\<rparr>"
      "handler_step (lv_env lv) (lv_conn lv) (inst_tcp st (lv_port lv) (lv_gen lv), lv_handler lv) (t', h')"
  using assms(1)
proof cases
  case (handle j lv' t' h')
  show thesis
  proof (cases "j = i")
    case True
    with handle assms show thesis by (intro that(2) [of h' t']) auto
  next
    case False
    with handle assms show thesis by (intro that(1)) auto
  qed
qed (use assms that in \<open>auto simp: net_tick_def begun_def Let_def nth_append put_udp_books\<close>)

section \<open>The replay cache\<close>

lemma Add_capacity: "Add (Some c) key salt = (b, rc) \<Longrightarrow> \<exists>c'. rc = Some c' \<and> capacity c' = capacity c"
  by (auto simp: Add_def Let_def split: if_splits)

definition cache_of :: "int \<Rightarrow> ReplayCache option \<Rightarrow> bool" where
  "cache_of n rc \<longleftrightarrow> (\<exists>c. rc = Some c \<and> capacity c = n)"

lemma handler_step_capacity:
  assumes "handler_step env conn (s, h) (s', h')" and "cache_of n (tcp_replayCache s)"
  shows "cache_of n (tcp_replayCache s')"
  using assms(1)
proof (rule handler_stepE)
  assume step: "main_step env conn s h = Some (s', h')"
  show ?thesis
  proof (cases h)
    case (HFound ak entry)
    with step assms(2) Add_capacity show ?thesis
      by (fastforce simp: replay_step_def cache_of_def split: prod.splits if_splits)
  qed (use step assms(2) in \<open>auto simp: search_step_def probe_step_def visit_step_def finish_def Let_def
        split: result.splits option.splits prod.splits\<close>)
qed (use assms(2) in simp)

definition net_capacity :: "net_state \<Rightarrow> int" where
  "net_capacity st = capacity (ss_replayCache (sys_server st))"

lemma inst_tcp_cache [simp]: "cache_of n (tcp_replayCache (inst_tcp st p g)) \<longleftrightarrow> net_capacity st = n"
  by (simp add: cache_of_def net_capacity_def inst_tcp_def)

lemma net_step_capacity:
  assumes "net_step cr specs st st'"
  shows "net_capacity st' = net_capacity st"
  using assms
proof cases
  case (run j oe s' nxt stores)
  with run_step_keeps(2) [OF run(3)] show ?thesis by (simp add: net_capacity_def net_tick_def Let_def)
next
  case (handle i lv t' h')
  have "cache_of (net_capacity st) (tcp_replayCache t')" by (rule handler_step_capacity [OF handle(4)]) simp
  then show ?thesis by (auto simp: handle(1) net_capacity_def put_tcp_def put_list_def cache_of_def)
qed (auto simp: net_capacity_def begun_def put_udp_def put_list_def)

lemma net_started_capacity: "net_started cr specs aenv st \<Longrightarrow> net_capacity st = 0"
  by (auto simp: net_started_def sys_started_def net_capacity_def system.truncate_def dest: main_server_capacity)

lemma net_run_capacity: "(net_step cr specs)\<^sup>*\<^sup>* st st' \<Longrightarrow> net_capacity st' = net_capacity st"
  by (induction rule: rtranclp_induct) (auto dest: net_step_capacity)

section \<open>Fates of connections\<close>

lemma net_fated:
  assumes "(net_step cr specs)\<^sup>*\<^sup>* st st'" and "i < length (net_conns st)" and "net_conns st ! i = lv" and "lv_handler lv = HSearch cl0"
  shows "i < length (net_conns st') \<and> (\<exists>h. net_conns st' ! i = lv\<lparr>lv_handler := h\<rparr> \<and>
    fated (lv_env lv) (lv_conn lv) RequirePublicIP (cache_of (net_capacity st)) cl0 h \<and>
    (env_ok (lv_env lv) \<longrightarrow> good (lv_env lv) (lv_conn lv) (HSearch cl0) \<longrightarrow> good (lv_env lv) (lv_conn lv) h))"
  using assms(1)
proof (induction rule: rtranclp_induct)
  case base
  have "lv\<lparr>lv_handler := HSearch cl0\<rparr> = lv" using assms(4) by simp
  with assms show ?case by (intro conjI exI [of _ "HSearch cl0"]) auto
next
  case (step st1 st2)
  then obtain h where i: "i < length (net_conns st1)" and h: "net_conns st1 ! i = lv\<lparr>lv_handler := h\<rparr>"
    "fated (lv_env lv) (lv_conn lv) RequirePublicIP (cache_of (net_capacity st)) cl0 h"
    "env_ok (lv_env lv) \<longrightarrow> good (lv_env lv) (lv_conn lv) (HSearch cl0) \<longrightarrow> good (lv_env lv) (lv_conn lv) h" by blast
  from step(2) i h(1) show ?case
  proof (rule net_step_conn)
    assume "i < length (net_conns st2)" "net_conns st2 ! i = lv\<lparr>lv_handler := h\<rparr>"
    with h show ?thesis by blast
  next
    fix t' h'
    let ?t = "inst_tcp st1 (lv_port lv) (lv_gen lv)"
    assume i2: "i < length (net_conns st2)" "net_conns st2 ! i = lv\<lparr>lv_handler := h, lv_handler := h'\<rparr>"
      and "handler_step (lv_env (lv\<lparr>lv_handler := h\<rparr>)) (lv_conn (lv\<lparr>lv_handler := h\<rparr>))
        (inst_tcp st1 (lv_port (lv\<lparr>lv_handler := h\<rparr>)) (lv_gen (lv\<lparr>lv_handler := h\<rparr>)), lv_handler (lv\<lparr>lv_handler := h\<rparr>)) (t', h')"
    then have run: "handler_step (lv_env lv) (lv_conn lv) (?t, h) (t', h')" by simp
    have "tcp_targetIPValidator ?t = RequirePublicIP" "cache_of (net_capacity st) (tcp_replayCache ?t)"
      using net_run_capacity [OF step(1)] by (simp_all add: inst_tcp_def cache_of_def net_capacity_def)
    from fated_step [where Q = "cache_of (net_capacity st)", OF run this h(2)] good_step [OF _ _ run] h(3) i2 show ?thesis by auto
  qed
qed

section \<open>Connections that end\<close>

text \<open>A handler that has what it needs can run to its end.\<close>

lemma handler_finishes:
  assumes "env_ok env" and "keys_ok (env_crypto env) (tcp_ciphers s)" and "eof_chained (conn_reader conn)"
  shows "\<exists>s' st out. (handler_step env conn)\<^sup>*\<^sup>* (s, handler_start s) (s', HDone st out)"
proof (rule ccontr)
  assume never: "\<not> ?thesis"
  let ?v = "tcp_targetIPValidator s" and ?h0 = "handler_start s"
  have start: "good env conn ?h0" using assms(2,3) by (simp add: handler_start_def)
  have "\<exists>x. (handler_step env conn ^^ n) (s, ?h0) x" for n
  proof (induction n)
    case (Suc n)
    then obtain s1 h1 where run: "(handler_step env conn ^^ n) (s, ?h0) (s1, h1)" by auto
    have "good env conn h1" using alone_run [OF run] good_run [OF assms(1) _ start] by blast
    moreover have "h1 \<noteq> HDone st out" for st out using never relpowp_imp_rtranclp [OF run] by blast
    ultimately obtain y where "handler_step env conn (s1, h1) y" using good_enabled by blast
    from relpowp_Suc_I [OF run this] show ?case by blast
  qed simp
  moreover obtain N where "ends_within env conn ?v N ?h0"
    using ends_search [OF assms(1) start [unfolded handler_start_def]] by (auto simp: handler_start_def)
  ultimately have "n \<le> N" for n using alone_run unfolding ends_within_def by (metis prod.collapse)
  then show False using not_less_eq_eq by blast
qed

text \<open>So can the handler of a connection in the server, with the other connections waiting.\<close>

lemma begun_finishes:
  assumes ok: "env_ok env" "keys_ok (env_crypto env) (inst_list st p g)" "eof_chained (conn_reader conn)"
  shows "\<exists>st' status out. (net_step cr specs)\<^sup>*\<^sup>* (begun p g env conn st) st' \<and>
    lv_handler (net_conns st' ! length (net_conns st)) = HDone status out"
proof -
  let ?i = "length (net_conns st)" and ?st1 = "begun p g env conn st"
  let ?t = "inst_tcp ?st1 p g"
  let ?lv = "\<lparr>lv_port = p, lv_gen = g, lv_env = env, lv_conn = conn, lv_handler = HSearch (inst_list st p g)\<rparr>"
  have "tcp_ciphers ?t = inst_list st p g" by (simp add: inst_tcp_conns) (simp add: inst_tcp_def)
  with handler_finishes [of env ?t conn] ok obtain t' status out where
    "(handler_step env conn)\<^sup>*\<^sup>* (?t, HSearch (inst_list st p g)) (t', HDone status out)" by (auto simp: handler_start_def)
  then have "(handler_step (lv_env ?lv) (lv_conn ?lv))\<^sup>*\<^sup>* (inst_tcp ?st1 (lv_port ?lv) (lv_gen ?lv), lv_handler ?lv) (t', HDone status out)"
    by simp
  from net_follows [OF this begun_conn, of cr specs] obtain st' where
    "(net_step cr specs)\<^sup>*\<^sup>* ?st1 st'" "net_conns st' ! ?i = ?lv\<lparr>lv_handler := HDone status out\<rparr>" by (elim exE conjE)
  then show ?thesis by (intro exI [of _ st'] exI [of _ status] exI [of _ out] conjI) simp_all
qed

section \<open>Properties\<close>

text \<open>C7: Every connection is handled as if it were alone. Take any state of the server, and let the handler of a connection to a port begin;
  the port may have been closed since the connection was accepted. Whenever its handler is done, after any interleaving with other
  connections, packets, reports and runs of \<open>doRun\<close>, even if its key or its port was removed meanwhile, its status, what was written to
  the client, its target with what was written to it and what is left unread are those that \<open>handleConnection\<close> computes at once, over the
  keys that the port had when the handler began and a replay cache of the server's capacity. So what holds of these for
  \<open>handleConnection\<close> holds in the running server.\<close>

theorem handled_as_alone:
  assumes "(net_step cr specs)\<^sup>*\<^sup>* (begun p g env conn st) st'"
    and "lv_handler (net_conns st' ! length (net_conns st)) = HDone status out"
  shows "\<exists>rc x. capacity rc = capacity (ss_replayCache (sys_server st)) \<and>
    handleConnection env (fresh_service (inst_list st p g) (Some rc) RequirePublicIP) conn = Some (Ok x) \<and>
    status = out_status x \<and> out = (out_client x, out_target x, out_unread x) \<and>
    (\<forall>port. ss_ports (sys_server st) p = Some port \<longrightarrow> g = net_gen st p \<longrightarrow> inst_list st p g = port_cipherList port)"
proof -
  from net_fated [OF assms(1) begun_conn] assms(2)
  have "fated env conn RequirePublicIP (cache_of (net_capacity (begun p g env conn st))) (inst_list st p g) (HDone status out)"
    by auto
  then obtain rc x where "cache_of (net_capacity (begun p g env conn st)) rc"
    "handleConnection env (fresh_service (inst_list st p g) rc RequirePublicIP) conn = Some (Ok x)" "seen x = (status, out)"
    by (rule fated_done)
  moreover have "inst_list st p (net_gen st p) = port_cipherList port" if "ss_ports (sys_server st) p = Some port" for port
    using that by (simp add: inst_list_def)
  ultimately show ?thesis by (auto simp: cache_of_def net_capacity_def begun_def seen_def)
qed

text \<open>C8: A listed user is served in any company. In any state that the running server reaches, let the handler of a connection to an open
  port begin, whose client sends an address and a payload under a key of the port, which alone opens what it sends. After any interleaving
  with other connections, packets, reports and runs of \<open>doRun\<close>, the handler has not panicked; it can take a step, or it is done with status OK, the target has received
  exactly the payload, and what was written to the client decrypts under its key to exactly what the target answered.\<close>

theorem served_in_any_company:
  assumes started: "net_started cr specs aenv st0" "(net_step cr specs)\<^sup>*\<^sup>* st0 st" "ss_ports (sys_server st) p = Some port"
    and env: "crypto_ok cr" "supportedAEADs cr = Ok specs" "env_crypto env = cr" "env_pool env = readBufPool specs" "reads_address env"
    and hc: "honest_client cr (port_cipherList port) conn e salt A ps"
    and entry: "entry = cl_entry (port_cipherList port) e" "ID entry \<noteq> ''''" "\<not> IsServerSalt cr (entry_SaltGenerator entry) salt"
    and plain: "concat ps = a @ payload"
    and contract: "\<And>ssr a' ssr'. env_ReadAddr env ssr = (Ok a', ssr') \<Longrightarrow>
      \<exists>ns. conv_reads (\<lambda>x. ReadChunk cr (env_pick env (cr_pool x)) x) ssr ns = Some (a', ssr')"
    and addr: "fst (env_ReadAddr env (NewShadowsocksReader (readBufPool specs) (replayed_reader conn) (entry_Cipher entry))) = Ok a"
    and dial: "dialTarget RequirePublicIP (fst (env_dial env (env_addr_String env a))) (snd (env_dial env (env_addr_String env a))) = Inr (ip, tgt)"
    and tgt: "good_target tgt" and cw: "wout (conn_writer conn) = []" "writes_all (conn_writer conn)"
    and salt2: "GetSalt cr (entry_SaltGenerator entry) (env_entropy env) (make_bytes (SaltSize (entry_Cipher entry))) = Ok salt2"
    and run: "(net_step cr specs)\<^sup>*\<^sup>* (begun p (net_gen st p) env conn st) st'" and lv: "lv = net_conns st' ! length (net_conns st)"
  shows "(\<forall>m. lv_handler lv \<noteq> HPanic m) \<and>
    ((\<forall>status out. lv_handler lv \<noteq> HDone status out) \<longrightarrow>
       (\<exists>y. handler_step env conn (inst_tcp st' p (lv_gen lv), lv_handler lv) y)) \<and>
    (\<forall>status out. lv_handler lv = HDone status out \<longrightarrow> status = ''OK'' \<and>
       (\<exists>w. fst (snd out) = Some (ip, w) \<and> concat (wout w) = payload) \<and>
       (\<forall>segs. concat segs = concat (wout (fst out)) \<longrightarrow>
          concat (fst (chunks_left cr (newChunkReader (readBufPool specs) (ConnReader segs EOF) (entry_Cipher entry)))) = contents (tgt_reader tgt)))"
proof -
  have "port_listed cr specs (sys_listed st) p (port_cipherList port)"
    using net_reachable_inv [OF started(2,1)] started(3) by (simp add: net_inv_def net_listed_def server_listed_def)
  then have keys: "keys_ok cr (port_cipherList port)" by (rule port_listed_keys_ok [OF _ env(1,2)])
  have ok: "env_ok env" using env by (auto simp: env_ok_def)
  have chained: "eof_chained (conn_reader conn)" using hc by (simp add: honest_client_def)
  have list: "inst_list st p (net_gen st p) = port_cipherList port" using started(3) by (simp add: inst_list_def)
  note followed = net_fated [OF run begun_conn, unfolded list]
  have good: "good env conn (lv_handler lv)" using followed ok keys chained env(3) lv by auto
  have cap: "net_capacity (begun p (net_gen st p) env conn st) = 0"
    using net_run_capacity [OF started(2)] net_started_capacity [OF started(1)] by (simp add: net_capacity_def begun_def)
  have "status = ''OK'' \<and> (\<exists>w. fst (snd out) = Some (ip, w) \<and> concat (wout w) = payload) \<and>
       (\<forall>segs. concat segs = concat (wout (fst out)) \<longrightarrow>
          concat (fst (chunks_left cr (newChunkReader (readBufPool specs) (ConnReader segs EOF) (entry_Cipher entry)))) = contents (tgt_reader tgt))"
    if done_at: "lv_handler lv = HDone status out" for status out
  proof -
    from followed done_at lv
    have "fated env conn RequirePublicIP (cache_of 0) (port_cipherList port) (HDone status out)" by (auto simp: cap)
    then obtain rc x where rc: "cache_of 0 rc"
      "handleConnection env (fresh_service (port_cipherList port) rc RequirePublicIP) conn = Some (Ok x)" "seen x = (status, out)"
      by (rule fated_done)
    let ?s = "fresh_service (port_cipherList port) rc RequirePublicIP"
    let ?en = "cl_entry (MarkUsedByClientIP (tcp_ciphers ?s) e (remoteIP (env_host_ip env) (conn_remote conn))) e"
    obtain en where en: "en = ?en" by simp
    then have same: "ID en = ID entry" "entry_Cipher en = entry_Cipher entry" "entry_SaltGenerator en = entry_SaltGenerator entry"
      by (simp_all add: entry(1))
    have new: "fst (Add (tcp_replayCache ?s) (ID entry) salt)" using rc(1) by (auto simp: cache_of_def Add_def)
    have s: "keys_ok cr (tcp_ciphers ?s)" "honest_client cr (tcp_ciphers ?s) conn e salt A ps"
      "dialTarget (tcp_targetIPValidator ?s) (fst (env_dial env (env_addr_String env a))) (snd (env_dial env (env_addr_String env a))) = Inr (ip, tgt)"
      using keys hc dial by simp_all
    from handle_genuine [where s = ?s and env = env and entry = en, unfolded env(3,4) same,
        OF env(1,2) refl s(1,2) en entry(2,3) new plain contract addr s(3) tgt cw salt2]
    obtain x' w qs where x': "handleConnection env ?s conn = Some (Ok x')" "out_status x' = ''OK''" "out_target x' = Some (ip, w)"
      "concat (wout w) = payload" "concat qs = contents (tgt_reader tgt)"
      "\<And>segs. concat segs = concat (wout (out_client x')) \<Longrightarrow>
         chunks_left cr (newChunkReader (readBufPool specs) (ConnReader segs EOF) (entry_Cipher entry)) = (qs, EOF)" by blast
    with rc(2,3) have "status = out_status x'" "out = (out_client x', out_target x', out_unread x')" by (simp_all add: seen_def)
    with x'(2-6) show ?thesis by simp
  qed
  with good good_enabled [OF good, of "inst_tcp st' p (lv_gen lv)"] show ?thesis by auto
qed

theorem handled_as_alone_witness:
  "\<exists>st st' port conn status out x. ss_ports (sys_server st) 443 = Some port \<and>
     (net_step toy_crypto toy_specs)\<^sup>*\<^sup>* (begun 443 (net_gen st 443) toy_env conn st) st' \<and>
     lv_handler (net_conns st' ! length (net_conns st)) = HDone status out \<and> status = out_status x \<and>
     (\<exists>rc. handleConnection toy_env (fresh_service (port_cipherList port) (Some rc) RequirePublicIP) conn = Some (Ok x))"
proof (rule toy_net_client)
  fix port and st :: net_state and conn :: client_conn
  assume st: "ss_ports (sys_server st) 443 = Some port" "keys_ok toy_crypto (port_cipherList port)" "eof_chained (conn_reader conn)"
  have list: "inst_list st 443 (net_gen st 443) = port_cipherList port" using st(1) by (simp add: inst_list_def)
  obtain st' status out where run: "(net_step toy_crypto toy_specs)\<^sup>*\<^sup>* (begun 443 (net_gen st 443) toy_env conn st) st'"
    "lv_handler (net_conns st' ! length (net_conns st)) = HDone status out"
    using begun_finishes [OF toy_env_ok _ st(3), of st 443 "net_gen st 443" toy_crypto toy_specs] st(2) by (auto simp: toy_env_simps list)
  from handled_as_alone [OF run] st(1) run show ?thesis unfolding list by blast
qed

theorem served_in_any_company_witness:
  "\<exists>st st' conn out w. net_started toy_crypto toy_specs toy_api_env st \<and>
     (net_step toy_crypto toy_specs)\<^sup>*\<^sup>* (begun 443 (net_gen st 443) toy_env conn st) st' \<and>
     lv_handler (net_conns st' ! length (net_conns st)) = HDone ''OK'' out \<and> fst (snd out) = Some ([8, 8, 8, 8], w) \<and> concat (wout w) = [2, 3]"
proof (rule toy_net_client)
  fix st port e A ps and conn :: client_conn
  assume st: "net_started toy_crypto toy_specs toy_api_env st" "ss_ports (sys_server st) 443 = Some port"
    "keys_ok toy_crypto (port_cipherList port)" "honest_client toy_crypto (port_cipherList port) conn e toy_client_salt A ps"
    "concat ps = [1] @ [2, 3]" "ID (cl_entry (port_cipherList port) e) = ''u1''" "entry_Cipher (cl_entry (port_cipherList port) e) = toy_cipher"
    "entry_SaltGenerator (cl_entry (port_cipherList port) e) = RandomServerSaltGenerator"
    "fst (toy_ReadAddr (NewShadowsocksReader (readBufPool toy_specs) (replayed_reader conn) toy_cipher)) = Ok [1]"
    "conn_writer conn = \<lparr>wout = [], wplan = []\<rparr>" "eof_chained (conn_reader conn)"
  have list: "inst_list st 443 (net_gen st 443) = port_cipherList port" using st(2) by (simp add: inst_list_def)
  obtain st' status out where run: "(net_step toy_crypto toy_specs)\<^sup>*\<^sup>* (begun 443 (net_gen st 443) toy_env conn st) st'"
    "lv_handler (net_conns st' ! length (net_conns st)) = HDone status out"
    using begun_finishes [OF toy_env_ok _ st(11), of st 443 "net_gen st 443" toy_crypto toy_specs] st(3) by (auto simp: toy_env_simps list)
  have new: "''u1'' \<noteq> ''''" "\<not> IsServerSalt toy_crypto RandomServerSaltGenerator toy_client_salt"
    by (simp_all add: randomServerSaltGenerator_IsServerSalt_def)
  have cw: "wout (conn_writer conn) = []" "writes_all (conn_writer conn)" by (simp_all add: st(10) writes_all_def)
  from served_in_any_company [where env = toy_env and e = e, unfolded toy_env_simps st(6-8),
      OF st(1) rtranclp.rtrancl_refl st(2) toy_crypto_ok toy_specs refl refl toy_reads_address st(4) refl, unfolded st(6-8),
      OF new st(5) toy_contract st(9) toy_net_dial toy_target_ok cw toy_reply_salt run(1) refl]
  obtain w where "status = ''OK''" "fst (snd out) = Some ([8, 8, 8, 8], w)" "concat (wout w) = [2, 3]" using run(2) by blast
  with st(1) run show ?thesis by blast
qed

end
