(* ===== verification/Utils_System.thy ===== *)
theory Utils_System
  imports Api_Traffic
begin

text \<open>
  Model of the wrappers of \<^verbatim>\<open>utils/functions.go\<close>: running shell commands, reading and writing files, compression and
  the printing of sizes.

  The operating system is a parameter: \<open>'w\<close> is its state, and a \<open>sys_env\<close> says what running a command does to
  it, what reading a file returns and what writing one does. The gzip library is a parameter too: what creating a
  writer, writing, closing and reading return. A Go string holds bytes, as does the model's; converting between
  strings and byte slices keeps the bytes (the code's conversions share the memory, which no caller modifies).
\<close>

section \<open>Strings and bytes\<close>

definition string_of_bytes :: "bytes \<Rightarrow> string" where
  "string_of_bytes bs = map (\<lambda>b. char_of (unat b)) bs"

definition byteSliceToString :: "bytes \<Rightarrow> string" where
  "byteSliceToString bs = string_of_bytes bs"

definition stringTobyteSlice :: "string \<Rightarrow> bytes" where
  "stringTobyteSlice s = bytes_of_string s"

section \<open>Commands and files\<close>

text \<open>What a command leaves: the error of running it, if any, and its two outputs.\<close>

record cmd_outcome =
  cmd_err :: "goerror option"
  cmd_stdout :: string
  cmd_stderr :: string

record 'w sys_env =
  se_exec :: "string \<Rightarrow> 'w \<Rightarrow> cmd_outcome \<times> 'w"
  se_read :: "string \<Rightarrow> 'w \<Rightarrow> goerror + bytes"
  se_write :: "string \<Rightarrow> bytes \<Rightarrow> nat \<Rightarrow> 'w \<Rightarrow> goerror option \<times> 'w"

definition LocalRunCmd :: "'w sys_env \<Rightarrow> string \<Rightarrow> 'w \<Rightarrow> (string \<times> goerror option) \<times> 'w" where
  "LocalRunCmd env cm w =
     (case se_exec env cm w of
        (c, w1) \<Rightarrow>
          (case cmd_err c of
             Some err \<Rightarrow> (('''', Some err), w1)
           | None \<Rightarrow>
               if cmd_stderr c \<noteq> '''' then (('''', Some (ErrorNew (''LocalRunCmd-error:'' @ cmd_stderr c))), w1)
               else ((cmd_stdout c, None), w1)))"

definition ReadFile :: "'w sys_env \<Rightarrow> string \<Rightarrow> 'w \<Rightarrow> string \<times> goerror option" where
  "ReadFile env filename w =
     (case se_read env filename w of Inl err \<Rightarrow> ('''', Some err) | Inr file \<Rightarrow> (string_of_bytes file, None))"

definition WriteFile :: "'w sys_env \<Rightarrow> string \<Rightarrow> string \<Rightarrow> nat \<Rightarrow> 'w \<Rightarrow> goerror option \<times> 'w" where
  "WriteFile env filename context mode w = se_write env filename (stringTobyteSlice context) mode w"

section \<open>Compression\<close>

text \<open>\<open>gz_reader\<close> is the error of \<^verbatim>\<open>NewReader\<close>, which then returns a nil reader, or the bytes that \<^verbatim>\<open>WriteTo\<close> decodes
  with its error. Calling \<^verbatim>\<open>WriteTo\<close> on a nil reader panics. A nil slice is the empty one.\<close>

record gzip =
  gz_newWriterLevel :: "int \<Rightarrow> goerror option"
  gz_write :: "bytes \<Rightarrow> goerror option"
  gz_close :: "bytes \<Rightarrow> goerror option"
  gz_bytes :: "bytes \<Rightarrow> bytes"
  gz_reader :: "bytes \<Rightarrow> goerror + bytes \<times> goerror option"

definition Gencode :: "gzip \<Rightarrow> bytes \<Rightarrow> bytes" where
  "Gencode gz bs =
     (case gz_newWriterLevel gz 9 of
        Some err \<Rightarrow> []
      | None \<Rightarrow>
          (case gz_write gz bs of
             Some err \<Rightarrow> []
           | None \<Rightarrow> (case gz_close gz bs of Some err \<Rightarrow> [] | None \<Rightarrow> gz_bytes gz bs)))"

definition GenDecode :: "gzip \<Rightarrow> bytes \<Rightarrow> bytes result" where
  "GenDecode gz byt =
     (case gz_reader gz byt of
        Inl err \<Rightarrow> Panic ''invalid memory address or nil pointer dereference''
      | Inr (out, e) \<Rightarrow> Ok out)"

section \<open>Printing sizes\<close>

text \<open>\<open>div_even a b\<close> is \<open>a / b\<close> rounded to the nearest integer, a tie to the even one. \<open>float64\<close> is the conversion of an
  integer to a 64-bit floating point number, which keeps 53 significant bits; its value is an integer again.\<close>

definition div_even :: "nat \<Rightarrow> nat \<Rightarrow> nat" where
  "div_even a b =
     (let q = a div b; r = a mod b
      in if 2 * r < b then q else if b < 2 * r then q + 1 else if even q then q else q + 1)"

function float64_nat :: "nat \<Rightarrow> nat \<Rightarrow> nat" where
  "float64_nat n e = (if n < 2 ^ (53 + e) \<or> 11 \<le> e then div_even n (2 ^ e) * 2 ^ e else float64_nat n (Suc e))"
  by pat_completeness auto
termination
  by (relation "measure (\<lambda>(n, e). 11 - e)") auto

declare float64_nat.simps [simp del]

definition two_digits :: "nat \<Rightarrow> string" where
  "two_digits h = [char_of (48 + h div 10 mod 10), char_of (48 + h mod 10)]"

text \<open>\<^verbatim>\<open>fmt.Sprintf("%.2f", float64(n) / float64(d))\<close> for a power \<open>d\<close> of two: the quotient is exact.\<close>

definition format_quotient :: "int \<Rightarrow> nat \<Rightarrow> string" where
  "format_quotient n d =
     (let h = div_even (100 * float64_nat (nat \<bar>n\<bar>) 0) d
      in (if n < 0 then ''-'' else '''') @ Itoa (int (h div 100)) @ ''.'' @ two_digits h)"

definition FormatFileSize :: "int \<Rightarrow> string" where
  "FormatFileSize fileSize =
     (if fileSize < 1024 then format_quotient fileSize 1 @ ''B''
      else if fileSize < 1024 * 1024 then format_quotient fileSize 1024 @ ''KB''
      else if fileSize < 1024 * 1024 * 1024 then format_quotient fileSize (1024 * 1024) @ ''MB''
      else if fileSize < 1024 * 1024 * 1024 * 1024 then format_quotient fileSize (1024 * 1024 * 1024) @ ''GB''
      else if fileSize < 1024 * 1024 * 1024 * 1024 * 1024
      then format_quotient fileSize (1024 * 1024 * 1024 * 1024) @ ''TB''
      else format_quotient fileSize (1024 * 1024 * 1024 * 1024 * 1024) @ ''PB'')"

section \<open>Lemmas\<close>

lemma string_of_bytes_of_string [simp]: "string_of_bytes (bytes_of_string s) = s"
proof -
  have "char_of (unat (word_of_nat (of_char c) :: byte)) = c" for c :: char
  proof -
    have "of_char c < (256 :: nat)" by simp
    then have "unat (word_of_nat (of_char c) :: byte) = of_char c" by (simp add: unat_of_nat)
    then show ?thesis by simp
  qed
  then show ?thesis by (simp add: string_of_bytes_def bytes_of_string_def o_def)
qed

lemma string_of_bytes_Nil [simp]: "string_of_bytes bs = '''' \<longleftrightarrow> bs = []" "bytes_of_string s = [] \<longleftrightarrow> s = ''''"
  by (simp_all add: string_of_bytes_def bytes_of_string_def)

text \<open>A command succeeds only if it ran and wrote nothing to its error output; otherwise the returned text is empty.\<close>

lemma LocalRunCmd_iff:
  "LocalRunCmd env cm w = ((out, None), w1) \<longleftrightarrow>
     (\<exists>c. se_exec env cm w = (c, w1) \<and> cmd_err c = None \<and> cmd_stderr c = '''' \<and> cmd_stdout c = out)"
  by (cases "se_exec env cm w") (auto simp: LocalRunCmd_def split: option.split)

lemma LocalRunCmd_state [simp]: "snd (LocalRunCmd env cm w) = snd (se_exec env cm w)"
  by (simp add: LocalRunCmd_def split: prod.split option.split)

lemma LocalRunCmd_error: "snd (fst (LocalRunCmd env cm w)) \<noteq> None \<Longrightarrow> fst (fst (LocalRunCmd env cm w)) = ''''"
  by (cases "se_exec env cm w") (auto simp: LocalRunCmd_def split: option.splits if_splits)

text \<open>What is written is read back, if the file system keeps it.\<close>

lemma WriteFile_ReadFile:
  assumes "\<And>d w1. se_write env f d m w = (None, w1) \<Longrightarrow> se_read env f w1 = Inr d"
    and "WriteFile env f s m w = (None, w1)"
  shows "ReadFile env f w1 = (s, None)"
  using assms by (simp add: WriteFile_def ReadFile_def stringTobyteSlice_def)

text \<open>Decoding inverts encoding; data that is not a gzip stream makes \<open>GenDecode\<close> panic, and a stream that is damaged
  later yields what was decoded before the damage.\<close>

definition gzip_lawful :: "gzip \<Rightarrow> bool" where
  "gzip_lawful gz \<longleftrightarrow> gz_newWriterLevel gz 9 = None \<and> (\<forall>b. gz_write gz b = None) \<and> (\<forall>b. gz_close gz b = None) \<and>
     (\<forall>b. gz_reader gz (gz_bytes gz b) = Inr (b, None))"

lemma GenDecode_Gencode: "gzip_lawful gz \<Longrightarrow> GenDecode gz (Gencode gz b) = Ok b"
  by (simp add: gzip_lawful_def Gencode_def GenDecode_def)

lemma GenDecode_not_gzip:
  "gz_reader gz b = Inl e \<Longrightarrow> GenDecode gz b = Panic ''invalid memory address or nil pointer dereference''"
  by (simp add: GenDecode_def)

text \<open>So an answer of the panel is understood if it is encoded JSON, and an answer that is not a gzip stream, such as the
  error page of a proxy with a status up to 400, brings the process down instead of being an error.\<close>

lemma parseResponse_gzip:
  assumes "gzip_lawful gz" and "StatusCode res \<le> 400" and "Body res = Gencode gz b" and "newJson b = Ok j"
  shows "parseResponse (GenDecode gz) newJson host path (Inr res) = Ok j"
  using assms by (simp add: parseResponse_def GenDecode_Gencode)

lemma parseResponse_not_gzip:
  assumes "StatusCode res \<le> 400" and "gz_reader gz (Body res) = Inl e"
  shows "parseResponse (GenDecode gz) newJson host path (Inr res) =
    Panic ''invalid memory address or nil pointer dereference''"
  using assms by (simp add: parseResponse_def GenDecode_not_gzip)

lemma div_even_exact: "0 < b \<Longrightarrow> div_even (a * b) b = a"
  by (simp add: div_even_def)

text \<open>The rounded quotient is within half a unit of the exact one.\<close>

lemma div_even_bounds:
  assumes "0 < b"
  shows "2 * (b * div_even a b) \<le> 2 * a + b" and "2 * a \<le> 2 * (b * div_even a b) + b"
proof -
  define q r where "q = a div b" and "r = a mod b"
  have a: "a = b * q + r" and r: "r < b" using assms by (simp_all add: q_def r_def)
  have d: "div_even a b = (if 2 * r < b then q else if b < 2 * r then q + 1 else if even q then q else q + 1)"
    by (simp add: div_even_def q_def r_def)
  have "b * (q + 1) = b * q + b" by simp
  then show "2 * (b * div_even a b) \<le> 2 * a + b" "2 * a \<le> 2 * (b * div_even a b) + b"
    unfolding d using a r by (auto simp del: mult_Suc_right)
qed

lemma float64_small: "n < 2 ^ 53 \<Longrightarrow> float64_nat n 0 = n"
  using div_even_exact [of 1 n] by (simp add: float64_nat.simps)

text \<open>A whole number of units prints as such.\<close>

lemma FormatFileSize_whole:
  assumes "1 \<le> n" and "n < 1024"
  shows "FormatFileSize (int n * 1024) = Itoa (int n) @ ''.00KB''"
    and "FormatFileSize (int n * (1024 * 1024)) = Itoa (int n) @ ''.00MB''"
proof -
  have [simp]: "two_digits (100 * n) = ''00''"
  proof -
    have "100 * n div 10 mod 10 = 0" "100 * n mod 10 = 0" by presburger+
    moreover have "char_of (48 :: nat) = CHR ''0''" by code_simp
    ultimately show ?thesis by (simp add: two_digits_def)
  qed
  have "div_even (100 * (n * 1024)) 1024 = 100 * n" "div_even (100 * (n * (1024 * 1024))) (1024 * 1024) = 100 * n"
    using div_even_exact [of 1024 "100 * n"] div_even_exact [of "1024 * 1024" "100 * n"] by (simp_all add: mult.assoc)
  moreover have "float64_nat (n * 1024) 0 = n * 1024" "float64_nat (n * (1024 * 1024)) 0 = n * (1024 * 1024)"
    using assms by (simp_all add: float64_small)
  moreover have "nat \<bar>int n * 1024\<bar> = n * 1024" "nat \<bar>int n * (1024 * 1024)\<bar> = n * (1024 * 1024)"
    by (simp_all add: nat_mult_distrib)
  ultimately show "FormatFileSize (int n * 1024) = Itoa (int n) @ ''.00KB''"
    and "FormatFileSize (int n * (1024 * 1024)) = Itoa (int n) @ ''.00MB''"
    using assms unfolding FormatFileSize_def format_quotient_def Let_def by simp_all
qed

end
