(* ===== verification/Server_Setup.thy ===== *)
theory Server_Setup
  imports Server_Main Utils_System
begin

text \<open>
  Model of \<^verbatim>\<open>cmd/quick_ss/youhua.go\<close>, which tunes the system the server runs on, and of \<^verbatim>\<open>main\<close> with its command
  line flag. The shell script is written byte for byte; running it and the other commands is the operating
  system's part (\<open>sys_env\<close> of \<^verbatim>\<open>Utils_System\<close>). Log output is not modelled. The text of the clock that is
  put into the last command is an argument.
\<close>

section \<open>The script\<close>

definition newline :: string where
  "newline = [CHR 0x0A]"

definition youhua_lines :: "string list" where
  "youhua_lines =
     [[],
      ''apt update -y'',
      ''apt list --upgradable'',
      ''apt install tar wget curl supervisor -y'',
      ''echo '' @ [CHR 0x27, CHR 0xE7, CHR 0x8E, CHR 0xAF, CHR 0xE5, CHR 0xA2, CHR 0x83, CHR 0xE4, CHR 0xBC, CHR 0x98, CHR 0xE5, CHR 0x8C, CHR 0x96, CHR 0x27],
      ''ulimit -n 51200'',
      ''echo \"soft nofile 51200\" >> /etc/security/limits.conf'',
      ''echo \"hard nofile 51200\" >> /etc/security/limits.conf'',
      ''(cat <<EOF'',
      ''fs.file-max = 102400'',
      ''net.core.somaxconn = 1048576'',
      ''net.ipv4.tcp_syncookies = 1'',
      ''net.ipv4.tcp_tw_reuse = 1'',
      ''net.ipv4.tcp_timestamps = 1'',
      ''net.ipv4.tcp_fin_timeout = 30'',
      ''net.core.default_qdisc = fq'',
      ''net.ipv4.tcp_congestion_control = bbr'',
      ''net.ipv4.tcp_fastopen = 3'',
      ''net.ipv4.tcp_max_syn_backlog = 1048576'',
      ''net.ipv4.tcp_synack_retries = 1'',
      ''net.ipv4.tcp_orphan_retries = 1'',
      ''net.ipv4.ip_local_port_range = 32768 65535'',
      ''net.ipv4.tcp_mem = 88560 118080 177120'',
      ''net.ipv4.tcp_wmem = 4096 16384 8388608'',
      ''EOF'',
      ''    ) > /etc/sysctl.conf'',
      ''sysctl -p'',
      ''lsmod | grep bbr'',
      ''(cat <<EOF'',
      ''[unix_http_server]'',
      ''file=/tmp/supervisor.sock   ; the path to the socket file'',
      [],
      ''[supervisord]'',
      ''logfile=/tmp/supervisord.log ; main log file; default $CWD/supervisord.log'',
      ''logfile_maxbytes=50MB        ; max main logfile bytes b4 rotation; default 50MB'',
      ''logfile_backups=10           ; # of main logfile backups; 0 means none, default 10'',
      ''loglevel=info                ; log level; default info; others: debug,warn,trace'',
      ''pidfile=/tmp/supervisord.pid ; supervisord pidfile; default supervisord.pid'',
      ''nodaemon=false               ; start in foreground if true; default false'',
      ''silent=false                 ; no logs to stdout if true; default false'',
      ''minfds=1024                  ; min. avail startup file descriptors; default 1024'',
      ''minprocs=200                 ; min. avail process descriptors;default 200'',
      [],
      ''[rpcinterface:supervisor]'',
      ''supervisor.rpcinterface_factory = supervisor.rpcinterface:make_main_rpcinterface'',
      [],
      [],
      ''[supervisorctl]'',
      ''serverurl=unix:///tmp/supervisor.sock ; use a unix:// URL  for a unix socket'',
      [],
      [],
      [],
      ''[program:agss]'',
      ''user=root'',
      ''command=/root/supervisd'',
      ''autostart=true'',
      ''autorestart=true'',
      ''startsecs=10'',
      ''EOF'',
      ''    ) > /etc/supervisord.conf'']"

definition youhua_script :: string where
  "youhua_script = concat (map (\<lambda>l. l @ newline) youhua_lines)"

section \<open>Setting up\<close>

text \<open>The mode 0644 is 420.\<close>

definition iniSh :: "'w sys_env \<Rightarrow> 'w \<Rightarrow> goerror option \<times> 'w" where
  "iniSh env w =
     (let filename = ''youhua.sh''; str = fst (ReadFile env filename w)
      in if str = '''' then
           (case WriteFile env filename youhua_script 420 w of
              (Some err, w1) \<Rightarrow> (Some err, w1)
            | (None, w1) \<Rightarrow> (None, w1))
         else (None, w))"

definition hasrun_cmd :: string where
  "hasrun_cmd = ''cat ./hasrun.sh''"

definition chmod_cmd :: string where
  "chmod_cmd = ''chmod +x  ./youhua.sh''"

definition script_cmd :: string where
  "script_cmd = ''sh ./youhua.sh''"

definition stamp_cmd :: "string \<Rightarrow> string" where
  "stamp_cmd now = ''cat '' @ [CHR 0x27] @ now @ [CHR 0x27] @ '' > ./hasrun.sh''"

text \<open>\<open>now\<close> is the text of the clock.\<close>

definition YouhuaRun :: "'w sys_env \<Rightarrow> string \<Rightarrow> 'w \<Rightarrow> goerror option \<times> 'w" where
  "YouhuaRun env now w =
     (case LocalRunCmd env hasrun_cmd w of
        ((ishas, _), w1) \<Rightarrow>
          if ishas \<noteq> '''' then (None, w1)
          else
            (case iniSh env w1 of
               (Some err, w2) \<Rightarrow> (Some err, w2)
             | (None, w2) \<Rightarrow>
                 (case LocalRunCmd env chmod_cmd w2 of
                    ((ret, Some err), w3) \<Rightarrow> (Some err, w3)
                  | ((ret, None), w3) \<Rightarrow>
                      (case LocalRunCmd env script_cmd w3 of
                         ((ret, Some err), w4) \<Rightarrow> (Some err, w4)
                       | ((ret, None), w4) \<Rightarrow>
                           (case LocalRunCmd env (stamp_cmd now) w4 of
                              ((ret, Some err), w5) \<Rightarrow> (Some err, w5)
                            | ((ret, None), w5) \<Rightarrow> (None, w5))))))"

text \<open>The command line flag \<open>y\<close>, which is \<^verbatim>\<open>n\<close> by default, chooses between setting up, whose error is dropped, and
  serving.\<close>

definition main ::
  "'w sys_env \<Rightarrow> string \<Rightarrow> string \<Rightarrow> 'w \<Rightarrow> os_env \<Rightarrow> crypto \<Rightarrow> aeadSpec list \<Rightarrow> (int set \<Rightarrow> int list) \<Rightarrow>
   ((int \<times> CipherEntry list) list \<Rightarrow> (int \<times> CipherEntry list) list) \<Rightarrow> 'j api_env \<Rightarrow> (goerror + database) \<Rightarrow> int \<Rightarrow>
   SSServer result option \<times> 'w" where
  "main senv youhua now w env cr specs order order2 aenv odb t =
     (if youhua \<noteq> ''n'' then (None, snd (YouhuaRun senv now w))
      else (Some (main_server env cr specs order order2 aenv odb t), w))"

section \<open>Lemmas\<close>

text \<open>A script that is there is never replaced.\<close>

lemma iniSh_keeps: "fst (ReadFile env ''youhua.sh'' w) \<noteq> '''' \<Longrightarrow> iniSh env w = (None, w)"
  by (simp add: iniSh_def)

lemma iniSh_state:
  "snd (iniSh env w) = w \<or>
   snd (iniSh env w) = snd (se_write env ''youhua.sh'' (stringTobyteSlice youhua_script) 420 w)"
  by (auto simp: iniSh_def WriteFile_def Let_def split: prod.split option.split)

text \<open>The states a run goes through, one per command. It returns no error only if the mark of an earlier run was found,
  after nothing but reading it, or if every step succeeded.\<close>

lemma YouhuaRun_cases:
  obtains (Marked) "YouhuaRun env now w = (None, snd (se_exec env hasrun_cmd w))"
      "fst (fst (LocalRunCmd env hasrun_cmd w)) \<noteq> ''''"
  | (NoScript) err w1 where "w1 = snd (se_exec env hasrun_cmd w)"
      "YouhuaRun env now w = (Some err, snd (iniSh env w1))"
  | (NoMode) err w1 w2 where "w1 = snd (se_exec env hasrun_cmd w)" "w2 = snd (iniSh env w1)"
      "YouhuaRun env now w = (Some err, snd (se_exec env chmod_cmd w2))"
  | (ScriptFailed) err w1 w2 w3 where "w1 = snd (se_exec env hasrun_cmd w)" "w2 = snd (iniSh env w1)"
      "w3 = snd (se_exec env chmod_cmd w2)" "YouhuaRun env now w = (Some err, snd (se_exec env script_cmd w3))"
  | (Stamped) r w1 w2 w3 w4 where "w1 = snd (se_exec env hasrun_cmd w)" "w2 = snd (iniSh env w1)"
      "w3 = snd (se_exec env chmod_cmd w2)" "w4 = snd (se_exec env script_cmd w3)"
      "fst (fst (LocalRunCmd env hasrun_cmd w)) = ''''"
      "r = snd (fst (LocalRunCmd env (stamp_cmd now) w4))"
      "YouhuaRun env now w = (r, snd (se_exec env (stamp_cmd now) w4))"
proof -
  obtain ishas e0 w1 where c1: "LocalRunCmd env hasrun_cmd w = ((ishas, e0), w1)" by (metis prod.collapse)
  obtain e1 w2 where c2: "iniSh env w1 = (e1, w2)" by fastforce
  obtain r3 e3 w3 where c3: "LocalRunCmd env chmod_cmd w2 = ((r3, e3), w3)" by (metis prod.collapse)
  obtain r4 e4 w4 where c4: "LocalRunCmd env script_cmd w3 = ((r4, e4), w4)" by (metis prod.collapse)
  obtain r5 e5 w5 where c5: "LocalRunCmd env (stamp_cmd now) w4 = ((r5, e5), w5)" by (metis prod.collapse)
  have w: "w1 = snd (se_exec env hasrun_cmd w)" "w2 = snd (iniSh env w1)" "w3 = snd (se_exec env chmod_cmd w2)"
    "w4 = snd (se_exec env script_cmd w3)" "w5 = snd (se_exec env (stamp_cmd now) w4)"
    using c1 c2 c3 c4 c5 LocalRunCmd_state by (metis snd_conv)+
  have run: "YouhuaRun env now w =
      (if ishas \<noteq> [] then (None, w1)
       else case e1 of Some err \<Rightarrow> (Some err, w2)
       | None \<Rightarrow> (case e3 of Some err \<Rightarrow> (Some err, w3)
         | None \<Rightarrow> (case e4 of Some err \<Rightarrow> (Some err, w4) | None \<Rightarrow> (e5, w5))))"
    by (simp add: YouhuaRun_def c1 c2 c3 c4 c5 split: option.split)
  have out: "fst (fst (LocalRunCmd env hasrun_cmd w)) = ishas" "snd (fst (LocalRunCmd env (stamp_cmd now) w4)) = e5"
    by (simp_all add: c1 c5)
  consider "ishas \<noteq> []" | err where "ishas = []" "e1 = Some err" | err where "ishas = []" "e1 = None" "e3 = Some err"
    | err where "ishas = []" "e1 = None" "e3 = None" "e4 = Some err" | "ishas = []" "e1 = None" "e3 = None" "e4 = None"
    by (metis not_None_eq)
  then show ?thesis
  proof cases
    case 1
    with run out w(1) show ?thesis by (intro Marked) simp_all
  next
    case 2
    with run w(1,2) show ?thesis by (intro NoScript [of w1]) simp_all
  next
    case 3
    with run w(1-3) show ?thesis by (intro NoMode [of w1 w2]) simp_all
  next
    case 4
    with run w(1-4) show ?thesis by (intro ScriptFailed [of w1 w2 w3]) simp_all
  next
    case 5
    with run out w show ?thesis by (intro Stamped [of w1 w2 w3 w4 e5]) simp_all
  qed
qed

section \<open>What the last command does\<close>

text \<open>\<^verbatim>\<open>cat\<close> with a file that cannot be read, before the command and after it, fails or complains on its error output, and the file
  that the output was redirected to is empty, unreadable or as it was.\<close>

definition cat_missing :: "'w sys_env \<Rightarrow> string \<Rightarrow> bool" where
  "cat_missing env now \<longleftrightarrow>
     (\<forall>w c w1. se_exec env (stamp_cmd now) w = (c, w1) \<longrightarrow>
        (\<exists>e. se_read env now w = Inl e) \<longrightarrow> (\<exists>e. se_read env now w1 = Inl e) \<longrightarrow>
        (cmd_err c \<noteq> None \<or> cmd_stderr c \<noteq> '''') \<and>
        (\<forall>b. se_read env ''./hasrun.sh'' w1 = Inr b \<longrightarrow> b = [] \<or> se_read env ''./hasrun.sh'' w = Inr b))"

text \<open>Setting up does not succeed. Let \<open>w\<close> be a world in which no earlier run has left its mark, and let no file be named like the time
  when the last command runs. Then the run returns an error; and the last command leaves \<^verbatim>\<open>./hasrun.sh\<close> without contents, unless the
  script has written it: it copies a file named like the time instead of writing the time.\<close>

lemma setup_fails:
  assumes "cat_missing env now" and "fst (fst (LocalRunCmd env hasrun_cmd w)) = ''''"
    and worlds: "w1 = snd (se_exec env hasrun_cmd w)" "w2 = snd (iniSh env w1)" "w3 = snd (se_exec env chmod_cmd w2)"
      "w4 = snd (se_exec env script_cmd w3)" "w5 = snd (se_exec env (stamp_cmd now) w4)"
    and "\<exists>e. se_read env now w4 = Inl e" and "\<exists>e. se_read env now w5 = Inl e"
  shows "fst (YouhuaRun env now w) \<noteq> None \<and> snd (YouhuaRun env now w) \<in> {w2, w3, w4, w5} \<and>
    (\<forall>b. se_read env ''./hasrun.sh'' w5 = Inr b \<longrightarrow> b = [] \<or> se_read env ''./hasrun.sh'' w4 = Inr b)"
proof -
  obtain c where stamp: "se_exec env (stamp_cmd now) w4 = (c, w5)" using worlds(5) by (metis prod.collapse)
  with assms(1,8,9) have c: "cmd_err c \<noteq> None \<or> cmd_stderr c \<noteq> ''''"
    and mark: "\<forall>b. se_read env ''./hasrun.sh'' w5 = Inr b \<longrightarrow> b = [] \<or> se_read env ''./hasrun.sh'' w4 = Inr b"
    unfolding cat_missing_def by blast+
  from c have failed: "snd (fst (LocalRunCmd env (stamp_cmd now) w4)) \<noteq> None"
    by (auto simp: stamp LocalRunCmd_def split: option.split)
  have "fst (YouhuaRun env now w) \<noteq> None \<and> snd (YouhuaRun env now w) \<in> {w2, w3, w4, w5}"
    by (rule YouhuaRun_cases [of env now w]) (use assms(2) failed worlds in auto)
  with mark show ?thesis by blast
qed

text \<open>A file system with a shell that knows the four commands.\<close>

definition toy_exec :: "string \<Rightarrow> (string \<rightharpoonup> bytes) \<Rightarrow> cmd_outcome \<times> (string \<rightharpoonup> bytes)" where
  "toy_exec cm w =
     (if cm = hasrun_cmd then
        (\<lparr>cmd_err = None, cmd_stdout = (case w ''./hasrun.sh'' of None \<Rightarrow> [] | Some b \<Rightarrow> string_of_bytes b),
          cmd_stderr = (case w ''./hasrun.sh'' of None \<Rightarrow> ''cat: No such file or directory'' | Some b \<Rightarrow> [])\<rparr>, w)
      else if cm = stamp_cmd ''noon'' then
        (case w ''noon'' of
           None \<Rightarrow> (\<lparr>cmd_err = None, cmd_stdout = [], cmd_stderr = ''cat: noon: No such file or directory''\<rparr>,
                     w(''./hasrun.sh'' \<mapsto> []))
         | Some b \<Rightarrow> (\<lparr>cmd_err = None, cmd_stdout = [], cmd_stderr = []\<rparr>, w(''./hasrun.sh'' \<mapsto> b)))
      else (\<lparr>cmd_err = None, cmd_stdout = [], cmd_stderr = []\<rparr>, w))"

definition toy_sys :: "(string \<rightharpoonup> bytes) sys_env" where
  "toy_sys = \<lparr>se_exec = toy_exec,
     se_read = \<lambda>f w. (case w f of None \<Rightarrow> Inl (ErrorNew ''no such file'') | Some b \<Rightarrow> Inr b),
     se_write = \<lambda>f d m w. (None, w(f \<mapsto> d))\<rparr>"

lemma setup_fails_witness: "fst (YouhuaRun toy_sys ''noon'' Map.empty) \<noteq> None"
proof -
  have cmds: "hasrun_cmd \<noteq> stamp_cmd ''noon''" "chmod_cmd \<noteq> hasrun_cmd" "script_cmd \<noteq> hasrun_cmd"
    "chmod_cmd \<noteq> stamp_cmd ''noon''" "script_cmd \<noteq> stamp_cmd ''noon''" "''noon'' \<noteq> ''youhua.sh''" "''noon'' \<noteq> ''./hasrun.sh''"
    by (simp_all add: hasrun_cmd_def stamp_cmd_def chmod_cmd_def script_cmd_def)
  have "cat_missing toy_sys ''noon''"
    using cmds by (auto simp: cat_missing_def toy_sys_def toy_exec_def split: option.split)
  moreover have "fst (fst (LocalRunCmd toy_sys hasrun_cmd Map.empty)) = ''''"
    by (simp add: toy_sys_def toy_exec_def LocalRunCmd_def)
  moreover note cmds
  ultimately show ?thesis
    using setup_fails [of toy_sys "''noon''" Map.empty, OF _ _ refl refl refl refl refl]
    by (auto simp: toy_sys_def toy_exec_def iniSh_def ReadFile_def WriteFile_def Let_def split: sum.splits prod.splits option.splits)
qed

end
