(* ===== verification/Utils_Device.thy ===== *)
theory Utils_Device
  imports Utils_Numbers SS_Cipher "HOL-Library.AList"
begin

text \<open>
  Model of the device report: \<^verbatim>\<open>utils/DeviceUtil.go\<close> and \<^verbatim>\<open>isListContainsStr\<close> of \<^verbatim>\<open>utils/functions.go\<close>. Counters are
  \<^verbatim>\<open>uint64\<close>, whose subtraction wraps. The module gopsutil, the clock and the output of \<^verbatim>\<open>df\<close> are parameters; a
  pointer that gopsutil may leave nil is an option. The order in which Go iterates a map is the order of
  insertion, which does not matter for the sums.
\<close>

section \<open>Names\<close>

definition strings_Contains :: "string \<Rightarrow> string \<Rightarrow> bool" where
  "strings_Contains s sub \<longleftrightarrow> (\<exists>i \<in> set [0..<length s + 1]. take (length sub) (drop i s) = sub)"

fun isListContainsStr :: "string list \<Rightarrow> string \<Rightarrow> bool" where
  "isListContainsStr [] str = False"
| "isListContainsStr (x # xs) str = (if strings_Contains str x then True else isListContainsStr xs str)"

definition expectDiskFsTypes :: "string list" where
  "expectDiskFsTypes =
     [''apfs'', ''ext4'', ''ext3'', ''ext2'', ''f2fs'', ''reiserfs'', ''jfs'', ''btrfs'', ''fuseblk'', ''zfs'', ''simfs'', ''ntfs'',
      ''fat32'', ''exfat'', ''xfs'', ''fuse.rclone'']"

definition excludeNetInterfaces :: "string list" where
  "excludeNetInterfaces = [''lo'', ''tun'', ''docker'', ''veth'', ''br-'', ''vmbr'', ''vnet'', ''kube'']"

section \<open>Network counters\<close>

record net_counters =
  if_Name :: string
  BytesRecv :: "64 word"
  BytesSent :: "64 word"

text \<open>The package's variables.\<close>

record net_vars =
  netInTransfer :: "64 word"
  netOutTransfer :: "64 word"
  lastUpdateNetStats :: "64 word"

fun sum_interfaces :: "net_counters list \<Rightarrow> 64 word \<times> 64 word \<Rightarrow> 64 word \<times> 64 word" where
  "sum_interfaces [] io = io"
| "sum_interfaces (s2 # ss) (i, out) =
     (if isListContainsStr excludeNetInterfaces (if_Name s2) then sum_interfaces ss (i, out)
      else sum_interfaces ss (i + BytesRecv s2, out + BytesSent s2))"

record net_stat =
  ns_in :: "64 word"
  ns_out :: "64 word"
  ns_inSpeed :: "64 word"
  ns_outSpeed :: "64 word"

definition GetNetStat ::
  "goerror + net_counters list \<Rightarrow> 64 word \<Rightarrow> net_vars \<Rightarrow> (net_stat \<times> goerror option) \<times> net_vars" where
  "GetNetStat counters now v =
     (case counters of
        Inl err \<Rightarrow> ((\<lparr>ns_in = 0, ns_out = 0, ns_inSpeed = 0, ns_outSpeed = 0\<rparr>, Some err), v)
      | Inr s \<Rightarrow>
          (case sum_interfaces s (0, 0) of
             (i, out) \<Rightarrow>
               (let diff = now - lastUpdateNetStats v;
                    inSpeed = (if diff > 0 then (i - netInTransfer v) div diff else 0);
                    outSpeed = (if diff > 0 then (out - netOutTransfer v) div diff else 0)
                in ((\<lparr>ns_in = i, ns_out = out, ns_inSpeed = inSpeed, ns_outSpeed = outSpeed\<rparr>, None),
                    \<lparr>netInTransfer = i, netOutTransfer = out, lastUpdateNetStats = now\<rparr>))))"

section \<open>Disks\<close>

record partition =
  Device :: string
  Fstype :: string
  Mountpoint :: string

text \<open>The loop that fills the map from devices to mount points; a missing entry reads as the empty string.\<close>

fun disk_devices :: "partition list \<Rightarrow> (string \<times> string) list \<Rightarrow> (string \<times> string) list" where
  "disk_devices [] devices = devices"
| "disk_devices (d # ds) devices =
     (if (case map_of devices (Device d) of Some m \<Rightarrow> m | None \<Rightarrow> '''') = '''' \<and>
         isListContainsStr expectDiskFsTypes (ToLower (Fstype d)) \<and> \<not> strings_Contains (Mountpoint d) ''/var/lib/kubelet''
      then disk_devices ds (AList.update (Device d) (Mountpoint d) devices) else disk_devices ds devices)"

fun sum_disks :: "(string \<Rightarrow> goerror + 64 word \<times> 64 word) \<Rightarrow> (string \<times> string) list \<Rightarrow> 64 word \<times> 64 word \<Rightarrow> 64 word \<times> 64 word" where
  "sum_disks usage [] tu = tu"
| "sum_disks usage ((dev, mountPath) # ds) (tot, used) =
     (case usage mountPath of
        Inl err \<Rightarrow> sum_disks usage ds (tot, used)
      | Inr (t, u) \<Rightarrow> sum_disks usage ds (tot + t, used + u))"

text \<open>\<^verbatim>\<open>strings.Split\<close> at a newline and \<^verbatim>\<open>strings.Fields\<close>, of ASCII text.\<close>

fun split_lines :: "string \<Rightarrow> string \<Rightarrow> string list" where
  "split_lines [] cur = [rev cur]"
| "split_lines (c # cs) cur = (if c = CHR 0x0A then rev cur # split_lines cs [] else split_lines cs (c # cur))"

definition is_space :: "char \<Rightarrow> bool" where
  "is_space c \<longleftrightarrow> of_char c \<in> {9, 10, 11, 12, 13, 32 :: nat}"

fun Fields :: "string \<Rightarrow> string \<Rightarrow> string list" where
  "Fields [] cur = (if cur = [] then [] else [rev cur])"
| "Fields (c # cs) cur =
     (if is_space c then (if cur = [] then Fields cs [] else rev cur # Fields cs []) else Fields cs (c # cur))"

text \<open>The loop over the lines of \<^verbatim>\<open>df\<close>, whose blocks have 1024 bytes.\<close>

fun df_lines :: "string list \<Rightarrow> 64 word \<times> 64 word \<Rightarrow> 64 word \<times> 64 word" where
  "df_lines [] tu = tu"
| "df_lines (c # cs) tu =
     (let info = Fields c []
      in if length info = 6 \<and> info ! 5 = ''/''
         then df_lines cs (word_of_nat (fst (ParseUint (info ! 1))) * 1024, word_of_nat (fst (ParseUint (info ! 2))) * 1024)
         else df_lines cs tu)"

definition getDiskTotalAndUsed ::
  "partition list \<Rightarrow> (string \<Rightarrow> goerror + 64 word \<times> 64 word) \<Rightarrow> bool \<Rightarrow> goerror + string \<Rightarrow> 64 word \<times> 64 word" where
  "getDiskTotalAndUsed diskList usage linux df =
     (case sum_disks usage (disk_devices diskList []) (0, 0) of
        (tot, used) \<Rightarrow>
          if linux \<and> tot = 0 \<and> used = 0
          then (case df of Inl err \<Rightarrow> (tot, used) | Inr out \<Rightarrow> df_lines (split_lines out []) (tot, used))
          else (tot, used))"

section \<open>The report\<close>

text \<open>Percentages are of a parameter type.\<close>

record 'f CpuInfo =
  cpu_Name :: string
  cpu_Cores :: "64 word"
  cpu_Used :: 'f

record 'f MemInfo =
  mem_Total :: "64 word"
  mem_UsedPercent :: 'f

record DiskInfo =
  disk_Total :: "64 word"
  disk_Used :: "64 word"

record 'f DeviceInfo =
  Cpu :: "'f CpuInfo list"
  Mem :: "'f MemInfo"
  Disk :: DiskInfo
  BootTime :: "64 word"
  TotalDown :: "64 word"
  TotalUp :: "64 word"
  LastDown :: "64 word"
  LastUp :: "64 word"

text \<open>What gopsutil returns: percentages, models and core counts of the processors (empty after an error), memory and
  host (nil after an error).\<close>

record 'f device =
  dv_percent :: "'f list"
  dv_cpus :: "(string \<times> 64 word) list"
  dv_mem :: "(64 word \<times> 'f) option"
  dv_host :: "64 word option"
  dv_net :: "goerror + net_counters list"
  dv_now :: "64 word"
  dv_disks :: "partition list"
  dv_usage :: "string \<Rightarrow> goerror + 64 word \<times> 64 word"
  dv_linux :: bool
  dv_df :: "goerror + string"

text \<open>The loop over the processors, from index \<open>i\<close> on.\<close>

fun cpu_loop :: "'f list \<Rightarrow> nat \<Rightarrow> (string \<times> 64 word) list \<Rightarrow> 'f CpuInfo list result" where
  "cpu_loop cp i [] = Ok []"
| "cpu_loop cp i ((nm, cores) # infos) =
     (if length cp \<le> i then Panic ''index out of range''
      else bind_result (cpu_loop cp (Suc i) infos) (\<lambda>cs. Ok (\<lparr>cpu_Name = nm, cpu_Cores = cores, cpu_Used = cp ! i\<rparr> # cs)))"

definition GetDeviceInfo :: "'f device \<Rightarrow> net_vars \<Rightarrow> 'f DeviceInfo result \<times> net_vars" where
  "GetDeviceInfo dv v =
     (case GetNetStat (dv_net dv) (dv_now dv) v of
        ((ns, err), v') \<Rightarrow>
          (bind_result (cpu_loop (dv_percent dv) 0 (dv_cpus dv)) (\<lambda>cpus.
             case dv_mem dv of
               None \<Rightarrow> Panic ''invalid memory address or nil pointer dereference''
             | Some (memTotal, usedPercent) \<Rightarrow>
                 (case getDiskTotalAndUsed (dv_disks dv) (dv_usage dv) (dv_linux dv) (dv_df dv) of
                    (disT, DiskU) \<Rightarrow>
                      (case dv_host dv of
                         None \<Rightarrow> Panic ''invalid memory address or nil pointer dereference''
                       | Some bootTime \<Rightarrow>
                           Ok \<lparr>Cpu = cpus, Mem = \<lparr>mem_Total = memTotal, mem_UsedPercent = usedPercent\<rparr>,
                               Disk = \<lparr>disk_Total = disT, disk_Used = DiskU\<rparr>, BootTime = bootTime,
                               TotalDown = ns_in ns, TotalUp = ns_out ns, LastDown = ns_inSpeed ns, LastUp = ns_outSpeed ns\<rparr>))),
           v'))"

section \<open>Lemmas\<close>

lemma isListContainsStr_iff: "isListContainsStr xs str \<longleftrightarrow> (\<exists>x \<in> set xs. strings_Contains str x)"
  by (induction xs) auto

lemma cpu_loop_ok:
  "i + length infos \<le> length cp \<Longrightarrow>
     cpu_loop cp i infos = Ok (map (\<lambda>((nm, cores), u). \<lparr>cpu_Name = nm, cpu_Cores = cores, cpu_Used = u\<rparr>) (zip infos (drop i cp)))"
proof (induction cp i infos rule: cpu_loop.induct)
  case (2 cp i nm cores infos)
  then have "drop i cp = cp ! i # drop (Suc i) cp" by (simp add: Cons_nth_drop_Suc)
  with 2 show ?case by simp
qed simp

lemma cpu_loop_panics:
  "infos \<noteq> [] \<Longrightarrow> length cp < i + length infos \<Longrightarrow> cpu_loop cp i infos = Panic ''index out of range''"
proof (induction cp i infos rule: cpu_loop.induct)
  case (2 cp i nm cores infos)
  then show ?case by (cases "infos = []") auto
qed simp

lemma word_div_diff:
  fixes a b d :: "64 word"
  assumes "0 < d"
  shows "unat ((a - b) div d) = (if b \<le> a then (unat a - unat b) div unat d
    else (2 ^ 64 - (unat b - unat a)) div unat d)"
proof -
  have "unat (a - b) = (if b \<le> a then unat a - unat b else 2 ^ 64 - (unat b - unat a))"
    using unsigned_less [of b] by (simp add: unat_sub_if_size word_le_nat_alt word_size) arith
  then show ?thesis by (simp add: unat_div)
qed

section \<open>Properties\<close>

text \<open>The speeds of the network report. On every successful call the totals are those of the interfaces that are not
  excluded, they become the base of the next call, and the speeds are the growth since the last call divided by
  the seconds that passed, 0 if none did. When a counter has become smaller (an interface was reset or went
  away) the difference wraps: the speed is that of 2^64 bytes less the decrease.\<close>

lemma GetNetStat_speeds:
  assumes "GetNetStat (Inr s) now v = ((ns, err), v')"
  shows "err = None \<and> (ns_in ns, ns_out ns) = sum_interfaces s (0, 0) \<and>
    v' = \<lparr>netInTransfer = ns_in ns, netOutTransfer = ns_out ns, lastUpdateNetStats = now\<rparr> \<and>
    (if now = lastUpdateNetStats v then ns_inSpeed ns = 0 \<and> ns_outSpeed ns = 0
     else unat (ns_inSpeed ns) =
            (if netInTransfer v \<le> ns_in ns then unat (ns_in ns) - unat (netInTransfer v)
             else 2 ^ 64 - (unat (netInTransfer v) - unat (ns_in ns))) div unat (now - lastUpdateNetStats v) \<and>
          unat (ns_outSpeed ns) =
            (if netOutTransfer v \<le> ns_out ns then unat (ns_out ns) - unat (netOutTransfer v)
             else 2 ^ 64 - (unat (netOutTransfer v) - unat (ns_out ns))) div unat (now - lastUpdateNetStats v))"
proof (cases "now = lastUpdateNetStats v")
  case True
  with assms show ?thesis by (auto simp: GetNetStat_def split: prod.splits)
next
  case False
  then have "0 < now - lastUpdateNetStats v" by (simp add: word_greater_zero_iff)
  then show ?thesis
    using assms False word_div_diff [of "now - lastUpdateNetStats v"]
    by (auto simp: GetNetStat_def Let_def split: prod.splits)
qed

definition toy_interfaces :: "net_counters list" where
  "toy_interfaces = [\<lparr>if_Name = ''eth0'', BytesRecv = 1000, BytesSent = 40\<rparr>, \<lparr>if_Name = ''lo'', BytesRecv = 7, BytesSent = 7\<rparr>]"

lemma toy_sum: "sum_interfaces toy_interfaces (0, 0) = (1000, 40)"
proof -
  have "isListContainsStr excludeNetInterfaces ''lo''" "\<not> isListContainsStr excludeNetInterfaces ''eth0''" by code_simp+
  then show ?thesis by (simp add: toy_interfaces_def)
qed

lemma GetNetStat_speeds_witness:
  "\<exists>ns v'. GetNetStat (Inr toy_interfaces) 10 \<lparr>netInTransfer = 600, netOutTransfer = 50, lastUpdateNetStats = 8\<rparr> = ((ns, None), v') \<and>
     unat (ns_inSpeed ns) = 200 \<and> unat (ns_outSpeed ns) = (2 ^ 64 - 10) div 2"
proof -
  obtain ns err v' where run: "GetNetStat (Inr toy_interfaces) 10 \<lparr>netInTransfer = 600, netOutTransfer = 50, lastUpdateNetStats = 8\<rparr> =
      ((ns, err), v')"
    by (metis prod.collapse)
  from GetNetStat_speeds [OF run] have "err = None" "ns_in ns = 1000" "ns_out ns = 40"
    "unat (ns_inSpeed ns) = 200" "unat (ns_outSpeed ns) = (2 ^ 64 - 10) div 2"
    by (auto simp: toy_sum split: if_splits)
  with run show ?thesis by blast
qed

text \<open>The name of an interface is excluded if it contains an excluded name anywhere: a wireless interface \<^verbatim>\<open>wlo1\<close> is not
  counted.\<close>

lemma excluded_substring: "isListContainsStr excludeNetInterfaces ''wlo1''"
  by code_simp

text \<open>The device report panics exactly when memory or host information is missing, or when there are fewer percentages
  than processors: the errors of gopsutil are only logged.\<close>

lemma GetDeviceInfo_panics:
  "(\<exists>info. fst (GetDeviceInfo dv v) = Ok info) \<longleftrightarrow>
     (dv_cpus dv = [] \<or> length (dv_cpus dv) \<le> length (dv_percent dv)) \<and> dv_mem dv \<noteq> None \<and> dv_host dv \<noteq> None"
proof (cases "dv_cpus dv = [] \<or> length (dv_cpus dv) \<le> length (dv_percent dv)")
  case True
  then obtain cs where "cpu_loop (dv_percent dv) 0 (dv_cpus dv) = Ok cs"
    using cpu_loop_ok [of 0 "dv_cpus dv" "dv_percent dv"] by (cases "dv_cpus dv = []") auto
  with True show ?thesis by (auto simp: GetDeviceInfo_def split: prod.splits option.splits)
next
  case False
  with cpu_loop_panics [of "dv_cpus dv" "dv_percent dv" 0] show ?thesis
    by (auto simp: GetDeviceInfo_def split: prod.splits)
qed

end
