(* ===== verification/Test_Helpers.thy ===== *)
theory Test_Helpers
  imports Server_Main
begin

text \<open>
  The constructors of test data that the packages export: \<^verbatim>\<open>shadowsocks/cipher_testing.go\<close> and
  \<^verbatim>\<open>service/cipher_list_testing.go\<close>.
\<close>

definition TestCipher :: string where
  "TestCipher = ''chacha20-ietf-poly1305''"

definition MakeTestSecrets :: "nat \<Rightarrow> string list" where
  "MakeTestSecrets n = map (\<lambda>i. ''secret-'' @ Itoa (int i)) [0..<n]"

definition MakeTestPayload :: "nat \<Rightarrow> bytes" where
  "MakeTestPayload n = map (\<lambda>i. word_of_nat i) [0..<n]"

fun test_entries :: "crypto \<Rightarrow> aeadSpec list \<Rightarrow> nat \<Rightarrow> string list \<Rightarrow> CipherEntry list \<Rightarrow> CipherEntry list result" where
  "test_entries cr specs i [] l = Ok l"
| "test_entries cr specs i (secret # secrets) l =
     (case NewCipher cr specs TestCipher secret of
        Ok cipher \<Rightarrow>
          test_entries cr specs (Suc i) secrets (l @ [MakeCipherEntry cr (''id-'' @ Itoa (int i)) cipher secret])
      | Fail err \<Rightarrow> Fail (ErrorWrap (''Failed to create cipher '' @ Itoa (int i)) err)
      | Panic m \<Rightarrow> Panic m)"

definition MakeTestCiphers :: "crypto \<Rightarrow> aeadSpec list \<Rightarrow> string list \<Rightarrow> cipherList result" where
  "MakeTestCiphers cr specs secrets =
     bind_result (test_entries cr specs 0 secrets []) (\<lambda>l. Ok (install (NewCipherList no_entries) 0 l))"

section \<open>Lemmas\<close>

lemma MakeTestPayload_nth:
  "length (MakeTestPayload n) = n" "i < n \<Longrightarrow> unat (MakeTestPayload n ! i) = i mod 256"
  by (simp_all add: MakeTestPayload_def unat_of_nat)

lemma Itoa_inj:
  assumes "Itoa (int i) = Itoa (int j)"
  shows "i = j"
proof -
  have eq: "itoa_loop i [] = itoa_loop j []" using assms by (simp add: Itoa_def del: itoa_loop.simps)
  have "digits_value (itoa_loop k []) = k" for k
    using itoa_loop_digits [of "[]" k] by (simp add: digits_value_def del: itoa_loop.simps)
  then show ?thesis using eq by metis
qed

text \<open>The test secrets, and so the test ciphers' IDs, are pairwise different.\<close>

lemma MakeTestSecrets_distinct: "distinct (MakeTestSecrets n)" "length (MakeTestSecrets n) = n"
  by (auto simp: MakeTestSecrets_def distinct_map inj_on_def dest: Itoa_inj simp del: itoa_loop.simps)

lemma test_entries_spec:
  assumes "\<forall>secret \<in> set secrets. \<exists>c. NewCipher cr specs TestCipher secret = Ok c"
  shows "\<exists>es. test_entries cr specs i secrets l = Ok (l @ es) \<and> length es = length secrets \<and>
    (\<forall>k < length secrets. ID (es ! k) = ''id-'' @ Itoa (int (i + k)) \<and>
       NewCipher cr specs TestCipher (secrets ! k) = Ok (entry_Cipher (es ! k)))"
  using assms
proof (induction secrets arbitrary: i l)
  case (Cons secret secrets)
  then obtain c where c: "NewCipher cr specs TestCipher secret = Ok c" by auto
  let ?e = "MakeCipherEntry cr (''id-'' @ Itoa (int i)) c secret"
  from Cons.IH [of "Suc i" "l @ [?e]"] Cons.prems obtain es where
    es: "test_entries cr specs (Suc i) secrets (l @ [?e]) = Ok (l @ [?e] @ es)" "length es = length secrets"
    "\<forall>k < length secrets. ID (es ! k) = ''id-'' @ Itoa (int (Suc i + k)) \<and>
       NewCipher cr specs TestCipher (secrets ! k) = Ok (entry_Cipher (es ! k))" by auto
  have "ID ((?e # es) ! k) = ''id-'' @ Itoa (int (i + k)) \<and>
      NewCipher cr specs TestCipher ((secret # secrets) ! k) = Ok (entry_Cipher ((?e # es) ! k))"
    if "k < length (secret # secrets)" for k
    using that es(3) c by (cases k) (simp_all add: MakeCipherEntry_def del: itoa_loop.simps)
  then show ?case using es(1,2) c by (intro exI [of _ "?e # es"]) simp
qed simp

text \<open>The test list holds one entry per secret, in order.\<close>

lemma MakeTestCiphers_ok:
  assumes "\<forall>secret \<in> set secrets. \<exists>c. NewCipher cr specs TestCipher secret = Ok c"
  obtains cl where "MakeTestCiphers cr specs secrets = Ok cl" "cl_list cl = [0..<length secrets]"
    "\<And>k. k < length secrets \<Longrightarrow> ID (cl_entry cl k) = ''id-'' @ Itoa (int k) \<and>
       NewCipher cr specs TestCipher (secrets ! k) = Ok (entry_Cipher (cl_entry cl k))"
proof -
  from test_entries_spec [OF assms, of 0 "[]"] obtain es where
    es: "test_entries cr specs 0 secrets [] = Ok es" "length es = length secrets"
    "\<forall>k < length secrets. ID (es ! k) = ''id-'' @ Itoa (int k) \<and>
       NewCipher cr specs TestCipher (secrets ! k) = Ok (entry_Cipher (es ! k))" by auto
  show ?thesis
    by (rule that [of "install (NewCipherList no_entries) 0 es"])
      (use es in \<open>simp_all add: MakeTestCiphers_def install_def Update_def NewCipherList_def\<close>)
qed

end
