(* ===== verification/Mylog.thy ===== *)
theory Mylog
  imports SS_Prelude
begin

text \<open>
  Model of \<^verbatim>\<open>mylog/log.go\<close>. The log is the list of the lines written so far; the prefix with time, file and line that
  the standard logger adds is left out. Formatting with \<^verbatim>\<open>%v\<close> is a parameter: the text of a format and its
  arguments.
\<close>

type_synonym log = "string list"

text \<open>\<open>Der\<close> ends the process after logging when it is given an error.\<close>

definition Der :: "(string \<Rightarrow> goerror list \<Rightarrow> string) \<Rightarrow> log \<Rightarrow> goerror option \<Rightarrow> log \<times> unit result" where
  "Der sprintf lg v =
     (case v of Some err \<Rightarrow> (lg @ [sprintf ''error:%v'' [err]], Panic ''log.Fatal'') | None \<Rightarrow> (lg, Ok ()))"

fun Dd_format :: "string \<Rightarrow> 'v list \<Rightarrow> string" where
  "Dd_format ft [] = ft"
| "Dd_format ft (v # vs) = Dd_format (ft @ ''%v,'') vs"

definition Dd :: "(string \<Rightarrow> 'v list \<Rightarrow> string) \<Rightarrow> log \<Rightarrow> 'v list \<Rightarrow> log" where
  "Dd sprintf lg v = lg @ [sprintf (Dd_format [] v) v]"

definition Logf :: "(string \<Rightarrow> 'v list \<Rightarrow> string) \<Rightarrow> log \<Rightarrow> string \<Rightarrow> 'v list \<Rightarrow> log" where
  "Logf sprintf lg f v = lg @ [sprintf f v]"

record logHelper =
  lh_prefix :: string

definition newLogHelper :: "string \<Rightarrow> logHelper" where
  "newLogHelper prefix = \<lparr>lh_prefix = prefix\<rparr>"

definition logHelper_Write :: "logHelper \<Rightarrow> log \<Rightarrow> string \<Rightarrow> (nat \<times> goerror option) \<times> log" where
  "logHelper_Write l lg p = ((length p, None), lg @ [lh_prefix l @ p])"

text \<open>The format of \<open>Dd\<close> has one verb per argument, so that every argument is printed and none is missing. A helper
  satisfies the contract of an \<^verbatim>\<open>io.Writer\<close>: it writes everything and reports no error.\<close>

lemma Dd_format_verbs: "Dd_format ft vs = ft @ concat (replicate (length vs) ''%v,'')"
  by (induction ft vs rule: Dd_format.induct) simp_all

lemma Dd_count: "count_list (Dd_format [] vs) CHR ''%'' = length vs"
proof -
  have "count_list (concat (replicate n ''%v,'')) CHR ''%'' = n" for n by (induction n) simp_all
  then show ?thesis by (simp add: Dd_format_verbs)
qed

lemma logHelper_Write_all: "fst (logHelper_Write l lg p) = (length p, None)"
  by (simp add: logHelper_Write_def)

end
